(* ===== verification/Prelude.thy ===== *)
theory Prelude
  imports Main "HOL-Library.Word"
begin

text \<open>
  Shared ground of the development: the machine integer types of \<^verbatim>\<open>kernel/types.h\<close>,
  the outcome monad in which every kernel routine is written, and the generic lemmas on words,
  lists and little-endian memory that the component theories use.

  A kernel routine runs on one hart, on behalf of one kernel thread, until it
  \<^item> returns (\<open>Ok\<close> with its result and the new state),
  \<^item> calls \<^verbatim>\<open>panic\<close> (\<open>Panic\<close> with the message),
  \<^item> spins forever on a lock or in a loop that nobody else can end (\<open>Spin\<close>), or
  \<^item> gives up the processor through \<^verbatim>\<open>swtch\<close> into the scheduler (\<open>Sched\<close> with the
    state in which the scheduler continues, and what the thread does when it is resumed, as a
    function of the state it is resumed in).

  Other threads and harts act between the two halves of a \<open>Sched\<close>; \<open>safe R Q\<close> says what holds of
  an outcome whatever they do within the relation \<open>R\<close>.
\<close>

unbundle bit_operations_syntax

section \<open>Machine integers\<close>

type_synonym u8 = "8 word"
type_synonym u16 = "16 word"
type_synonym u32 = "32 word"
type_synonym u64 = "64 word"
type_synonym i32 = "32 word" \<comment> \<open>a C \<^verbatim>\<open>int\<close>, read with \<open>sint\<close>\<close>

section \<open>The outcome monad\<close>

datatype ('s, 'a) outcome = Ok 'a 's | Panic string | Spin | Sched 's "'s \<Rightarrow> ('s, 'a) outcome"

type_synonym ('s, 'a) kM = "'s \<Rightarrow> ('s, 'a) outcome"

definition returnK :: "'a \<Rightarrow> ('s, 'a) kM" where
  "returnK x = (\<lambda>s. Ok x s)"

primrec bindO :: "('s, 'a) outcome \<Rightarrow> ('a \<Rightarrow> ('s, 'b) kM) \<Rightarrow> ('s, 'b) outcome" where
  "bindO (Ok x t) f = f x t"
| "bindO (Panic e) f = Panic e"
| "bindO Spin f = Spin"
| "bindO (Sched t k) f = Sched t (\<lambda>u. bindO (k u) f)"

definition bindK :: "('s, 'a) kM \<Rightarrow> ('a \<Rightarrow> ('s, 'b) kM) \<Rightarrow> ('s, 'b) kM" where
  "bindK m f = (\<lambda>s. bindO (m s) f)"

definition thenK :: "('s, 'a) kM \<Rightarrow> ('s, 'b) kM \<Rightarrow> ('s, 'b) kM" where
  "thenK m n = bindK m (\<lambda>_. n)"

definition getsK :: "('s \<Rightarrow> 'a) \<Rightarrow> ('s, 'a) kM" where
  "getsK f = (\<lambda>s. Ok (f s) s)"

definition modifyK :: "('s \<Rightarrow> 's) \<Rightarrow> ('s, unit) kM" where
  "modifyK f = (\<lambda>s. Ok () (f s))"

definition panicK :: "string \<Rightarrow> ('s, 'a) kM" where
  "panicK e = (\<lambda>s. Panic e)"

definition spinK :: "('s, 'a) kM" where
  "spinK = (\<lambda>s. Spin)"

definition schedK :: "('s, unit) kM" where
  "schedK = (\<lambda>s. Sched s (Ok ()))"

named_theorems kM_simps \<open>unfolding rules for running a routine on a state\<close>

lemma returnK_run [kM_simps, simp]: "returnK x s = Ok x s"
  by (simp add: returnK_def)

lemma getsK_run [kM_simps, simp]: "getsK f s = Ok (f s) s"
  by (simp add: getsK_def)

lemma modifyK_run [kM_simps, simp]: "modifyK f s = Ok () (f s)"
  by (simp add: modifyK_def)

lemma panicK_run [kM_simps, simp]: "panicK e s = Panic e"
  by (simp add: panicK_def)

lemma spinK_run [kM_simps, simp]: "spinK s = Spin"
  by (simp add: spinK_def)

lemma schedK_run [kM_simps, simp]: "schedK s = Sched s (Ok ())"
  by (simp add: schedK_def)

lemma bindK_run [kM_simps]:
  "bindK m f s = bindO (m s) f"
  by (simp add: bindK_def)

lemma thenK_run [kM_simps]:
  "thenK m n s = bindO (m s) (\<lambda>_. n)"
  by (simp add: thenK_def bindK_def)

lemma bindK_OkE:
  assumes "bindK m f s = Ok y u"
  obtains x t where "m s = Ok x t" and "f x t = Ok y u"
  using assms by (cases "m s") (auto simp: bindK_def)

lemma thenK_OkE:
  assumes "thenK m n s = Ok y u"
  obtains x t where "m s = Ok x t" and "n t = Ok y u"
  using assms by (cases "m s") (auto simp: thenK_def bindK_def)

lemma bindK_Ok_iff: "bindK m f s = Ok y u \<longleftrightarrow> (\<exists>x t. m s = Ok x t \<and> f x t = Ok y u)"
  by (cases "m s") (auto simp: bindK_def)

lemma thenK_Ok_iff: "thenK m n s = Ok y u \<longleftrightarrow> (\<exists>x t. m s = Ok x t \<and> n t = Ok y u)"
  by (cases "m s") (auto simp: thenK_def bindK_def)

lemma bindO_assoc: "bindO (bindO r f) g = bindO r (\<lambda>x t. bindO (f x t) g)"
  by (induction r) simp_all

lemma bindO_return: "bindO r returnK = r" "bindO r Ok = r"
  by (induction r) (simp_all add: returnK_def)

lemma bindK_assoc: "bindK (bindK m f) g = bindK m (\<lambda>x. bindK (f x) g)"
  by (rule ext) (simp add: bindK_def bindO_assoc)

lemma thenK_assoc: "thenK (thenK m n) k = thenK m (thenK n k)"
  by (simp add: thenK_def bindK_assoc)

lemma bindO_unit: "bindO r (\<lambda>_. Ok ()) = r"
proof -
  have "(\<lambda>_ :: unit. Ok ()) = Ok" by auto
  then show ?thesis by (simp add: bindO_return)
qed

lemma thenK_return: "thenK (returnK ()) m = m" "thenK n (returnK ()) = n"
  by (rule ext, simp add: kM_simps bindO_unit bindO_return returnK_def)+

text \<open>A \<^verbatim>\<open>for\<close> loop over a fixed range.\<close>

fun forK :: "'b list \<Rightarrow> ('b \<Rightarrow> ('s, unit) kM) \<Rightarrow> ('s, unit) kM" where
  "forK [] f = returnK ()"
| "forK (x # xs) f = thenK (f x) (forK xs f)"

definition whenK :: "bool \<Rightarrow> ('s, unit) kM \<Rightarrow> ('s, unit) kM" where
  "whenK b m = (if b then m else returnK ())"

lemma whenK_run [kM_simps]: "whenK b m s = (if b then m s else Ok () s)"
  by (simp add: whenK_def)

lemma forK_append: "forK (xs @ ys) f = thenK (forK xs f) (forK ys f)"
proof (induction xs)
  case Nil
  show ?case by (simp only: append_Nil forK.simps thenK_return)
next
  case (Cons x xs)
  then show ?case by (simp only: append_Cons forK.simps thenK_assoc)
qed

primrec safe :: "('s \<Rightarrow> 's \<Rightarrow> bool) \<Rightarrow> ('a \<Rightarrow> 's \<Rightarrow> bool) \<Rightarrow> ('s, 'a) outcome \<Rightarrow> bool" where
  "safe R Q (Ok x t) = Q x t"
| "safe R Q (Panic e) = False"
| "safe R Q Spin = True"
| "safe R Q (Sched t k) = (\<forall>u. R t u \<longrightarrow> safe R Q (k u))"

lemma safe_bindO: "safe R (\<lambda>x t. safe R Q (f x t)) r \<Longrightarrow> safe R Q (bindO r f)"
  by (induction r) simp_all

lemma safe_mono: "safe R P r \<Longrightarrow> (\<And>x t. P x t \<Longrightarrow> Q x t) \<Longrightarrow> safe R Q r"
  by (induction r) auto

section \<open>Little-endian bytes\<close>

text \<open>
  \<^verbatim>\<open>riscv64\<close> stores integers least significant byte first. \<open>le_bytes n v\<close> are the \<open>n\<close> low
  bytes of \<open>v\<close>, \<open>le_word bs\<close> the integer that the bytes \<open>bs\<close> hold.
\<close>

fun le_bytes :: "nat \<Rightarrow> 'a::len word \<Rightarrow> u8 list" where
  "le_bytes 0 v = []"
| "le_bytes (Suc n) v = ucast v # le_bytes n (drop_bit 8 v)"

fun le_word :: "u8 list \<Rightarrow> 'a::len word" where
  "le_word [] = 0"
| "le_word (b # bs) = ucast b OR push_bit 8 (le_word bs)"

lemma length_le_bytes [simp]: "length (le_bytes n v) = n"
  by (induction n arbitrary: v) auto

lemma bit_le_word:
  fixes bs :: "u8 list"
  shows "bit (le_word bs :: 'a::len word) n \<longleftrightarrow>
    n < LENGTH('a) \<and> n div 8 < length bs \<and> bit (bs ! (n div 8)) (n mod 8)"
proof (induction bs arbitrary: n)
  case Nil
  show ?case by simp
next
  case (Cons b bs)
  have small: "bit b n \<Longrightarrow> n < 8" for n
    using bit_imp_le_length [of b n] by simp
  show ?case
  proof (cases "n < 8")
    case True
    then show ?thesis by (auto simp: bit_simps Cons.IH)
  next
    case False
    then have "n div 8 = Suc ((n - 8) div 8)" and "n mod 8 = (n - 8) mod 8"
      by (simp_all add: le_div_geq le_mod_geq)
    with False show ?thesis by (auto simp: bit_simps Cons.IH dest: small)
  qed
qed

lemma nth_le_bytes:
  "i < n \<Longrightarrow> le_bytes n v ! i = ucast (drop_bit (8 * i) v)"
proof (induction n arbitrary: v i)
  case 0
  then show ?case by simp
next
  case (Suc n)
  then show ?case by (cases i) (simp_all add: algebra_simps)
qed

lemma le_word_le_bytes:
  "LENGTH('a) \<le> 8 * n \<Longrightarrow> le_word (le_bytes n (v :: 'a::len word)) = v"
proof (rule bit_word_eqI)
  fix k assume len: "LENGTH('a) \<le> 8 * n" and k: "k < LENGTH('a)"
  then have "k div 8 < n" by (simp add: less_mult_imp_div_less mult.commute)
  with k show "bit (le_word (le_bytes n v) :: 'a word) k \<longleftrightarrow> bit v k"
    by (simp add: bit_le_word nth_le_bytes bit_simps)
qed

lemma le_bytes_le_word:
  assumes "8 * length bs \<le> LENGTH('a)"
  shows "le_bytes (length bs) (le_word bs :: 'a::len word) = bs"
proof (rule nth_equalityI)
  show "length (le_bytes (length bs) (le_word bs :: 'a word)) = length bs" by simp
next
  fix i assume "i < length (le_bytes (length bs) (le_word bs :: 'a word))"
  then have i: "i < length bs" by simp
  show "le_bytes (length bs) (le_word bs :: 'a word) ! i = bs ! i"
  proof (rule bit_word_eqI)
    fix k assume "k < LENGTH(8)"
    then have k: "k < 8" by simp
    have "8 * i + k < LENGTH('a)" using assms i k by simp
    with i k show "bit (le_bytes (length bs) (le_word bs :: 'a word) ! i) k = bit (bs ! i) k"
      by (simp add: nth_le_bytes bit_simps bit_le_word)
  qed
qed

section \<open>Flat byte memory\<close>

type_synonym memory = "u64 \<Rightarrow> u8"

definition mem_read :: "memory \<Rightarrow> u64 \<Rightarrow> nat \<Rightarrow> u8 list" where
  "mem_read m a n = map (\<lambda>i. m (a + of_nat i)) [0..<n]"

definition mem_write :: "memory \<Rightarrow> u64 \<Rightarrow> u8 list \<Rightarrow> memory" where
  "mem_write m a bs = (\<lambda>x. if unat (x - a) < length bs then bs ! unat (x - a) else m x)"

definition load64 :: "memory \<Rightarrow> u64 \<Rightarrow> u64" where
  "load64 m a = le_word (mem_read m a 8)"

definition store64 :: "memory \<Rightarrow> u64 \<Rightarrow> u64 \<Rightarrow> memory" where
  "store64 m a v = mem_write m a (le_bytes 8 v)"

lemma length_mem_read [simp]: "length (mem_read m a n) = n"
  by (simp add: mem_read_def)

lemma nth_mem_read [simp]: "i < n \<Longrightarrow> mem_read m a n ! i = m (a + of_nat i)"
  by (simp add: mem_read_def)

lemma mem_read_cong:
  "(\<And>i. i < n \<Longrightarrow> m (a + of_nat i) = m' (a + of_nat i)) \<Longrightarrow> mem_read m a n = mem_read m' a n"
  by (simp add: mem_read_def)

lemma unat_of_nat64: "n < 2 ^ 64 \<Longrightarrow> unat (of_nat n :: u64) = n"
  by (simp add: unat_of_nat)

lemma addr_eq_iff: "i < 2 ^ 64 \<Longrightarrow> (x :: u64) = d + of_nat i \<longleftrightarrow> unat (x - d) = i"
proof -
  assume "i < 2 ^ 64"
  then have i: "unat (of_nat i :: u64) = i" by (rule unat_of_nat64)
  have "x = d + of_nat i \<longleftrightarrow> x - d = of_nat i" by (auto simp: algebra_simps)
  also have "\<dots> \<longleftrightarrow> unat (x - d) = i" using i by (metis word_unat_eq_iff)
  finally show ?thesis .
qed

lemma mem_read_write_same:
  assumes "length bs \<le> 2 ^ 64"
  shows "mem_read (mem_write m a bs) a (length bs) = bs"
proof (rule nth_equalityI)
  fix i assume "i < length (mem_read (mem_write m a bs) a (length bs))"
  then have i: "i < length bs" by simp
  then have "unat (of_nat i :: u64) = i" using assms by (intro unat_of_nat64) simp
  then show "mem_read (mem_write m a bs) a (length bs) ! i = bs ! i"
    using i by (simp add: mem_write_def)
qed simp

lemma mem_write_outside: "length bs \<le> unat (x - a) \<Longrightarrow> mem_write m a bs x = m x"
  by (simp add: mem_write_def)

lemma load64_store64 [simp]: "load64 (store64 m a v) a = v"
proof -
  have "mem_read (mem_write m a (le_bytes 8 v)) a (length (le_bytes 8 v)) = le_bytes 8 v"
    by (rule mem_read_write_same) simp
  then show ?thesis by (simp add: load64_def store64_def le_word_le_bytes)
qed

lemma load64_cong:
  "(\<And>i. i < 8 \<Longrightarrow> m (a + of_nat i) = m' (a + of_nat i)) \<Longrightarrow> load64 m a = load64 m' a"
  using mem_read_cong [of 8 m a m'] by (simp add: load64_def)


lemma le_word_zero: "\<forall>b \<in> set bs. b = 0 \<Longrightarrow> le_word bs = 0"
  by (induction bs) simp_all

text \<open>A loop whose body establishes the next instance of an invariant.\<close>

lemma forK_upt:
  assumes "I 0 s" and "\<And>i t. i < n \<Longrightarrow> I i t \<Longrightarrow> \<exists>u. f i t = Ok () u \<and> I (Suc i) u"
  shows "\<exists>t. forK [0..<n] f s = Ok () t \<and> I n t"
  using assms(2)
proof (induction n)
  case 0
  then show ?case using assms(1) by simp
next
  case (Suc n)
  then obtain t where t: "forK [0..<n] f s = Ok () t" "I n t" by fastforce
  obtain u where "f n t = Ok () u" "I (Suc n) u" using Suc.prems [of n t] t(2) by auto
  then show ?case using t(1) by (simp add: forK_append kM_simps)
qed

lemma sint_u32: "sint (x :: u32) = (if uint x < 2 ^ 31 then uint x else uint x - 2 ^ 32)"
proof -
  have s: "sint x = (uint x + 2 ^ 31) mod 2 ^ 32 - 2 ^ 31" using int_word_sint [of "uint x", where ?'a = 32] by simp
  have u: "0 \<le> uint x" "uint x < 2 ^ 32" using uint_lt2p [of x] by simp_all
  show ?thesis
  proof (cases "uint x < 2 ^ 31")
    case False
    have "(uint x + 2 ^ 31) mod 2 ^ 32 = (uint x + 2 ^ 31 - 2 ^ 32) mod 2 ^ 32" by (simp only: minus_mod_self2)
    also have "\<dots> = uint x + 2 ^ 31 - 2 ^ 32" using u False by (intro mod_pos_pos_trivial) simp_all
    finally show ?thesis using s False by simp
  qed (use s u in \<open>simp add: mod_pos_pos_trivial\<close>)
qed

section \<open>Splitting lists\<close>

text \<open>The pieces of a list between the occurrences of a separator.\<close>

fun splitc :: "'a \<Rightarrow> 'a list \<Rightarrow> 'a list list" where
  "splitc d [] = [[]]"
| "splitc d (x # xs) = (if x = d then [] # splitc d xs else (x # hd (splitc d xs)) # tl (splitc d xs))"

lemma splitc_prefix: "d \<notin> set s \<Longrightarrow> splitc d (s @ r) = (s @ hd (splitc d r)) # tl (splitc d r)"
proof (induction s)
  case Nil
  then show ?case by (cases "(d, r)" rule: splitc.cases) auto
qed auto

lemma splitc_ne [simp]: "splitc d xs \<noteq> []"
  by (cases xs) simp_all

lemma splitc_none: "d \<notin> set xs \<Longrightarrow> splitc d xs = [xs]"
  using splitc_prefix [of d xs "[]"] by simp

lemma splitc_line: "d \<notin> set l \<Longrightarrow> splitc d (l @ d # xs) = l # splitc d xs"
  using splitc_prefix [of d l "d # xs"] by simp

lemma splitc_append: "splitc d (xs @ ys) = butlast (splitc d xs) @ splitc d (last (splitc d xs) @ ys)"
proof (induction xs)
  case (Cons x xs)
  show ?case
  proof (cases "splitc d xs")
    case (Cons l ls)
    then show ?thesis using Cons.IH splitc_prefix [of d "[x]"] by (cases ls) auto
  qed simp
qed simp

lemma last_splitc: "d \<notin> set (last (splitc d xs))" "set (last (splitc d xs)) \<subseteq> set xs"
proof (induction xs)
  case (Cons x xs)
  {
    case 1
    show ?case using Cons by (cases "splitc d xs") (auto split: if_splits)
  next
    case 2
    show ?case using Cons by (cases "splitc d xs") (auto split: if_splits)
  }
qed simp_all

end
