(* ===== verification/Machine.thy ===== *)
theory Machine
  imports Prelude
begin

text \<open>
  The machine and the kernel's shared data: the constants and macros of \<^verbatim>\<open>kernel/param.h\<close>,
  \<^verbatim>\<open>kernel/riscv.h\<close> and \<^verbatim>\<open>kernel/memlayout.h\<close>, the structures of \<^verbatim>\<open>kernel/proc.h\<close>,
  \<^verbatim>\<open>kernel/spinlock.h\<close> and \<^verbatim>\<open>kernel/sleeplock.h\<close>, and the record \<open>kstate\<close> of the state
  every component shares: physical memory, the harts' registers, the lock store and the process
  table. Later components extend \<open>kstate\<close> with the global variables of their own source file.

  Objects that C names by address are named by an index or by a constructor of a datatype:
  \<open>proc[i]\<close> by \<open>i\<close>, a null pointer by \<open>None\<close>, a spinlock by \<open>lockid\<close>, a sleep channel by
  \<open>chan\<close>. Pages of physical memory keep their 64-bit addresses.
\<close>

section \<open>Sizes (param.h)\<close>

definition NPROC :: nat where "NPROC = 64"
definition NCPU :: nat where "NCPU = 8"
definition NOFILE :: nat where "NOFILE = 16"
definition NFILE :: nat where "NFILE = 100"
definition NINODE :: nat where "NINODE = 50"
definition NDEV :: nat where "NDEV = 10"
definition ROOTDEV :: u32 where "ROOTDEV = 1"
definition MAXARG :: nat where "MAXARG = 32"
definition MAXOPBLOCKS :: nat where "MAXOPBLOCKS = 10"
definition LOGSIZE :: nat where "LOGSIZE = MAXOPBLOCKS * 3"
definition NBUF :: nat where "NBUF = MAXOPBLOCKS * 3"
definition FSSIZE :: nat where "FSSIZE = 2000"
definition MAXPATH :: nat where "MAXPATH = 128"

section \<open>Pages, page table entries and CSR bits (riscv.h)\<close>

definition SSTATUS_SPP :: u64 where "SSTATUS_SPP = push_bit 8 1"
definition SSTATUS_SPIE :: u64 where "SSTATUS_SPIE = push_bit 5 1"
definition SSTATUS_SIE :: u64 where "SSTATUS_SIE = push_bit 1 1"

definition PGSIZE :: u64 where "PGSIZE = 4096"
definition PGSHIFT :: nat where "PGSHIFT = 12"

definition PGROUNDUP :: "u64 \<Rightarrow> u64" where
  "PGROUNDUP sz = (sz + PGSIZE - 1) AND NOT (PGSIZE - 1)"

definition PGROUNDDOWN :: "u64 \<Rightarrow> u64" where
  "PGROUNDDOWN a = a AND NOT (PGSIZE - 1)"

definition PTE_V :: u64 where "PTE_V = push_bit 0 1"
definition PTE_R :: u64 where "PTE_R = push_bit 1 1"
definition PTE_W :: u64 where "PTE_W = push_bit 2 1"
definition PTE_X :: u64 where "PTE_X = push_bit 3 1"
definition PTE_U :: u64 where "PTE_U = push_bit 4 1"

definition PA2PTE :: "u64 \<Rightarrow> u64" where "PA2PTE pa = push_bit 10 (drop_bit 12 pa)"
definition PTE2PA :: "u64 \<Rightarrow> u64" where "PTE2PA pte = push_bit 12 (drop_bit 10 pte)"
definition PTE_FLAGS :: "u64 \<Rightarrow> u64" where "PTE_FLAGS pte = pte AND 0x3FF"

definition PXMASK :: u64 where "PXMASK = 0x1FF"
definition PXSHIFT :: "nat \<Rightarrow> nat" where "PXSHIFT level = PGSHIFT + 9 * level"
definition PX :: "nat \<Rightarrow> u64 \<Rightarrow> u64" where
  "PX level va = drop_bit (PXSHIFT level) va AND PXMASK"

definition MAXVA :: u64 where "MAXVA = push_bit (9 + 9 + 9 + 12 - 1) 1"

definition SATP_SV39 :: u64 where "SATP_SV39 = push_bit 60 8"
definition MAKE_SATP :: "u64 \<Rightarrow> u64" where
  "MAKE_SATP pagetable = SATP_SV39 OR drop_bit 12 pagetable"

section \<open>Address space layout (memlayout.h)\<close>

definition UART0 :: u64 where "UART0 = 0x10000000"
definition UART0_IRQ :: u32 where "UART0_IRQ = 10"
definition VIRTIO0 :: u64 where "VIRTIO0 = 0x10001000"
definition VIRTIO0_IRQ :: u32 where "VIRTIO0_IRQ = 1"
definition PLIC :: u64 where "PLIC = 0x0c000000"
definition KERNBASE :: u64 where "KERNBASE = 0x80000000"
definition PHYSTOP :: u64 where "PHYSTOP = KERNBASE + 128 * 1024 * 1024"
definition TRAMPOLINE :: u64 where "TRAMPOLINE = MAXVA - PGSIZE"
definition KSTACK :: "nat \<Rightarrow> u64" where
  "KSTACK p = TRAMPOLINE - (of_nat p + 1) * 2 * PGSIZE"
definition TRAPFRAME :: u64 where "TRAPFRAME = TRAMPOLINE - PGSIZE"

section \<open>Locks and sleep channels\<close>

datatype sleepid = BufLock nat | InodeLock nat

datatype lockid =
    PidLock | WaitLock | ProcLock nat | KmemLock | TicksLock | BcacheLock | LogLock | ItableLock
  | FtableLock | PipeLock u64 | ConsLock | UartTxLock | PrLock | VdiskLock | SleepLk sleepid

datatype chan =
    NoChan | ChanProc nat | ChanTicks | ChanLog | ChanBuf nat | ChanSleep sleepid
  | ChanPipeRead u64 | ChanPipeWrite u64 | ChanConsR | ChanUartTxR | ChanDiskFree

text \<open>\<^verbatim>\<open>struct spinlock\<close>: \<open>lk_cpu\<close> is the hart holding the lock.\<close>

record spinlock =
  lk_locked :: bool
  lk_name :: string
  lk_cpu :: "nat option"

text \<open>\<^verbatim>\<open>struct sleeplock\<close>; its inner spinlock is \<open>SleepLk\<close> of the lock store.\<close>

record sleeplock =
  sl_locked :: bool
  sl_name :: string
  sl_pid :: i32

section \<open>Processes and harts (proc.h)\<close>

record struct_context =
  cx_ra :: u64
  cx_sp :: u64
  cx_s0 :: u64
  cx_s1 :: u64
  cx_s2 :: u64
  cx_s3 :: u64
  cx_s4 :: u64
  cx_s5 :: u64
  cx_s6 :: u64
  cx_s7 :: u64
  cx_s8 :: u64
  cx_s9 :: u64
  cx_s10 :: u64
  cx_s11 :: u64

record cpu =
  c_proc :: "nat option"
  c_context :: struct_context
  c_noff :: int
  c_intena :: bool

text \<open>
  \<^verbatim>\<open>struct trapframe\<close> sits in a page of its own: its fields are read and written in physical
  memory at the byte offsets the structure's comments give.
\<close>

definition tf_kernel_satp :: u64 where "tf_kernel_satp = 0"
definition tf_kernel_sp :: u64 where "tf_kernel_sp = 8"
definition tf_kernel_trap :: u64 where "tf_kernel_trap = 16"
definition tf_epc :: u64 where "tf_epc = 24"
definition tf_kernel_hartid :: u64 where "tf_kernel_hartid = 32"
definition tf_sp :: u64 where "tf_sp = 48"
definition tf_a0 :: u64 where "tf_a0 = 112"
definition tf_a1 :: u64 where "tf_a1 = 120"
definition tf_a2 :: u64 where "tf_a2 = 128"
definition tf_a3 :: u64 where "tf_a3 = 136"
definition tf_a4 :: u64 where "tf_a4 = 144"
definition tf_a5 :: u64 where "tf_a5 = 152"
definition tf_a7 :: u64 where "tf_a7 = 168"
definition sizeof_trapframe :: nat where "sizeof_trapframe = 288"

datatype procstate = UNUSED | USED | SLEEPING | RUNNABLE | RUNNING | ZOMBIE

record vma =
  v_valid :: bool
  v_addr :: u64
  v_len :: i32
  v_prot :: i32
  v_flags :: i32
  v_off :: i32
  v_f :: "nat option"
  v_refcnt :: u64

definition VMA_MAX :: nat where "VMA_MAX = 16"

record proc =
  p_state :: procstate
  p_chan :: chan
  p_killed :: bool
  p_xstate :: i32
  p_pid :: i32
  p_parent :: "nat option"
  p_kstack :: u64
  p_sz :: u64
  p_pagetable :: u64
  p_trapframe :: u64
  p_context :: struct_context
  p_ofile :: "nat option list"
  p_cwd :: "nat option"
  p_name :: "u8 list"
  p_vma_array :: "vma list"
  p_vma_top_addr :: u64

section \<open>The shared kernel state\<close>

record kstate =
  mem :: memory
  tp :: nat                      \<comment> \<open>the executing hart, kept in its \<^verbatim>\<open>tp\<close> register\<close>
  sstatus :: "nat \<Rightarrow> u64"         \<comment> \<open>each hart's supervisor status register\<close>
  regs :: struct_context              \<comment> \<open>callee-saved registers of the executing hart\<close>
  cpus :: "nat \<Rightarrow> cpu"
  locks :: "lockid \<Rightarrow> spinlock"
  sleeplocks :: "sleepid \<Rightarrow> sleeplock"
  procs :: "proc list"           \<comment> \<open>\<^verbatim>\<open>proc[NPROC]\<close>\<close>
  initproc :: "nat option"
  nextpid :: i32
  ticks :: u32
  fuel :: nat                    \<comment> \<open>how often a thread may find its wait condition unmet\<close>

section \<open>Page arithmetic\<close>

lemma PGSIZE_mask: "PGSIZE - 1 = mask 12"
  by (simp add: PGSIZE_def mask_eq_exp_minus_1)

lemma PGROUNDDOWN_alt: "PGROUNDDOWN a = a - take_bit 12 a"
proof -
  have "a - take_bit 12 a = a AND NOT (take_bit 12 a)"
    by (rule disjunctive_diff_eq_and_not) (rule bit_word_eqI, auto simp: bit_simps)
  also have "\<dots> = PGROUNDDOWN a"
    unfolding PGROUNDDOWN_def PGSIZE_mask
    by (rule bit_word_eqI) (auto simp: bit_simps)
  finally show ?thesis by simp
qed

lemma unat_take_bit12: "unat (take_bit 12 (a :: u64)) = unat a mod 4096"
proof -
  have "unat (take_bit 12 a) = take_bit 12 (unat a)" by (rule unsigned_take_bit_eq)
  then show ?thesis by (simp add: take_bit_eq_mod)
qed

lemma unat_PGROUNDDOWN: "unat (PGROUNDDOWN a) = unat a - unat a mod 4096"
proof -
  have "take_bit 12 a \<le> a" by (simp add: word_le_nat_alt unat_take_bit12)
  then show ?thesis by (simp add: PGROUNDDOWN_alt unat_sub unat_take_bit12)
qed

lemma PGROUNDDOWN_aligned [simp]: "unat (PGROUNDDOWN a) mod 4096 = 0"
  by (simp add: unat_PGROUNDDOWN minus_mod_eq_mult_div)

lemma PGROUNDDOWN_le: "PGROUNDDOWN a \<le> a"
  by (simp add: word_le_nat_alt unat_PGROUNDDOWN)

lemma unat_PGROUNDUP:
  assumes "unat a + 4095 < 2 ^ 64"
  shows "unat (PGROUNDUP a) = (unat a + 4095) div 4096 * 4096"
proof -
  have "PGROUNDUP a = PGROUNDDOWN (a + 4095)"
    by (simp add: PGROUNDUP_def PGROUNDDOWN_def PGSIZE_def add.commute)
  moreover have "unat (a + 4095) = unat a + 4095"
    using assms by (simp add: unat_word_ariths)
  ultimately show ?thesis by (simp add: unat_PGROUNDDOWN minus_mod_eq_div_mult)
qed

lemma PX_bound: "unat (PX l va) < 512"
proof -
  have "PX l va \<le> PXMASK" by (simp add: PX_def word_and_le1)
  then show ?thesis by (simp add: PXMASK_def word_le_nat_alt)
qed

lemma unat_PX: "unat (PX l va) = unat va div 2 ^ (12 + 9 * l) mod 512"
proof -
  have "PX l va = take_bit 9 (drop_bit (12 + 9 * l) va)"
    by (simp add: PX_def PXSHIFT_def PGSHIFT_def PXMASK_def take_bit_eq_mask mask_eq_exp_minus_1)
  then have "unat (PX l va) = take_bit 9 (drop_bit (12 + 9 * l) (unat va))"
    by (simp only: unsigned_take_bit_eq unat_drop_bit_eq)
  then show ?thesis by (simp add: drop_bit_eq_div take_bit_eq_mod)
qed

lemma PTE2PA_PA2PTE:
  assumes "unat pa mod 4096 = 0" and "flags AND 0x3FF = flags"
  shows "PTE2PA (PA2PTE pa OR flags) = pa"
proof (rule bit_word_eqI)
  fix n assume n: "n < LENGTH(64)"
  have "take_bit 12 pa = 0"
    using assms(1) by (simp add: unat_take_bit12 flip: unat_eq_zero)
  then have low: "\<not> bit pa n" if "n < 12" for n
    using that by (metis bit_take_bit_iff bit_0_eq bot_apply bot_bool_def)
  have "flags = take_bit 10 flags"
    using assms(2) by (simp add: take_bit_eq_mask mask_eq_exp_minus_1)
  then have fl: "\<not> bit flags n" if "10 \<le> n" for n
    using that by (metis bit_take_bit_iff leD)
  show "bit (PTE2PA (PA2PTE pa OR flags)) n = bit pa n"
    using n low [of n] fl [of "n - 2"]
    by (cases "n < 12") (auto simp: PTE2PA_def PA2PTE_def bit_simps)
qed


end
