(* ===== verification/Spinlock.thy ===== *)
theory Spinlock
  imports Machine
begin

text \<open>
  \<^verbatim>\<open>kernel/spinlock.c\<close> with the interrupt switches of \<^verbatim>\<open>kernel/riscv.h\<close> and
  \<^verbatim>\<open>cpuid\<close>, \<^verbatim>\<open>mycpu\<close>, \<^verbatim>\<open>myproc\<close> of \<^verbatim>\<open>kernel/proc.c\<close>. The first part
  translates the routines and computes what they do to a state (\<open>acq\<close>, \<open>rel\<close>,
  \<open>touch\<close>); the second part lets several harts run them in any interleaving and shows mutual
  exclusion and the interrupt discipline in every reachable state.
\<close>

section \<open>Interrupt switches (riscv.h) and the executing hart (proc.c)\<close>

definition intr_on :: "('a kstate_scheme, unit) kM" where
  "intr_on = modifyK (\<lambda>s. s\<lparr>sstatus := (sstatus s)(tp s := sstatus s (tp s) OR SSTATUS_SIE)\<rparr>)"

definition intr_off :: "('a kstate_scheme, unit) kM" where
  "intr_off = modifyK (\<lambda>s. s\<lparr>sstatus := (sstatus s)(tp s := sstatus s (tp s) AND NOT SSTATUS_SIE)\<rparr>)"

definition intr_get :: "('a kstate_scheme, bool) kM" where
  "intr_get = getsK (\<lambda>s. sstatus s (tp s) AND SSTATUS_SIE \<noteq> 0)"

definition cpuid :: "('a kstate_scheme, nat) kM" where
  "cpuid = getsK tp"

definition mycpu :: "('a kstate_scheme, cpu) kM" where
  "mycpu = bindK cpuid (\<lambda>id. getsK (\<lambda>s. cpus s id))"

text \<open>Assignment to a field of \<^verbatim>\<open>*mycpu()\<close>.\<close>

definition modify_cpu :: "(cpu \<Rightarrow> cpu) \<Rightarrow> ('a kstate_scheme, unit) kM" where
  "modify_cpu f = modifyK (\<lambda>s. s\<lparr>cpus := (cpus s)(tp s := f (cpus s (tp s)))\<rparr>)"

section \<open>spinlock.c\<close>

definition initlock :: "lockid \<Rightarrow> string \<Rightarrow> ('a kstate_scheme, unit) kM" where
  "initlock lk nm = modifyK (\<lambda>s. s\<lparr>locks := (locks s)(lk :=
      \<lparr>lk_locked = False, lk_name = nm, lk_cpu = None\<rparr>)\<rparr>)"

definition holding :: "lockid \<Rightarrow> ('a kstate_scheme, bool) kM" where
  "holding lk = getsK (\<lambda>s. lk_locked (locks s lk) \<and> lk_cpu (locks s lk) = Some (tp s))"

definition push_off :: "('a kstate_scheme, unit) kM" where
  "push_off =
     bindK intr_get (\<lambda>old.
     thenK intr_off (
     bindK mycpu (\<lambda>c.
     thenK (if c_noff c = 0 then modify_cpu (c_intena_update (\<lambda>_. old)) else returnK ()) (
     modify_cpu (\<lambda>c. c\<lparr>c_noff := c_noff c + 1\<rparr>)))))"

definition pop_off :: "('a kstate_scheme, unit) kM" where
  "pop_off =
     bindK intr_get (\<lambda>on.
     if on then panicK ''pop_off - interruptible'' else
     bindK mycpu (\<lambda>c.
     if c_noff c < 1 then panicK ''pop_off'' else
     thenK (modify_cpu (\<lambda>c. c\<lparr>c_noff := c_noff c - 1\<rparr>)) (
     bindK mycpu (\<lambda>c.
     if c_noff c = 0 \<and> c_intena c then intr_on else returnK ()))))"

text \<open>
  The \<^verbatim>\<open>while(__sync_lock_test_and_set(...))\<close> loop: the swap finds the lock free and takes it,
  or the hart keeps swapping a 1 over a 1 until another hart releases the lock.
\<close>

definition acquire :: "lockid \<Rightarrow> ('a kstate_scheme, unit) kM" where
  "acquire lk =
     thenK push_off (
     bindK (holding lk) (\<lambda>h.
     if h then panicK ''acquire'' else
     bindK (getsK (\<lambda>s. lk_locked (locks s lk))) (\<lambda>busy.
     if busy then spinK else
     thenK (modifyK (\<lambda>s. s\<lparr>locks := (locks s)(lk := (locks s lk)\<lparr>lk_locked := True\<rparr>)\<rparr>)) (
     bindK cpuid (\<lambda>id.
     modifyK (\<lambda>s. s\<lparr>locks := (locks s)(lk := (locks s lk)\<lparr>lk_cpu := Some id\<rparr>)\<rparr>))))))"

definition release :: "lockid \<Rightarrow> ('a kstate_scheme, unit) kM" where
  "release lk =
     bindK (holding lk) (\<lambda>h.
     if \<not> h then panicK ''release'' else
     thenK (modifyK (\<lambda>s. s\<lparr>locks := (locks s)(lk := (locks s lk)\<lparr>lk_cpu := None\<rparr>)\<rparr>)) (
     thenK (modifyK (\<lambda>s. s\<lparr>locks := (locks s)(lk := (locks s lk)\<lparr>lk_locked := False\<rparr>)\<rparr>))
     pop_off))"

definition myproc :: "('a kstate_scheme, nat option) kM" where
  "myproc =
     thenK push_off (
     bindK mycpu (\<lambda>c.
     thenK pop_off (returnK (c_proc c))))"

section \<open>What the routines do to a state\<close>

definition sie :: "'a kstate_scheme \<Rightarrow> bool" where
  "sie s \<longleftrightarrow> sstatus s (tp s) AND SSTATUS_SIE \<noteq> 0"

definition cpu_inv :: "'a kstate_scheme \<Rightarrow> bool" where
  "cpu_inv s \<longleftrightarrow> 0 \<le> c_noff (cpus s (tp s)) \<and> (0 < c_noff (cpus s (tp s)) \<longrightarrow> \<not> sie s)"

definition held :: "lockid \<Rightarrow> 'a kstate_scheme \<Rightarrow> bool" where
  "held lk s \<longleftrightarrow> lk_locked (locks s lk) \<and> lk_cpu (locks s lk) = Some (tp s)"

definition lock_free :: "lockid \<Rightarrow> 'a kstate_scheme \<Rightarrow> bool" where
  "lock_free lk s \<longleftrightarrow> \<not> lk_locked (locks s lk) \<and> lk_cpu (locks s lk) = None"

definition pushed :: "'a kstate_scheme \<Rightarrow> 'a kstate_scheme" where
  "pushed s = (let c = cpus s (tp s) in
     s\<lparr>sstatus := (sstatus s)(tp s := sstatus s (tp s) AND NOT SSTATUS_SIE),
       cpus := (cpus s)(tp s := c\<lparr>c_intena := (if c_noff c = 0 then sie s else c_intena c),
                                  c_noff := c_noff c + 1\<rparr>)\<rparr>)"

definition popped :: "'a kstate_scheme \<Rightarrow> 'a kstate_scheme" where
  "popped s = (let c = cpus s (tp s) in
     s\<lparr>cpus := (cpus s)(tp s := c\<lparr>c_noff := c_noff c - 1\<rparr>),
       sstatus := (sstatus s)(tp s := (if c_noff c = 1 \<and> c_intena c
                                        then sstatus s (tp s) OR SSTATUS_SIE else sstatus s (tp s)))\<rparr>)"

definition acq :: "lockid \<Rightarrow> 'a kstate_scheme \<Rightarrow> 'a kstate_scheme" where
  "acq lk s = (pushed s)\<lparr>locks := (locks s)(lk :=
      (locks s lk)\<lparr>lk_locked := True, lk_cpu := Some (tp s)\<rparr>)\<rparr>"

definition rel :: "lockid \<Rightarrow> 'a kstate_scheme \<Rightarrow> 'a kstate_scheme" where
  "rel lk s = popped (s\<lparr>locks := (locks s)(lk :=
      (locks s lk)\<lparr>lk_cpu := None, lk_locked := False\<rparr>)\<rparr>)"

text \<open>
  \<open>touch s\<close> is \<open>s\<close> after a balanced pair of \<open>push_off\<close> and \<open>pop_off\<close>: only the hart's
  \<^verbatim>\<open>intena\<close> note may have changed.
\<close>

definition touch :: "'a kstate_scheme \<Rightarrow> 'a kstate_scheme" where
  "touch s = (let c = cpus s (tp s) in
     s\<lparr>cpus := (cpus s)(tp s := c\<lparr>c_intena := (if c_noff c = 0 then sie s else c_intena c)\<rparr>)\<rparr>)"

lemma SIE_nonzero [simp]: "SSTATUS_SIE \<noteq> 0"
  by (simp add: SSTATUS_SIE_def)

lemma SIE_bit: "x AND SSTATUS_SIE = 0 \<longleftrightarrow> \<not> bit x 1"
  using and_exp_eq_0_iff_not_bit [of x 1] by (simp add: SSTATUS_SIE_def)

lemma and_not_SIE [simp]: "(x AND NOT SSTATUS_SIE) AND SSTATUS_SIE = 0"
  by (rule bit_word_eqI) (auto simp: bit_simps)

lemma or_SIE [simp]: "(x OR SSTATUS_SIE) AND SSTATUS_SIE = SSTATUS_SIE"
  by (rule bit_word_eqI) (auto simp: bit_simps)

lemma SIE_on_restore: "x AND SSTATUS_SIE \<noteq> 0 \<Longrightarrow> (x AND NOT SSTATUS_SIE) OR SSTATUS_SIE = x"
  unfolding SIE_bit
  by (rule bit_word_eqI) (auto simp: SSTATUS_SIE_def bit_simps simp flip: push_bit_of_1)

lemma SIE_off_restore: "x AND SSTATUS_SIE = 0 \<Longrightarrow> x AND NOT SSTATUS_SIE = x"
  unfolding SIE_bit
  by (rule bit_word_eqI) (auto simp: SSTATUS_SIE_def bit_simps)

lemmas lock_defs = intr_on_def intr_off_def intr_get_def cpuid_def mycpu_def modify_cpu_def
  holding_def kM_simps

lemma push_off_run: "push_off s = Ok () (pushed s)"
  by (simp add: push_off_def pushed_def sie_def Let_def lock_defs)

lemma pop_off_run:
  "pop_off s = (if sie s then Panic ''pop_off - interruptible''
     else if c_noff (cpus s (tp s)) < 1 then Panic ''pop_off'' else Ok () (popped s))"
  by (simp add: pop_off_def popped_def sie_def Let_def lock_defs)

lemma acquire_run:
  "acquire lk s = (if held lk s then Panic ''acquire''
     else if lk_locked (locks s lk) then Spin else Ok () (acq lk s))"
  by (simp add: acquire_def push_off_run held_def acq_def pushed_def Let_def lock_defs)

lemma release_run:
  "release lk s = (if \<not> held lk s then Panic ''release''
     else if sie s then Panic ''pop_off - interruptible''
     else if c_noff (cpus s (tp s)) < 1 then Panic ''pop_off'' else Ok () (rel lk s))"
  by (simp add: release_def pop_off_run held_def rel_def sie_def lock_defs)


section \<open>Fields the routines leave alone\<close>

lemma pushed_frame [simp]:
  "mem (pushed s) = mem s" "tp (pushed s) = tp s" "regs (pushed s) = regs s"
  "locks (pushed s) = locks s" "sleeplocks (pushed s) = sleeplocks s" "procs (pushed s) = procs s"
  "initproc (pushed s) = initproc s" "nextpid (pushed s) = nextpid s" "ticks (pushed s) = ticks s" "fuel (pushed s) = fuel s"
  by (simp_all add: pushed_def Let_def)

lemma popped_frame [simp]:
  "mem (popped s) = mem s" "tp (popped s) = tp s" "regs (popped s) = regs s"
  "locks (popped s) = locks s" "sleeplocks (popped s) = sleeplocks s" "procs (popped s) = procs s"
  "initproc (popped s) = initproc s" "nextpid (popped s) = nextpid s" "ticks (popped s) = ticks s" "fuel (popped s) = fuel s"
  by (simp_all add: popped_def Let_def)

lemma acq_frame [simp]:
  "mem (acq lk s) = mem s" "tp (acq lk s) = tp s" "regs (acq lk s) = regs s"
  "sleeplocks (acq lk s) = sleeplocks s" "procs (acq lk s) = procs s"
  "initproc (acq lk s) = initproc s" "nextpid (acq lk s) = nextpid s" "ticks (acq lk s) = ticks s" "fuel (acq lk s) = fuel s"
  by (simp_all add: acq_def)

lemma rel_frame [simp]:
  "mem (rel lk s) = mem s" "tp (rel lk s) = tp s" "regs (rel lk s) = regs s"
  "sleeplocks (rel lk s) = sleeplocks s" "procs (rel lk s) = procs s"
  "initproc (rel lk s) = initproc s" "nextpid (rel lk s) = nextpid s" "ticks (rel lk s) = ticks s" "fuel (rel lk s) = fuel s"
  by (simp_all add: rel_def)

lemma touch_frame [simp]:
  "mem (touch s) = mem s" "tp (touch s) = tp s" "sstatus (touch s) = sstatus s"
  "regs (touch s) = regs s" "locks (touch s) = locks s" "sleeplocks (touch s) = sleeplocks s"
  "procs (touch s) = procs s" "initproc (touch s) = initproc s" "nextpid (touch s) = nextpid s"
  "ticks (touch s) = ticks s" "fuel (touch s) = fuel s"
  by (simp_all add: touch_def Let_def)

lemma touch_cpu [simp]:
  "c_noff (cpus (touch s) h) = c_noff (cpus s h)" "c_proc (cpus (touch s) h) = c_proc (cpus s h)"
  "c_context (cpus (touch s) h) = c_context (cpus s h)"
  by (simp_all add: touch_def Let_def)

lemma touch_inv [simp]:
  "sie (touch s) = sie s" "cpu_inv (touch s) = cpu_inv s" "lock_free lk (touch s) = lock_free lk s"
  "held lk (touch s) = held lk s"
  by (simp_all add: sie_def cpu_inv_def lock_free_def held_def)

lemma touch_touch [simp]: "touch (touch s) = touch s"
  unfolding touch_def [of "touch s"] by (simp, simp add: touch_def Let_def sie_def)

lemma acq_cpu [simp]:
  "c_noff (cpus (acq lk s) (tp s)) = c_noff (cpus s (tp s)) + 1"
  "c_proc (cpus (acq lk s) h) = c_proc (cpus s h)"
  by (simp_all add: acq_def pushed_def Let_def)

lemma rel_cpu [simp]:
  "c_noff (cpus (rel lk s) h) = (if h = tp s then c_noff (cpus s h) - 1 else c_noff (cpus s h))"
  "c_proc (cpus (rel lk s) h) = c_proc (cpus s h)"
  "c_context (cpus (rel lk s) h) = c_context (cpus s h)"
  by (simp_all add: rel_def popped_def Let_def)

lemma acq_noff: "c_noff (cpus (acq lk s) h) = (if h = tp s then c_noff (cpus s h) + 1 else c_noff (cpus s h))"
  by (simp add: acq_def pushed_def Let_def)

lemma rel_locks: "locks (rel lk s) = (locks s)(lk := (locks s lk)\<lparr>lk_cpu := None, lk_locked := False\<rparr>)"
  by (simp add: rel_def)

lemma rel_lock_free [simp]: "lock_free lk' (rel lk s) \<longleftrightarrow> lk' = lk \<or> lock_free lk' s"
  by (auto simp: rel_locks lock_free_def)

lemma touch_id: "c_noff (cpus s (tp s)) \<noteq> 0 \<Longrightarrow> touch s = s"
  by (cases s) (auto simp: touch_def Let_def fun_upd_idem)

lemma acq_touch: "acq lk (touch s) = acq lk s"
  by (cases s) (simp add: acq_def pushed_def touch_def Let_def sie_def)

lemma acq_sie [simp]: "\<not> sie (acq lk s)"
  by (simp add: acq_def pushed_def sie_def Let_def)

lemma acq_locks: "locks (acq lk s) = (locks s)(lk := (locks s lk)\<lparr>lk_locked := True, lk_cpu := Some (tp s)\<rparr>)"
  by (simp add: acq_def)

lemma acq_held [simp]: "held lk (acq lk s)"
  by (simp add: held_def acq_locks)

lemma acq_lock_free [simp]: "lk' \<noteq> lk \<Longrightarrow> lock_free lk' (acq lk s) = lock_free lk' s"
  by (simp add: lock_free_def acq_locks)

lemma acq_cpu_inv [simp]: "cpu_inv s \<Longrightarrow> cpu_inv (acq lk s)"
  by (simp add: cpu_inv_def)

section \<open>Critical sections\<close>

lemma acquire_free: "lock_free lk s \<Longrightarrow> acquire lk s = Ok () (acq lk s)"
  by (simp add: acquire_run lock_free_def held_def)

definition hart_eq :: "'a kstate_scheme \<Rightarrow> 'a kstate_scheme \<Rightarrow> bool" where
  "hart_eq s t \<longleftrightarrow> tp t = tp s \<and> sstatus t = sstatus s \<and> cpus t = cpus s \<and> locks t = locks s"

lemma release_after:
  assumes "cpu_inv s" and "hart_eq (acq lk s) t"
  shows "release lk t = Ok () (rel lk t)"
proof -
  have "held lk t" "\<not> sie t" "c_noff (cpus t (tp t)) = c_noff (cpus s (tp s)) + 1"
    using assms(2) acq_held [of lk s] acq_sie [of lk s]
    by (simp_all add: hart_eq_def held_def sie_def)
  then show ?thesis using assms(1) by (simp add: release_run cpu_inv_def)
qed

lemma popped_pushed: "cpu_inv s \<Longrightarrow> popped (pushed s) = touch s"
  by (cases s) (auto simp: popped_def pushed_def touch_def cpu_inv_def sie_def Let_def fun_upd_idem
      SIE_on_restore SIE_off_restore)

lemma rel_acq: "cpu_inv s \<Longrightarrow> lock_free lk s \<Longrightarrow> rel lk (acq lk s) = touch s"
proof -
  assume inv: "cpu_inv s" and free: "lock_free lk s"
  have "(acq lk s)\<lparr>locks := (locks (acq lk s))(lk := (locks (acq lk s) lk)\<lparr>lk_cpu := None, lk_locked := False\<rparr>)\<rparr>
      = pushed s"
    using free by (cases s) (auto simp: acq_def pushed_def Let_def lock_free_def fun_upd_idem)
  then show ?thesis using inv by (simp add: rel_def popped_pushed)
qed

lemma myproc_run:
  "cpu_inv s \<Longrightarrow> myproc s = Ok (c_proc (cpus s (tp s))) (touch s)"
proof -
  assume inv: "cpu_inv s"
  have "\<not> sie (pushed s)" by (simp add: pushed_def sie_def Let_def)
  moreover have "c_noff (cpus (pushed s) (tp s)) = c_noff (cpus s (tp s)) + 1"
    by (simp add: pushed_def Let_def)
  moreover have "c_proc (cpus (pushed s) (tp s)) = c_proc (cpus s (tp s))"
    by (simp add: pushed_def Let_def)
  ultimately show ?thesis
    using inv by (simp add: myproc_def push_off_run pop_off_run popped_pushed mycpu_def cpuid_def
        kM_simps) (simp add: cpu_inv_def)
qed


section \<open>Updates outside the locks commute with taking and releasing them\<close>

named_theorems lock_commute \<open>how an update of an unrelated field moves past \<open>acq\<close>, \<open>rel\<close> and \<open>touch\<close>\<close>

lemma acq_commute [lock_commute]:
  "acq lk (s\<lparr>mem := m\<rparr>) = (acq lk s)\<lparr>mem := m\<rparr>"
  "acq lk (s\<lparr>regs := r\<rparr>) = (acq lk s)\<lparr>regs := r\<rparr>"
  "acq lk (s\<lparr>procs := ps\<rparr>) = (acq lk s)\<lparr>procs := ps\<rparr>"
  "acq lk (s\<lparr>sleeplocks := sl\<rparr>) = (acq lk s)\<lparr>sleeplocks := sl\<rparr>"
  "acq lk (s\<lparr>initproc := ip\<rparr>) = (acq lk s)\<lparr>initproc := ip\<rparr>"
  "acq lk (s\<lparr>nextpid := n\<rparr>) = (acq lk s)\<lparr>nextpid := n\<rparr>"
  "acq lk (s\<lparr>ticks := k\<rparr>) = (acq lk s)\<lparr>ticks := k\<rparr>"
  by (simp_all add: acq_def pushed_def Let_def sie_def)

lemma rel_commute [lock_commute]:
  "rel lk (s\<lparr>mem := m\<rparr>) = (rel lk s)\<lparr>mem := m\<rparr>"
  "rel lk (s\<lparr>regs := r\<rparr>) = (rel lk s)\<lparr>regs := r\<rparr>"
  "rel lk (s\<lparr>procs := ps\<rparr>) = (rel lk s)\<lparr>procs := ps\<rparr>"
  "rel lk (s\<lparr>sleeplocks := sl\<rparr>) = (rel lk s)\<lparr>sleeplocks := sl\<rparr>"
  "rel lk (s\<lparr>initproc := ip\<rparr>) = (rel lk s)\<lparr>initproc := ip\<rparr>"
  "rel lk (s\<lparr>nextpid := n\<rparr>) = (rel lk s)\<lparr>nextpid := n\<rparr>"
  "rel lk (s\<lparr>ticks := k\<rparr>) = (rel lk s)\<lparr>ticks := k\<rparr>"
  by (simp_all add: rel_def popped_def Let_def)

lemma touch_commute [lock_commute]:
  "touch (s\<lparr>mem := m\<rparr>) = (touch s)\<lparr>mem := m\<rparr>"
  "touch (s\<lparr>regs := r\<rparr>) = (touch s)\<lparr>regs := r\<rparr>"
  "touch (s\<lparr>procs := ps\<rparr>) = (touch s)\<lparr>procs := ps\<rparr>"
  "touch (s\<lparr>sleeplocks := sl\<rparr>) = (touch s)\<lparr>sleeplocks := sl\<rparr>"
  "touch (s\<lparr>initproc := ip\<rparr>) = (touch s)\<lparr>initproc := ip\<rparr>"
  "touch (s\<lparr>nextpid := n\<rparr>) = (touch s)\<lparr>nextpid := n\<rparr>"
  "touch (s\<lparr>ticks := k\<rparr>) = (touch s)\<lparr>ticks := k\<rparr>"
  by (simp_all add: touch_def Let_def sie_def)

lemma cpu_inv_upd [simp]:
  "cpu_inv (s\<lparr>mem := m\<rparr>) = cpu_inv s" "cpu_inv (s\<lparr>regs := r\<rparr>) = cpu_inv s"
  "cpu_inv (s\<lparr>procs := ps\<rparr>) = cpu_inv s" "cpu_inv (s\<lparr>sleeplocks := sl\<rparr>) = cpu_inv s"
  "cpu_inv (s\<lparr>initproc := ip\<rparr>) = cpu_inv s" "cpu_inv (s\<lparr>nextpid := n\<rparr>) = cpu_inv s"
  "cpu_inv (s\<lparr>ticks := k\<rparr>) = cpu_inv s"
  by (simp_all add: cpu_inv_def sie_def)

lemma lock_free_upd [simp]:
  "lock_free lk (s\<lparr>mem := m\<rparr>) = lock_free lk s" "lock_free lk (s\<lparr>regs := r\<rparr>) = lock_free lk s"
  "lock_free lk (s\<lparr>procs := ps\<rparr>) = lock_free lk s" "lock_free lk (s\<lparr>sleeplocks := sl\<rparr>) = lock_free lk s"
  "lock_free lk (s\<lparr>initproc := ip\<rparr>) = lock_free lk s" "lock_free lk (s\<lparr>nextpid := n\<rparr>) = lock_free lk s"
  "lock_free lk (s\<lparr>ticks := k\<rparr>) = lock_free lk s"
  by (simp_all add: lock_free_def)

text \<open>
  A critical section that runs \<open>m\<close> under the lock: what \<open>m\<close> does to the state it finds after
  \<open>acquire\<close> happens to \<open>touch s\<close>, provided it leaves the hart and the locks alone.
\<close>

lemma critical:
  assumes "cpu_inv s" and "lock_free lk s"
    and "m (acq lk s) = Ok x (f (acq lk s))"
    and "hart_eq (acq lk s) (f (acq lk s))" and "rel lk (f (acq lk s)) = f (rel lk (acq lk s))"
  shows "thenK (acquire lk) (bindK m (\<lambda>x. thenK (release lk) (returnK x))) s = Ok x (f (touch s))"
  using assms by (simp add: kM_simps acquire_free release_after rel_acq)

section \<open>A concrete machine\<close>

text \<open>An idle machine, for the examples below: nothing locked, interrupts on, no processes.\<close>

definition ctx0 :: struct_context where
  "ctx0 = \<lparr>cx_ra = 0, cx_sp = 0, cx_s0 = 0, cx_s1 = 0, cx_s2 = 0, cx_s3 = 0, cx_s4 = 0, cx_s5 = 0,
     cx_s6 = 0, cx_s7 = 0, cx_s8 = 0, cx_s9 = 0, cx_s10 = 0, cx_s11 = 0\<rparr>"

definition k0 :: kstate where
  "k0 = \<lparr>mem = (\<lambda>_. 0), tp = 0, sstatus = (\<lambda>_. SSTATUS_SIE), regs = ctx0,
     cpus = (\<lambda>_. \<lparr>c_proc = None, c_context = ctx0, c_noff = 0, c_intena = False\<rparr>),
     locks = (\<lambda>_. \<lparr>lk_locked = False, lk_name = [], lk_cpu = None\<rparr>),
     sleeplocks = (\<lambda>_. \<lparr>sl_locked = False, sl_name = [], sl_pid = 0\<rparr>),
     procs = [], initproc = None, nextpid = 1, ticks = 0, fuel = 3\<rparr>"

lemma k0_simps [simp]:
  "mem k0 = (\<lambda>_. 0)" "tp k0 = 0" "sie k0" "cpu_inv k0" "lock_free lk k0" "procs k0 = []"
  by (simp_all add: k0_def sie_def cpu_inv_def lock_free_def SSTATUS_SIE_def)

section \<open>Nesting of push_off and pop_off\<close>

fun repeatK :: "nat \<Rightarrow> ('s, unit) kM \<Rightarrow> ('s, unit) kM" where
  "repeatK 0 m = returnK ()"
| "repeatK (Suc n) m = thenK m (repeatK n m)"

lemma repeatK_snoc: "repeatK (Suc n) m = thenK (repeatK n m) m"
proof (induction n)
  case 0
  show ?case by (simp only: repeatK.simps thenK_return)
next
  case (Suc n)
  have "repeatK (Suc (Suc n)) m = thenK m (thenK (repeatK n m) m)"
    by (simp only: repeatK.simps(2) [of "Suc n"] Suc.IH)
  also have "\<dots> = thenK (repeatK (Suc n) m) m" by (simp only: thenK_assoc repeatK.simps(2))
  finally show ?case .
qed

lemma repeat_push: "repeatK n push_off s = Ok () ((pushed ^^ n) s)"
  by (induction n arbitrary: s) (simp_all add: kM_simps push_off_run funpow_swap1)

lemma pushed_cpu_inv: "cpu_inv s \<Longrightarrow> cpu_inv (pushed s) \<and> 0 < c_noff (cpus (pushed s) (tp s)) \<and> \<not> sie (pushed s)"
  by (simp add: cpu_inv_def pushed_def sie_def Let_def)

lemma touch_pushed: "cpu_inv s \<Longrightarrow> touch (pushed s) = pushed s"
  by (cases s) (auto simp: touch_def pushed_def cpu_inv_def sie_def Let_def fun_upd_idem)

lemma pushed_touch: "pushed (touch s) = pushed s"
  by (cases s) (auto simp: touch_def pushed_def sie_def Let_def)

lemma pop_off_pushed: "cpu_inv s \<Longrightarrow> pop_off (pushed s) = Ok () (touch s)"
  using pushed_cpu_inv [of s] by (simp add: pop_off_run popped_pushed)

lemma repeat_pop_push: "cpu_inv s \<Longrightarrow> repeatK (Suc n) pop_off ((pushed ^^ Suc n) s) = Ok () (touch s)"
proof (induction n arbitrary: s)
  case 0
  then show ?case by (simp add: kM_simps pop_off_pushed)
next
  case (Suc n)
  have "repeatK (Suc n) pop_off ((pushed ^^ Suc n) (pushed s)) = Ok () (touch (pushed s))"
    using Suc.IH [of "pushed s"] Suc.prems pushed_cpu_inv by blast
  then have run: "repeatK (Suc n) pop_off ((pushed ^^ Suc (Suc n)) s) = Ok () (pushed s)"
    using Suc.prems by (simp only: touch_pushed funpow_Suc_right comp_def)
  then show ?case
    using Suc.prems by (simp only: repeatK_snoc [of "Suc n"] thenK_run bindO.simps pop_off_pushed)
qed



section \<open>Several harts\<close>

text \<open>
  A system of harts that take and release spinlocks and switch their interrupts. \<open>H h\<close> is the set
  of locks hart \<open>h\<close> has acquired and not released since the start. A hart may call
  \<^verbatim>\<open>intr_on\<close> or \<^verbatim>\<open>intr_off\<close> directly only outside of critical sections, as
  \<^verbatim>\<open>scheduler\<close>, \<^verbatim>\<open>usertrap\<close> and \<^verbatim>\<open>usertrapret\<close> do.
\<close>

type_synonym harts = "kstate \<times> (nat \<Rightarrow> lockid set)"

inductive hart_step :: "harts \<Rightarrow> harts \<Rightarrow> bool" where
  acquires: "acquire l (s\<lparr>tp := h\<rparr>) = Ok () t \<Longrightarrow> hart_step (s, H) (t, H(h := insert l (H h)))"
| releases: "release l (s\<lparr>tp := h\<rparr>) = Ok () t \<Longrightarrow> hart_step (s, H) (t, H(h := H h - {l}))"
| enables: "c_noff (cpus s h) = 0 \<Longrightarrow> intr_on (s\<lparr>tp := h\<rparr>) = Ok () t \<Longrightarrow> hart_step (s, H) (t, H)"
| disables: "c_noff (cpus s h) = 0 \<Longrightarrow> intr_off (s\<lparr>tp := h\<rparr>) = Ok () t \<Longrightarrow> hart_step (s, H) (t, H)"

text \<open>At the start no lock is taken and no hart is inside \<^verbatim>\<open>push_off\<close>.\<close>

definition hart_init :: "kstate \<Rightarrow> bool" where
  "hart_init s \<longleftrightarrow> (\<forall>l. lock_free l s) \<and> (\<forall>h. c_noff (cpus s h) = 0)"

inductive hart_reach :: "harts \<Rightarrow> bool" where
  start: "hart_init s \<Longrightarrow> hart_reach (s, \<lambda>_. {})"
| step: "hart_reach x \<Longrightarrow> hart_step x y \<Longrightarrow> hart_reach y"

definition harts_inv :: "harts \<Rightarrow> bool" where
  "harts_inv x = (case x of (s, H) \<Rightarrow>
     (\<forall>h. finite (H h) \<and> c_noff (cpus s h) = int (card (H h)) \<and>
          (H h \<noteq> {} \<longrightarrow> sstatus s h AND SSTATUS_SIE = 0)) \<and>
     (\<forall>l h. l \<in> H h \<longleftrightarrow> lk_cpu (locks s l) = Some h) \<and>
     (\<forall>l. lk_locked (locks s l) \<longleftrightarrow> lk_cpu (locks s l) \<noteq> None))"

lemma harts_inv_acquire:
  assumes inv: "harts_inv (s, H)" and acq: "acquire l (s\<lparr>tp := h\<rparr>) = Ok () t"
  shows "harts_inv (t, H(h := insert l (H h)))"
proof -
  from acq have t: "t = acq l (s\<lparr>tp := h\<rparr>)" and free: "\<not> lk_locked (locks s l)"
    by (auto simp: acquire_run split: if_splits)
  with inv have new: "l \<notin> H g" for g by (auto simp: harts_inv_def)
  show ?thesis
    using inv new [of h] new free unfolding harts_inv_def t
    by (auto simp: acq_def pushed_def Let_def card_insert_if)
qed

lemma harts_inv_release:
  assumes inv: "harts_inv (s, H)" and rel: "release l (s\<lparr>tp := h\<rparr>) = Ok () t"
  shows "harts_inv (t, H(h := H h - {l}))"
proof -
  from rel have t: "t = rel l (s\<lparr>tp := h\<rparr>)" and mine: "lk_cpu (locks s l) = Some h"
    by (auto simp: release_run held_def split: if_splits)
  with inv have l: "l \<in> H h" and fin: "finite (H h)" and off: "sstatus s h AND SSTATUS_SIE = 0"
    by (auto simp: harts_inv_def)
  have "card (H h) = Suc (card (H h - {l}))" using l fin by (metis card.remove)
  moreover have "H h - {l} \<noteq> {} \<Longrightarrow> card (H h) \<noteq> 1"
    using fin calculation by (metis One_nat_def card_0_eq finite_Diff nat.inject)
  moreover have "l \<notin> H g" if "g \<noteq> h" for g
    using inv mine that by (auto simp: harts_inv_def)
  ultimately show ?thesis
    using inv mine l off unfolding harts_inv_def t
    by (auto simp: rel_def popped_def Let_def)
qed

lemma harts_inv_step: "hart_step x y \<Longrightarrow> harts_inv x \<Longrightarrow> harts_inv y"
proof (induction rule: hart_step.induct)
  case (acquires l s h t H)
  then show ?case by (rule harts_inv_acquire [rotated])
next
  case (releases l s h t H)
  then show ?case by (rule harts_inv_release [rotated])
next
  case (enables s h t H)
  then have "H h = {}" by (auto simp: harts_inv_def)
  with enables show ?case
    by (auto simp: harts_inv_def intr_on_def split: if_splits) (metis empty_iff)+
next
  case (disables s h t H)
  then show ?case
    by (auto simp: harts_inv_def intr_off_def split: if_splits)
qed

lemma harts_inv_reach: "hart_reach x \<Longrightarrow> harts_inv x"
proof (induction rule: hart_reach.induct)
  case (start s)
  then show ?case by (auto simp: harts_inv_def hart_init_def lock_free_def)
next
  case (step x y)
  then show ?case by (blast intro: harts_inv_step)
qed




end
