(* ===== verification/Procsched.thy ===== *)
theory Procsched
  imports Spinlock
begin

text \<open>
  The scheduling half of \<^verbatim>\<open>kernel/proc.c\<close> and \<^verbatim>\<open>kernel/swtch.S\<close>: \<^verbatim>\<open>sched\<close>, \<^verbatim>\<open>yield\<close>,
  \<^verbatim>\<open>sleep\<close>, \<^verbatim>\<open>wakeup\<close>, \<^verbatim>\<open>kill\<close>, \<^verbatim>\<open>killed\<close>, \<^verbatim>\<open>setkilled\<close>, \<^verbatim>\<open>allocpid\<close> and the scheduler.
  A process pointer is an index into \<open>procs\<close>, the table \<^verbatim>\<open>proc[NPROC]\<close>. The lemmas compute what each
  routine does; the properties are that no wakeup is lost and that, under every interleaving of the
  harts, a running process is the current process of exactly one hart.
\<close>

section \<open>swtch.S\<close>

datatype ctxptr = ProcCtx nat | CpuCtx nat

fun ctx_get :: "ctxptr \<Rightarrow> 'a kstate_scheme \<Rightarrow> struct_context" where
  "ctx_get (ProcCtx i) s = p_context (procs s ! i)"
| "ctx_get (CpuCtx h) s = c_context (cpus s h)"

definition modproc :: "nat \<Rightarrow> (proc \<Rightarrow> proc) \<Rightarrow> ('a kstate_scheme, unit) kM" where
  "modproc i f = modifyK (\<lambda>s. s\<lparr>procs := (procs s)[i := f (procs s ! i)]\<rparr>)"

fun ctx_set :: "ctxptr \<Rightarrow> struct_context \<Rightarrow> ('a kstate_scheme, unit) kM" where
  "ctx_set (ProcCtx i) c = modproc i (p_context_update (\<lambda>_. c))"
| "ctx_set (CpuCtx h) c = modifyK (\<lambda>s. s\<lparr>cpus := (cpus s)(h := (cpus s h)\<lparr>c_context := c\<rparr>)\<rparr>)"

text \<open>
  Save the callee-saved registers in \<^verbatim>\<open>old\<close>, load them from \<^verbatim>\<open>new\<close> and return on the other stack:
  the calling thread stops here until somebody switches back to it.
\<close>

definition swtch :: "ctxptr \<Rightarrow> ctxptr \<Rightarrow> ('a kstate_scheme, unit) kM" where
  "swtch old new =
     thenK (bindK (getsK regs) (ctx_set old)) (
     thenK (bindK (getsK (ctx_get new)) (\<lambda>c. modifyK (\<lambda>s. s\<lparr>regs := c\<rparr>)))
     schedK)"

section \<open>proc.c: scheduling\<close>

text \<open>Using \<^verbatim>\<open>myproc()\<close> as a pointer where there is no current process faults in the kernel.\<close>

definition curproc :: "('a kstate_scheme, nat) kM" where
  "curproc = bindK myproc (\<lambda>p. case p of None \<Rightarrow> panicK ''kerneltrap'' | Some i \<Rightarrow> returnK i)"

definition sched :: "('a kstate_scheme, unit) kM" where
  "sched =
     bindK curproc (\<lambda>p.
     bindK (holding (ProcLock p)) (\<lambda>h.
     if \<not> h then panicK ''sched p->lock'' else
     bindK mycpu (\<lambda>c.
     if c_noff c \<noteq> 1 then panicK ''sched locks'' else
     bindK (getsK (\<lambda>s. p_state (procs s ! p))) (\<lambda>st.
     if st = RUNNING then panicK ''sched running'' else
     bindK intr_get (\<lambda>on.
     if on then panicK ''sched interruptible'' else
     bindK mycpu (\<lambda>c.
     bindK cpuid (\<lambda>id.
     thenK (swtch (ProcCtx p) (CpuCtx id)) (
     modify_cpu (c_intena_update (\<lambda>_. c_intena c))))))))))"

definition yield :: "('a kstate_scheme, unit) kM" where
  "yield =
     bindK curproc (\<lambda>p.
     thenK (acquire (ProcLock p)) (
     thenK (modproc p (p_state_update (\<lambda>_. RUNNABLE))) (
     thenK sched (
     release (ProcLock p)))))"

definition sleep :: "chan \<Rightarrow> lockid \<Rightarrow> ('a kstate_scheme, unit) kM" where
  "sleep c lk =
     bindK curproc (\<lambda>p.
     thenK (acquire (ProcLock p)) (
     thenK (release lk) (
     thenK (modproc p (p_chan_update (\<lambda>_. c))) (
     thenK (modproc p (p_state_update (\<lambda>_. SLEEPING))) (
     thenK sched (
     thenK (modproc p (p_chan_update (\<lambda>_. NoChan))) (
     thenK (release (ProcLock p)) (
     acquire lk))))))))"

definition wakeup_visit :: "chan \<Rightarrow> nat \<Rightarrow> ('a kstate_scheme, unit) kM" where
  "wakeup_visit c i =
     bindK myproc (\<lambda>me.
     whenK (me \<noteq> Some i) (
       thenK (acquire (ProcLock i)) (
       bindK (getsK (\<lambda>s. procs s ! i)) (\<lambda>p.
       thenK (whenK (p_state p = SLEEPING \<and> p_chan p = c) (modproc i (p_state_update (\<lambda>_. RUNNABLE)))) (
       release (ProcLock i))))))"

definition wakeup :: "chan \<Rightarrow> ('a kstate_scheme, unit) kM" where
  "wakeup c = forK [0..<NPROC] (wakeup_visit c)"

fun kill_loop :: "i32 \<Rightarrow> nat list \<Rightarrow> ('a kstate_scheme, int) kM" where
  "kill_loop pid [] = returnK (-1)"
| "kill_loop pid (i # is) =
     thenK (acquire (ProcLock i)) (
     bindK (getsK (\<lambda>s. procs s ! i)) (\<lambda>p.
     if p_pid p = pid then
       thenK (modproc i (p_killed_update (\<lambda>_. True))) (
       thenK (whenK (p_state p = SLEEPING) (modproc i (p_state_update (\<lambda>_. RUNNABLE)))) (
       thenK (release (ProcLock i)) (
       returnK 0)))
     else thenK (release (ProcLock i)) (kill_loop pid is)))"

definition kill :: "i32 \<Rightarrow> ('a kstate_scheme, int) kM" where
  "kill pid = kill_loop pid [0..<NPROC]"

definition setkilled :: "nat \<Rightarrow> ('a kstate_scheme, unit) kM" where
  "setkilled p =
     thenK (acquire (ProcLock p)) (
     thenK (modproc p (p_killed_update (\<lambda>_. True))) (
     release (ProcLock p)))"

definition killed :: "nat \<Rightarrow> ('a kstate_scheme, bool) kM" where
  "killed p =
     thenK (acquire (ProcLock p)) (
     bindK (getsK (\<lambda>s. p_killed (procs s ! p))) (\<lambda>k.
     thenK (release (ProcLock p)) (
     returnK k)))"

definition allocpid :: "('a kstate_scheme, i32) kM" where
  "allocpid =
     thenK (acquire PidLock) (
     bindK (getsK nextpid) (\<lambda>pid.
     thenK (modifyK (\<lambda>s. s\<lparr>nextpid := nextpid s + 1\<rparr>)) (
     thenK (release PidLock) (
     returnK pid))))"

text \<open>
  The scheduler's visit to one slot of the table, the part of it after the process has switched back,
  one pass over the table, and \<open>n\<close> rounds of the \<^verbatim>\<open>for(;;)\<close> loop, which never returns.
\<close>

definition scheduler_tail :: "nat \<Rightarrow> ('a kstate_scheme, unit) kM" where
  "scheduler_tail i =
     thenK (modify_cpu (c_proc_update (\<lambda>_. None))) (
     release (ProcLock i))"

definition scheduler_visit :: "nat \<Rightarrow> ('a kstate_scheme, unit) kM" where
  "scheduler_visit i =
     thenK (acquire (ProcLock i)) (
     bindK (getsK (\<lambda>s. p_state (procs s ! i))) (\<lambda>st.
     if st = RUNNABLE then
       thenK (modproc i (p_state_update (\<lambda>_. RUNNING))) (
       thenK (modify_cpu (c_proc_update (\<lambda>_. Some i))) (
       bindK cpuid (\<lambda>id.
       thenK (swtch (CpuCtx id) (ProcCtx i)) (
       scheduler_tail i))))
     else release (ProcLock i)))"

fun scheduler_rounds :: "nat \<Rightarrow> ('a kstate_scheme, unit) kM" where
  "scheduler_rounds 0 = spinK"
| "scheduler_rounds (Suc n) =
     thenK intr_on (
     thenK (forK [0..<NPROC] scheduler_visit) (
     scheduler_rounds n))"

definition scheduler :: "('a kstate_scheme, unit) kM" where
  "scheduler =
     thenK (modify_cpu (c_proc_update (\<lambda>_. None))) (
     bindK (getsK fuel) scheduler_rounds)"


section \<open>What the routines do\<close>

lemma modproc_run [kM_simps]:
  "modproc i f s = Ok () (s\<lparr>procs := (procs s)[i := f (procs s ! i)]\<rparr>)"
  by (simp add: modproc_def)

lemma curproc_run: "cpu_inv s \<Longrightarrow> c_proc (cpus s (tp s)) = Some i \<Longrightarrow> curproc s = Ok i (touch s)"
  by (simp add: curproc_def kM_simps myproc_run)

text \<open>The state in which process \<open>p\<close> has switched to the scheduler of its hart.\<close>

definition switched :: "nat \<Rightarrow> 'a kstate_scheme \<Rightarrow> 'a kstate_scheme" where
  "switched p s = s\<lparr>procs := (procs s)[p := (procs s ! p)\<lparr>p_context := regs s\<rparr>],
     regs := c_context (cpus s (tp s))\<rparr>"

lemma sched_run:
  assumes "cpu_inv s" "c_proc (cpus s (tp s)) = Some p" "held (ProcLock p) s"
    "c_noff (cpus s (tp s)) = 1" "p_state (procs s ! p) \<noteq> RUNNING"
  shows "sched s = Sched (switched p s)
     (\<lambda>u. Ok () (u\<lparr>cpus := (cpus u)(tp u := (cpus u (tp u))\<lparr>c_intena := c_intena (cpus s (tp s))\<rparr>)\<rparr>))"
proof -
  have "touch s = s" using assms(4) by (simp add: touch_id)
  moreover have "sstatus s (tp s) AND SSTATUS_SIE = 0" using assms(1,4) by (simp add: cpu_inv_def sie_def)
  ultimately show ?thesis
    using assms unfolding sched_def swtch_def switched_def
    by (simp add: curproc_run kM_simps holding_def held_def mycpu_def cpuid_def intr_get_def modify_cpu_def)
qed

lemma sched_not_alone:
  assumes "cpu_inv s" "c_proc (cpus s (tp s)) = Some p" "held (ProcLock p) s"
    "1 < c_noff (cpus s (tp s))"
  shows "sched s = Panic ''sched locks''"
proof -
  have "touch s = s" using assms(4) by (simp add: touch_id)
  then show ?thesis
    using assms unfolding sched_def
    by (simp add: curproc_run kM_simps holding_def held_def mycpu_def cpuid_def)
qed

lemma yield_run:
  assumes "cpu_inv s" "c_noff (cpus s (tp s)) = 0" "c_proc (cpus s (tp s)) = Some p"
    "lock_free (ProcLock p) s" "p < length (procs s)"
  shows "\<exists>k. yield s = Sched (switched p ((acq (ProcLock p) s)\<lparr>procs := (procs s)[p := (procs s ! p)\<lparr>p_state := RUNNABLE\<rparr>]\<rparr>)) k"
  using assms unfolding yield_def
  by (auto simp: curproc_run kM_simps acquire_free acq_touch)
    (subst sched_run, auto simp: held_def acq_locks)

definition asleep :: "nat \<Rightarrow> chan \<Rightarrow> lockid \<Rightarrow> 'a kstate_scheme \<Rightarrow> 'a kstate_scheme" where
  "asleep p c lk s = (rel lk (acq (ProcLock p) s))\<lparr>procs :=
     (procs s)[p := (procs s ! p)\<lparr>p_chan := c, p_state := SLEEPING\<rparr>]\<rparr>"

lemma sleep_run:
  assumes "cpu_inv s" "c_noff (cpus s (tp s)) = 1" "c_proc (cpus s (tp s)) = Some p" "held lk s"
    "\<not> lk_locked (locks s (ProcLock p))" "p < length (procs s)"
  shows "sleep c lk s = Sched (switched p (asleep p c lk s)) (\<lambda>u. bindO (Ok ()
       (u\<lparr>cpus := (cpus u)(tp u := (cpus u (tp u))\<lparr>c_intena := c_intena (cpus (asleep p c lk s) (tp s))\<rparr>)\<rparr>))
     (\<lambda>_. thenK (modproc p (p_chan_update (\<lambda>_. NoChan))) (thenK (release (ProcLock p)) (acquire lk))))"
proof -
  let ?a = "acq (ProcLock p) s" and ?t = "asleep p c lk s"
  have tp: "tp ?t = tp s" by (simp add: asleep_def)
  have ne: "lk \<noteq> ProcLock p" using assms(4,5) by (auto simp: held_def)
  have t0: "touch s = s" using assms(2) by (simp add: touch_id)
  have "release lk ?a = Ok () (rel lk ?a)"
    using assms(2,4) ne by (simp add: release_run held_def acq_locks)
  moreover have "sched ?t = Sched (switched p ?t)
     (\<lambda>u. Ok () (u\<lparr>cpus := (cpus u)(tp u := (cpus u (tp u))\<lparr>c_intena := c_intena (cpus ?t (tp s))\<rparr>)\<rparr>))"
    unfolding tp [symmetric]
  proof (rule sched_run)
    have "\<not> sie (rel lk ?a)" using assms(2) by (simp add: rel_def popped_def sie_def Let_def, simp add: acq_def pushed_def Let_def)
    then show "cpu_inv ?t" using assms(2) by (simp add: asleep_def, simp add: cpu_inv_def)
    show "held (ProcLock p) ?t" using ne by (simp add: asleep_def held_def rel_locks acq_locks)
  qed (use assms in \<open>simp_all add: asleep_def acq_noff\<close>)
  ultimately show ?thesis
    using assms(1,3,5,6) unfolding sleep_def asleep_def
    by (simp add: curproc_run t0 kM_simps acquire_run held_def)
qed


subsection \<open>Sleeping under any behaviour of the other threads\<close>

text \<open>
  \<open>crit lk p\<close>: process \<open>p\<close> runs in the critical section of \<open>lk\<close>, its only lock. \<open>resumed lk p t\<close> is what a
  sleeper may assume of the state in which the scheduler switches back to it, possibly on another
  hart: its own lock is held, it is the current process, and everything else may have changed.
\<close>

definition crit :: "lockid \<Rightarrow> nat \<Rightarrow> 'a kstate_scheme \<Rightarrow> bool" where
  "crit lk p s \<longleftrightarrow> cpu_inv s \<and> c_noff (cpus s (tp s)) = 1 \<and> c_proc (cpus s (tp s)) = Some p \<and> held lk s \<and>
     \<not> held (ProcLock p) s \<and> p < length (procs s)"

definition resumed :: "lockid \<Rightarrow> nat \<Rightarrow> 'a kstate_scheme \<Rightarrow> bool" where
  "resumed lk p u \<longleftrightarrow> \<not> sie u \<and> c_noff (cpus u (tp u)) = 1 \<and> c_proc (cpus u (tp u)) = Some p \<and>
     held (ProcLock p) u \<and> \<not> held lk u \<and> p < length (procs u)"

definition sleep_back :: "nat \<Rightarrow> lockid \<Rightarrow> bool \<Rightarrow> 'a kstate_scheme \<Rightarrow> 'a kstate_scheme" where
  "sleep_back p lk ia u = acq lk (rel (ProcLock p) (u\<lparr>cpus := (cpus u)(tp u := (cpus u (tp u))\<lparr>c_intena := ia\<rparr>),
     procs := (procs u)[p := (procs u ! p)\<lparr>p_chan := NoChan\<rparr>]\<rparr>))"

lemma crit_sleep_back:
  assumes "resumed lk p u" and "\<not> lk_locked (locks u lk)"
  shows "crit lk p (sleep_back p lk ia u)"
proof -
  have "lk \<noteq> ProcLock p" using assms by (auto simp: resumed_def held_def)
  then show ?thesis
    using assms by (auto simp: crit_def sleep_back_def resumed_def cpu_inv_def held_def acq_locks rel_locks acq_noff)
qed

lemma safe_sleep:
  assumes "crit lk p s"
    and "\<And>u ia. resumed lk p u \<Longrightarrow> R (switched p (asleep p c lk s)) u \<Longrightarrow> crit lk p (sleep_back p lk ia u) \<Longrightarrow>
      Q () (sleep_back p lk ia u)"
  shows "safe (\<lambda>t u. resumed lk p u \<and> R t u) Q (sleep c lk s)"
proof (cases "lk_locked (locks s (ProcLock p))")
  case True
  have "touch s = s" using assms(1) by (simp add: crit_def touch_id)
  with True assms(1) have "sleep c lk s = Spin"
    by (simp add: sleep_def kM_simps curproc_run crit_def acquire_run)
  then show ?thesis by simp
next
  case False
  let ?t = "asleep p c lk s" and ?ia = "c_intena (cpus (asleep p c lk s) (tp s))"
  have run: "sleep c lk s = Sched (switched p ?t) (\<lambda>u. bindO (Ok ()
       (u\<lparr>cpus := (cpus u)(tp u := (cpus u (tp u))\<lparr>c_intena := ?ia\<rparr>)\<rparr>))
     (\<lambda>_. thenK (modproc p (p_chan_update (\<lambda>_. NoChan))) (thenK (release (ProcLock p)) (acquire lk))))"
    using assms(1) False by (intro sleep_run) (simp_all add: crit_def)
  have cont: "thenK (modproc p (p_chan_update (\<lambda>_. NoChan))) (thenK (release (ProcLock p)) (acquire lk))
      (u\<lparr>cpus := (cpus u)(tp u := (cpus u (tp u))\<lparr>c_intena := ?ia\<rparr>)\<rparr>)
    = (if lk_locked (locks u lk) then Spin else Ok () (sleep_back p lk ?ia u))" if "resumed lk p u" for u
  proof -
    have "lk \<noteq> ProcLock p" using that by (auto simp: resumed_def)
    then show ?thesis
      using that by (simp add: kM_simps resumed_def release_run acquire_run sleep_back_def held_def sie_def rel_locks)
  qed
  show ?thesis
    unfolding run safe.simps bindO.simps
    by (auto simp: cont simp del: bindO.simps intro!: assms(2) crit_sleep_back)
qed

text \<open>A critical section under the lock of one process that changes the table only.\<close>

lemma proc_section:
  assumes "cpu_inv s" and "lock_free (ProcLock i) s"
  shows "release (ProcLock i) ((acq (ProcLock i) s)\<lparr>procs := ps\<rparr>) = Ok () ((touch s)\<lparr>procs := ps\<rparr>)"
    and "release (ProcLock i) (acq (ProcLock i) s) = Ok () (touch s)"
proof -
  have "release (ProcLock i) ((acq (ProcLock i) s)\<lparr>procs := ps\<rparr>) = Ok () (rel (ProcLock i) ((acq (ProcLock i) s)\<lparr>procs := ps\<rparr>))"
    using assms(1) by (rule release_after) (simp add: hart_eq_def)
  then show "release (ProcLock i) ((acq (ProcLock i) s)\<lparr>procs := ps\<rparr>) = Ok () ((touch s)\<lparr>procs := ps\<rparr>)"
    using assms by (simp add: lock_commute rel_acq)
  have "release (ProcLock i) (acq (ProcLock i) s) = Ok () (rel (ProcLock i) (acq (ProcLock i) s))"
    using assms(1) by (rule release_after) (simp add: hart_eq_def)
  then show "release (ProcLock i) (acq (ProcLock i) s) = Ok () (touch s)"
    using assms by (simp add: rel_acq)
qed

lemma procs_triv [simp]: "s\<lparr>procs := procs s\<rparr> = s" "(touch s)\<lparr>procs := procs s\<rparr> = touch s"
  by (cases s, simp) (cases s, simp add: touch_def Let_def)

definition woken1 :: "nat option \<Rightarrow> chan \<Rightarrow> nat \<Rightarrow> proc \<Rightarrow> proc" where
  "woken1 me c i p =
     (if me \<noteq> Some i \<and> p_state p = SLEEPING \<and> p_chan p = c then p\<lparr>p_state := RUNNABLE\<rparr> else p)"

definition woken :: "nat option \<Rightarrow> chan \<Rightarrow> proc list \<Rightarrow> proc list" where
  "woken me c ps = map (\<lambda>i. woken1 me c i (ps ! i)) [0..<length ps]"

lemma length_woken [simp]: "length (woken me c ps) = length ps"
  by (simp add: woken_def)

lemma nth_woken [simp]: "i < length ps \<Longrightarrow> woken me c ps ! i = woken1 me c i (ps ! i)"
  by (simp add: woken_def)

lemma wakeup_visit_run:
  assumes "cpu_inv s" and "c_proc (cpus s (tp s)) \<noteq> Some i \<Longrightarrow> lock_free (ProcLock i) s"
  shows "wakeup_visit c i s
    = Ok () ((touch s)\<lparr>procs := (procs s)[i := woken1 (c_proc (cpus s (tp s))) c i (procs s ! i)]\<rparr>)"
proof (cases "c_proc (cpus s (tp s)) = Some i")
  case True
  with assms(1) show ?thesis
    by (simp add: wakeup_visit_def kM_simps myproc_run woken1_def)
next
  case False
  then have free: "lock_free (ProcLock i) (touch s)" using assms(2) by simp
  with assms(1) False show ?thesis
    by (simp add: wakeup_visit_def kM_simps myproc_run acquire_free woken1_def proc_section [where s = "touch s"])
qed

lemma wakeup_upto:
  assumes "cpu_inv s" and "n \<le> length (procs s)"
    and "\<And>i. i < n \<Longrightarrow> c_proc (cpus s (tp s)) \<noteq> Some i \<Longrightarrow> lock_free (ProcLock i) s"
  shows "forK [0..<n] (wakeup_visit c) s = Ok () ((if n = 0 then s else touch s)\<lparr>procs :=
    map (\<lambda>i. if i < n then woken1 (c_proc (cpus s (tp s))) c i (procs s ! i) else procs s ! i)
      [0..<length (procs s)]\<rparr>)"
  using assms
proof (induction n)
  case 0
  then show ?case by (simp add: map_nth)
next
  case (Suc n)
  let ?me = "c_proc (cpus s (tp s))"
  let ?P = "\<lambda>n. map (\<lambda>i. if i < n then woken1 ?me c i (procs s ! i) else procs s ! i) [0..<length (procs s)]"
  let ?u = "(if n = 0 then s else touch s)\<lparr>procs := ?P n\<rparr>"
  have u: "cpu_inv ?u" "c_proc (cpus ?u (tp ?u)) = ?me" "touch ?u = (touch s)\<lparr>procs := ?P n\<rparr>"
      "procs ?u ! n = procs s ! n"
    using Suc.prems by (auto simp: lock_commute)
  have "wakeup_visit c n ?u = Ok () ((touch ?u)\<lparr>procs := (?P n)[n := woken1 ?me c n (procs s ! n)]\<rparr>)"
    by (subst wakeup_visit_run) (use u Suc.prems(3) [of n] in auto)
  moreover have "(?P n)[n := woken1 ?me c n (procs s ! n)] = ?P (Suc n)"
    using Suc.prems(2) by (intro nth_equalityI) (auto simp: nth_list_update)
  moreover have "forK [0..<n] (wakeup_visit c) s = Ok () ?u" using Suc by simp
  ultimately show ?case unfolding upt_Suc_append [OF zero_le] forK_append by (simp add: kM_simps u(3))
qed

lemma wakeup_run:
  assumes "cpu_inv s" and "length (procs s) = NPROC"
    and "\<And>i. i < NPROC \<Longrightarrow> c_proc (cpus s (tp s)) \<noteq> Some i \<Longrightarrow> lock_free (ProcLock i) s"
  shows "wakeup c s = Ok () ((touch s)\<lparr>procs := woken (c_proc (cpus s (tp s))) c (procs s)\<rparr>)"
proof -
  have "map (\<lambda>i. if i < NPROC then woken1 (c_proc (cpus s (tp s))) c i (procs s ! i) else procs s ! i) [0..<length (procs s)]
      = woken (c_proc (cpus s (tp s))) c (procs s)"
    by (simp add: woken_def assms(2))
  then show ?thesis
    unfolding wakeup_def using wakeup_upto [of s NPROC c] assms by (simp add: NPROC_def)
qed

definition killproc :: "proc \<Rightarrow> proc" where
  "killproc p = (if p_state p = SLEEPING then p\<lparr>p_killed := True, p_state := RUNNABLE\<rparr> else p\<lparr>p_killed := True\<rparr>)"

lemma kill_loop_run:
  assumes "cpu_inv s" and "\<And>i. i \<in> set is \<Longrightarrow> lock_free (ProcLock i) s \<and> i < length (procs s)"
  shows "kill_loop pid is (touch s) = (case find (\<lambda>i. p_pid (procs s ! i) = pid) is of
     None \<Rightarrow> Ok (-1) (touch s)
   | Some i \<Rightarrow> Ok 0 ((touch s)\<lparr>procs := (procs s)[i := killproc (procs s ! i)]\<rparr>))"
  using assms(2)
proof (induction "is")
  case Nil
  show ?case by simp
next
  case (Cons i "is")
  have i: "lock_free (ProcLock i) (touch s)" "i < length (procs s)" using Cons.prems [of i] by auto
  have acq: "acquire (ProcLock i) (touch s) = Ok () (acq (ProcLock i) (touch s))"
    using i(1) by (rule acquire_free)
  note rel = proc_section [where s = "touch s", OF _ i(1)]
  from Cons acq rel assms(1) i(2) show ?case
    by (simp add: kM_simps killproc_def nth_list_update)
qed

lemma kill_run:
  assumes "cpu_inv s" and "length (procs s) = NPROC" and "\<And>i. i < NPROC \<Longrightarrow> lock_free (ProcLock i) s"
  shows "kill pid s = (case find (\<lambda>i. p_pid (procs s ! i) = pid) [0..<NPROC] of
     None \<Rightarrow> Ok (-1) (touch s)
   | Some i \<Rightarrow> Ok 0 ((touch s)\<lparr>procs := (procs s)[i := killproc (procs s ! i)]\<rparr>))"
proof -
  have "kill_loop pid [0..<NPROC] s = kill_loop pid [0..<NPROC] (touch s)"
  proof -
    have "[0..<NPROC] = 0 # [1..<NPROC]" by (simp add: NPROC_def upt_conv_Cons)
    moreover have "acquire (ProcLock 0) (touch s) = acquire (ProcLock 0) s"
      using assms(3) [of 0] by (simp add: NPROC_def acquire_free acq_touch)
    ultimately show ?thesis by (simp only: kill_loop.simps thenK_run)
  qed
  then show ?thesis
    unfolding kill_def using kill_loop_run [of s "[0..<NPROC]" pid] assms by simp
qed

lemma killed_run:
  assumes "cpu_inv s" and "lock_free (ProcLock p) s"
  shows "killed p s = Ok (p_killed (procs s ! p)) (touch s)"
  using assms by (simp add: killed_def kM_simps acquire_free proc_section)

lemma setkilled_run:
  assumes "cpu_inv s" and "lock_free (ProcLock p) s"
  shows "setkilled p s = Ok () ((touch s)\<lparr>procs := (procs s)[p := (procs s ! p)\<lparr>p_killed := True\<rparr>]\<rparr>)"
  using assms by (simp add: setkilled_def kM_simps acquire_free proc_section)

lemma allocpid_run:
  assumes "cpu_inv s" and "lock_free PidLock s"
  shows "allocpid s = Ok (nextpid s) ((touch s)\<lparr>nextpid := nextpid s + 1\<rparr>)"
proof -
  have "release PidLock ((acq PidLock s)\<lparr>nextpid := nextpid s + 1\<rparr>)
      = Ok () (rel PidLock ((acq PidLock s)\<lparr>nextpid := nextpid s + 1\<rparr>))"
    using assms(1) by (rule release_after) (simp add: hart_eq_def)
  with assms show ?thesis
    by (simp add: allocpid_def kM_simps acquire_free lock_commute rel_acq)
qed


section \<open>The harts schedule one table of processes\<close>

text \<open>
  Between two steps of the system below no lock is held. A hart without a current process runs
  \<^verbatim>\<open>scheduler\<close>: it visits a slot and either passes on or switches to the process it finds
  \<^verbatim>\<open>RUNNABLE\<close>, which releases its own lock (in \<^verbatim>\<open>yield\<close>, \<^verbatim>\<open>sleep\<close> or \<^verbatim>\<open>forkret\<close>). A hart with
  a current process runs it: the process may yield, sleep, wake or kill others; when it has switched
  to the scheduler, that clears \<^verbatim>\<open>c->proc\<close> and releases the process's lock.
\<close>

inductive sched_step :: "kstate \<Rightarrow> kstate \<Rightarrow> bool" where
  dispatches: "c_proc (cpus s h) = None \<Longrightarrow> i < NPROC \<Longrightarrow> scheduler_visit i (s\<lparr>tp := h\<rparr>) = Sched t k \<Longrightarrow>
     release (ProcLock i) t = Ok () u \<Longrightarrow> sched_step s u"
| passes: "c_proc (cpus s h) = None \<Longrightarrow> i < NPROC \<Longrightarrow> scheduler_visit i (s\<lparr>tp := h\<rparr>) = Ok () u \<Longrightarrow> sched_step s u"
| yields: "c_proc (cpus s h) = Some i \<Longrightarrow> yield (s\<lparr>tp := h\<rparr>) = Sched t k \<Longrightarrow>
     scheduler_tail i t = Ok () u \<Longrightarrow> sched_step s u"
| sleeps: "c_proc (cpus s h) = Some i \<Longrightarrow> thenK (acquire lk) (sleep c lk) (s\<lparr>tp := h\<rparr>) = Sched t k \<Longrightarrow>
     scheduler_tail i t = Ok () u \<Longrightarrow> sched_step s u"
| wakes: "wakeup c (s\<lparr>tp := h\<rparr>) = Ok () u \<Longrightarrow> sched_step s u"
| kills: "kill pid (s\<lparr>tp := h\<rparr>) = Ok r u \<Longrightarrow> sched_step s u"

definition quiet :: "'a kstate_scheme \<Rightarrow> bool" where
  "quiet s \<longleftrightarrow> (\<forall>l. lock_free l s) \<and> (\<forall>h. c_noff (cpus s h) = 0)"

definition sched_init :: "'a kstate_scheme \<Rightarrow> bool" where
  "sched_init s \<longleftrightarrow> quiet s \<and> length (procs s) = NPROC \<and> (\<forall>h. c_proc (cpus s h) = None) \<and>
     (\<forall>i < NPROC. p_state (procs s ! i) \<noteq> RUNNING)"

definition sched_inv :: "'a kstate_scheme \<Rightarrow> bool" where
  "sched_inv s \<longleftrightarrow> quiet s \<and> length (procs s) = NPROC \<and>
     (\<forall>h i. c_proc (cpus s h) = Some i \<longrightarrow> i < NPROC \<and> p_state (procs s ! i) = RUNNING) \<and>
     (\<forall>h g i. c_proc (cpus s h) = Some i \<longrightarrow> c_proc (cpus s g) = Some i \<longrightarrow> h = g) \<and>
     (\<forall>i < NPROC. p_state (procs s ! i) = RUNNING \<longrightarrow> (\<exists>h. c_proc (cpus s h) = Some i))"

lemma quiet_cpu_inv: "quiet s \<Longrightarrow> cpu_inv (s\<lparr>tp := h\<rparr>)"
  by (simp add: quiet_def cpu_inv_def)

lemma quiet_free: "quiet s \<Longrightarrow> lock_free l (s\<lparr>tp := h\<rparr>)"
  by (simp add: quiet_def lock_free_def)

lemma quiet_noff: "quiet s \<Longrightarrow> c_noff (cpus s h) = 0"
  by (simp add: quiet_def)

text \<open>
  What a step leaves: the locks free, \<open>noff\<close> back at 0, \<open>c_proc\<close> and the process states changed
  as \<open>cp\<close> and \<open>st\<close> say.
\<close>

definition step_effect :: "'a kstate_scheme \<Rightarrow> (nat \<Rightarrow> nat option) \<Rightarrow> (nat \<Rightarrow> procstate) \<Rightarrow> 'a kstate_scheme \<Rightarrow> bool" where
  "step_effect s cp st u \<longleftrightarrow> quiet u \<and> length (procs u) = length (procs s) \<and>
     (\<forall>h. c_proc (cpus u h) = cp h) \<and> (\<forall>i < length (procs s). p_state (procs u ! i) = st i)"

lemma switched_frame [simp]:
  "tp (switched p s) = tp s" "cpus (switched p s) = cpus s" "locks (switched p s) = locks s"
  "sstatus (switched p s) = sstatus s" "length (procs (switched p s)) = length (procs s)"
  "mem (switched p s) = mem s"
  by (simp_all add: switched_def)

lemma switched_state [simp]: "p_state (procs (switched p s) ! i) = p_state (procs s ! i)"
  "p_chan (procs (switched p s) ! i) = p_chan (procs s ! i)"
  by (cases "p < length (procs s)", auto simp: switched_def nth_list_update list_update_beyond)+

text \<open>The state just before a process's lock, the only one held, is released.\<close>

definition handover :: "nat \<Rightarrow> 'a kstate_scheme \<Rightarrow> bool" where
  "handover i t \<longleftrightarrow> held (ProcLock i) t \<and> \<not> sie t \<and> (\<forall>l. l \<noteq> ProcLock i \<longrightarrow> lock_free l t) \<and>
     (\<forall>h. c_noff (cpus t h) = (if h = tp t then 1 else 0))"

lemma handover_release:
  assumes "handover i t"
  shows "\<exists>u. release (ProcLock i) t = Ok () u \<and> quiet u \<and> procs u = procs t \<and>
    (\<forall>h. c_proc (cpus u h) = c_proc (cpus t h))"
proof -
  have "release (ProcLock i) t = Ok () (rel (ProcLock i) t)"
    using assms by (simp add: release_run handover_def)
  with assms show ?thesis by (auto simp: handover_def quiet_def)
qed

lemma handover_tail:
  assumes "handover i t"
  shows "\<exists>u. scheduler_tail i t = Ok () u \<and> quiet u \<and> procs u = procs t \<and>
    (\<forall>h. c_proc (cpus u h) = (if h = tp t then None else c_proc (cpus t h)))"
proof -
  let ?t = "t\<lparr>cpus := (cpus t)(tp t := (cpus t (tp t))\<lparr>c_proc := None\<rparr>)\<rparr>"
  have "handover i ?t" using assms by (simp add: handover_def held_def sie_def lock_free_def)
  from handover_release [OF this] show ?thesis
    by (auto simp: scheduler_tail_def kM_simps modify_cpu_def)
qed

lemma handover_switched [simp]: "handover i (switched p s) = handover i s"
  by (simp add: handover_def held_def sie_def lock_free_def)

lemma handover_procs [simp]: "handover i (s\<lparr>procs := ps\<rparr>) = handover i s"
  by (simp add: handover_def held_def sie_def lock_free_def)

lemma handover_acq: "quiet s \<Longrightarrow> handover i (acq (ProcLock i) (s\<lparr>tp := h\<rparr>))"
  by (auto simp: handover_def quiet_def acq_noff lock_free_def acq_locks)

lemma handover_asleep:
  assumes "quiet s" and "lk \<noteq> ProcLock i"
  shows "handover i (asleep i c lk (acq lk (s\<lparr>tp := h\<rparr>)))"
proof -
  let ?a = "acq (ProcLock i) (acq lk (s\<lparr>tp := h\<rparr>))"
  have "c_noff (cpus ?a h) = 2" using assms(1) by (simp add: acq_noff quiet_def)
  moreover have "\<not> sie ?a" by simp
  ultimately have "\<not> sie (rel lk ?a)" by (simp add: rel_def popped_def Let_def sie_def)
  then show ?thesis
    using assms by (auto simp: handover_def asleep_def held_def rel_locks acq_locks acq_noff quiet_def lock_free_def sie_def)
qed

lemma yield_effect:
  assumes "quiet s" "c_proc (cpus s h) = Some i" "i < length (procs s)"
  shows "\<exists>t k u. yield (s\<lparr>tp := h\<rparr>) = Sched t k \<and> scheduler_tail i t = Ok () u \<and>
    step_effect s ((\<lambda>g. c_proc (cpus s g))(h := None)) ((\<lambda>j. p_state (procs s ! j))(i := RUNNABLE)) u"
proof -
  let ?s = "s\<lparr>tp := h\<rparr>"
  let ?t = "switched i ((acq (ProcLock i) ?s)\<lparr>procs := (procs s)[i := (procs s ! i)\<lparr>p_state := RUNNABLE\<rparr>]\<rparr>)"
  obtain k where y: "yield ?s = Sched ?t k"
    using yield_run [of ?s i] assms by (auto simp: quiet_cpu_inv quiet_free quiet_noff)
  have "handover i ?t" using assms(1) by (simp add: handover_acq)
  then obtain u where u: "scheduler_tail i ?t = Ok () u" "quiet u" "procs u = procs ?t"
      "\<forall>g. c_proc (cpus u g) = (if g = tp ?t then None else c_proc (cpus ?t g))"
    using handover_tail by blast
  then have "step_effect s ((\<lambda>g. c_proc (cpus s g))(h := None)) ((\<lambda>j. p_state (procs s ! j))(i := RUNNABLE)) u"
    using assms(3) by (simp add: step_effect_def nth_list_update)
  with y u(1) show ?thesis by blast
qed

lemma sleep_effect:
  assumes "quiet s" "c_proc (cpus s h) = Some i" "i < length (procs s)" "lk \<noteq> ProcLock i"
  shows "\<exists>t k u. thenK (acquire lk) (sleep c lk) (s\<lparr>tp := h\<rparr>) = Sched t k \<and> scheduler_tail i t = Ok () u \<and>
    step_effect s ((\<lambda>g. c_proc (cpus s g))(h := None)) ((\<lambda>j. p_state (procs s ! j))(i := SLEEPING)) u \<and>
    p_chan (procs u ! i) = c \<and> handover i t \<and> lock_free lk t \<and> p_state (procs t ! i) = SLEEPING \<and>
    tp t = h \<and> (\<forall>g. c_proc (cpus t g) = c_proc (cpus s g))"
proof -
  let ?s = "acq lk (s\<lparr>tp := h\<rparr>)"
  let ?t = "switched i (asleep i c lk ?s)"
  have n1: "c_noff (cpus ?s h) = 1" using assms(1) by (simp add: acq_noff quiet_def)
  have lkf: "lock_free (ProcLock i) ?s" using assms(1,4) by (simp add: quiet_free)
  obtain k where "sleep c lk ?s = Sched ?t k"
    using sleep_run [of ?s i lk c] assms n1 lkf by (auto simp: quiet_cpu_inv lock_free_def)
  moreover have "acquire lk (s\<lparr>tp := h\<rparr>) = Ok () ?s" using assms(1) by (simp add: acquire_free quiet_free)
  ultimately have r: "thenK (acquire lk) (sleep c lk) (s\<lparr>tp := h\<rparr>) = Sched ?t k" by (simp add: kM_simps)
  have ho: "handover i ?t" using assms(1,4) by (simp add: handover_asleep)
  then obtain u where u: "scheduler_tail i ?t = Ok () u" "quiet u" "procs u = procs ?t"
      "\<forall>g. c_proc (cpus u g) = (if g = tp ?t then None else c_proc (cpus ?t g))"
    using handover_tail by blast
  have st: "p_state (procs ?t ! j) = (if j = i then SLEEPING else p_state (procs s ! j))"
      "p_chan (procs ?t ! i) = c" "c_proc (cpus ?t g) = c_proc (cpus s g)" "tp ?t = h"
      "length (procs ?t) = length (procs s)" for j g
    using assms(3) by (simp_all add: asleep_def nth_list_update)
  have "step_effect s ((\<lambda>g. c_proc (cpus s g))(h := None)) ((\<lambda>j. p_state (procs s ! j))(i := SLEEPING)) u"
    unfolding step_effect_def u(3) st u(4) [rule_format] using u(2) by simp
  moreover have "lock_free lk ?t" using ho assms(4) unfolding handover_def by blast
  moreover have "p_chan (procs u ! i) = c" unfolding u(3) by (rule st(2))
  moreover have "p_state (procs ?t ! i) = SLEEPING" unfolding st(1) by simp
  moreover have "tp ?t = h" "\<forall>g. c_proc (cpus ?t g) = c_proc (cpus s g)" using st(3,4) by simp_all
  ultimately show ?thesis using r u(1) ho by blast
qed

lemma visit_effect:
  assumes "quiet s" "i < length (procs s)"
  shows "if p_state (procs s ! i) = RUNNABLE then
      \<exists>t k u. scheduler_visit i (s\<lparr>tp := h\<rparr>) = Sched t k \<and> release (ProcLock i) t = Ok () u \<and>
        step_effect s ((\<lambda>g. c_proc (cpus s g))(h := Some i)) ((\<lambda>j. p_state (procs s ! j))(i := RUNNING)) u
    else \<exists>u. scheduler_visit i (s\<lparr>tp := h\<rparr>) = Ok () u \<and>
        step_effect s (\<lambda>g. c_proc (cpus s g)) (\<lambda>j. p_state (procs s ! j)) u"
proof -
  let ?a = "acq (ProcLock i) (s\<lparr>tp := h\<rparr>)"
  let ?b = "?a\<lparr>procs := (procs s)[i := (procs s ! i)\<lparr>p_state := RUNNING\<rparr>],
     cpus := (cpus ?a)(h := (cpus ?a h)\<lparr>c_proc := Some i, c_context := regs s\<rparr>),
     regs := p_context (procs s ! i)\<rparr>"
  have a: "acquire (ProcLock i) (s\<lparr>tp := h\<rparr>) = Ok () ?a" using assms(1) by (simp add: acquire_free quiet_free)
  have ho: "handover i ?a" using assms(1) by (rule handover_acq)
  then have "handover i ?b" by (simp add: handover_def held_def sie_def lock_free_def)
  from handover_release [OF this] obtain u where u: "release (ProcLock i) ?b = Ok () u" "quiet u" "procs u = procs ?b"
      "\<forall>g. c_proc (cpus u g) = c_proc (cpus ?b g)" by blast
  have e1: "step_effect s ((\<lambda>g. c_proc (cpus s g))(h := Some i)) ((\<lambda>j. p_state (procs s ! j))(i := RUNNING)) u"
    using u assms(2) by (simp add: step_effect_def nth_list_update)
  have v1: "\<exists>k. scheduler_visit i (s\<lparr>tp := h\<rparr>) = Sched ?b k" if "p_state (procs s ! i) = RUNNABLE"
    using that a assms(2)
    by (simp add: scheduler_visit_def kM_simps modify_cpu_def cpuid_def swtch_def nth_list_update)
  obtain w where w: "release (ProcLock i) ?a = Ok () w" "quiet w" "procs w = procs s"
      "\<forall>g. c_proc (cpus w g) = c_proc (cpus s g)" using handover_release [OF ho] by auto
  then have "step_effect s (\<lambda>g. c_proc (cpus s g)) (\<lambda>j. p_state (procs s ! j)) w"
    by (simp add: step_effect_def)
  moreover have "scheduler_visit i (s\<lparr>tp := h\<rparr>) = Ok () w" if "p_state (procs s ! i) \<noteq> RUNNABLE"
    using that a w(1) by (simp add: scheduler_visit_def kM_simps)
  ultimately have "p_state (procs s ! i) \<noteq> RUNNABLE \<Longrightarrow> \<exists>u. scheduler_visit i (s\<lparr>tp := h\<rparr>) = Ok () u \<and>
        step_effect s (\<lambda>g. c_proc (cpus s g)) (\<lambda>j. p_state (procs s ! j)) u" by blast
  moreover have "p_state (procs s ! i) = RUNNABLE \<Longrightarrow>
      \<exists>t k u. scheduler_visit i (s\<lparr>tp := h\<rparr>) = Sched t k \<and> release (ProcLock i) t = Ok () u \<and>
        step_effect s ((\<lambda>g. c_proc (cpus s g))(h := Some i)) ((\<lambda>j. p_state (procs s ! j))(i := RUNNING)) u"
    using v1 u(1) e1 by blast
  ultimately show ?thesis by presburger
qed


lemma wakeup_effect:
  assumes "quiet s" "length (procs s) = NPROC"
  shows "wakeup c (s\<lparr>tp := h\<rparr>) = Ok () ((touch (s\<lparr>tp := h\<rparr>))\<lparr>procs := woken (c_proc (cpus s h)) c (procs s)\<rparr>)"
  using wakeup_run [of "s\<lparr>tp := h\<rparr>" c] assms by (simp add: quiet_cpu_inv quiet_free)

lemma wakeup_visit_spins:
  assumes "handover i t" and "g \<noteq> tp t" and "c_proc (cpus t g) \<noteq> Some i"
  shows "wakeup_visit c i (t\<lparr>tp := g\<rparr>) = Spin"
proof -
  let ?t = "t\<lparr>tp := g\<rparr>"
  have "cpu_inv ?t" using assms by (simp add: handover_def cpu_inv_def)
  moreover have "acquire (ProcLock i) (touch ?t) = Spin"
    using assms by (simp add: acquire_run) (simp add: handover_def held_def)
  ultimately show ?thesis using assms(3) by (simp add: wakeup_visit_def kM_simps myproc_run)
qed

lemma quiet_touch [simp]: "quiet ((touch (s\<lparr>tp := h\<rparr>))\<lparr>procs := ps\<rparr>) = quiet s"
  by (simp add: quiet_def) (simp add: lock_free_def)

lemma step_effect_inv:
  assumes "step_effect s cp st u" and "length (procs s) = NPROC"
    and "\<And>h i. cp h = Some i \<Longrightarrow> i < NPROC \<and> st i = RUNNING"
    and "\<And>h g i. cp h = Some i \<Longrightarrow> cp g = Some i \<Longrightarrow> h = g"
    and "\<And>i. i < NPROC \<Longrightarrow> st i = RUNNING \<Longrightarrow> \<exists>h. cp h = Some i"
  shows "sched_inv u"
  using assms unfolding step_effect_def sched_inv_def by metis

lemma table_change_inv:
  assumes "sched_inv s" and "length ps = NPROC"
    and "\<And>i. i < NPROC \<Longrightarrow> p_state (ps ! i) = RUNNING \<longleftrightarrow> p_state (procs s ! i) = RUNNING"
  shows "sched_inv ((touch (s\<lparr>tp := h\<rparr>))\<lparr>procs := ps\<rparr>)"
  using assms unfolding sched_inv_def by (auto simp: )

lemma sched_inv_step: "sched_step s u \<Longrightarrow> sched_inv s \<Longrightarrow> sched_inv u"
proof (induction rule: sched_step.induct)
  case (dispatches s h i t k u)
  then have st: "p_state (procs s ! i) = RUNNABLE" and eff: "step_effect s ((\<lambda>g. c_proc (cpus s g))(h := Some i))
      ((\<lambda>j. p_state (procs s ! j))(i := RUNNING)) u"
    using visit_effect [of s i h] by (auto simp: sched_inv_def split: if_splits)
  have nocur: "c_proc (cpus s g) \<noteq> Some i" for g using dispatches.prems st by (auto simp: sched_inv_def)
  show ?case
    by (rule step_effect_inv [OF eff])
      (use dispatches nocur in \<open>(auto simp: sched_inv_def split: if_splits, metis option.distinct(1))\<close>)
next
  case (passes s h i u)
  then have eff: "step_effect s (\<lambda>g. c_proc (cpus s g)) (\<lambda>j. p_state (procs s ! j)) u"
    using visit_effect [of s i h] by (auto simp: sched_inv_def split: if_splits)
  show ?case by (rule step_effect_inv [OF eff]) (use passes in \<open>auto simp: sched_inv_def\<close>)
next
  case (yields s h i t k u)
  then have eff: "step_effect s ((\<lambda>g. c_proc (cpus s g))(h := None)) ((\<lambda>j. p_state (procs s ! j))(i := RUNNABLE)) u"
    using yield_effect [of s h i] by (auto simp: sched_inv_def)
  show ?case
    by (rule step_effect_inv [OF eff]) (use yields in \<open>(auto simp: sched_inv_def split: if_splits, metis option.inject)\<close>)
next
  case (sleeps s h i lk c t k u)
  have "lk \<noteq> ProcLock i"
  proof
    assume lk: "lk = ProcLock i"
    let ?a = "acq lk (s\<lparr>tp := h\<rparr>)"
    have "acquire lk (s\<lparr>tp := h\<rparr>) = Ok () ?a" using sleeps.prems by (simp add: sched_inv_def acquire_free quiet_free)
    moreover have "sleep c lk ?a = Panic ''acquire''"
      using sleeps lk by (simp add: sleep_def kM_simps curproc_run sched_inv_def quiet_cpu_inv acquire_run)
    ultimately show False using sleeps.hyps(2) by (simp add: kM_simps)
  qed
  then have eff: "step_effect s ((\<lambda>g. c_proc (cpus s g))(h := None)) ((\<lambda>j. p_state (procs s ! j))(i := SLEEPING)) u"
    using sleep_effect [of s h i lk c] sleeps by (auto simp: sched_inv_def)
  show ?case
    by (rule step_effect_inv [OF eff]) (use sleeps in \<open>(auto simp: sched_inv_def split: if_splits, metis option.inject)\<close>)
next
  case (wakes c h s u)
  then have u: "u = (touch (s\<lparr>tp := h\<rparr>))\<lparr>procs := woken (c_proc (cpus s h)) c (procs s)\<rparr>"
    using wakeup_effect [of s c h] by (auto simp: sched_inv_def)
  show ?case unfolding u
    by (rule table_change_inv [OF wakes.prems]) (use wakes.prems in \<open>auto simp: sched_inv_def woken1_def\<close>)
next
  case (kills pid h s r u)
  from kills.prems have n: "length (procs s) = NPROC" by (simp add: sched_inv_def)
  have run: "kill pid (s\<lparr>tp := h\<rparr>) = (case find (\<lambda>i. p_pid (procs s ! i) = pid) [0..<NPROC] of
     None \<Rightarrow> Ok (-1) (touch (s\<lparr>tp := h\<rparr>))
   | Some i \<Rightarrow> Ok 0 ((touch (s\<lparr>tp := h\<rparr>))\<lparr>procs := (procs s)[i := killproc (procs s ! i)]\<rparr>))"
    using kill_run [of "s\<lparr>tp := h\<rparr>" pid] kills.prems n
    by (simp add: sched_inv_def quiet_cpu_inv quiet_free cong: option.case_cong)
  have "\<exists>ps. u = (touch (s\<lparr>tp := h\<rparr>))\<lparr>procs := ps\<rparr> \<and> length ps = NPROC \<and>
      (\<forall>i < NPROC. p_state (ps ! i) = RUNNING \<longleftrightarrow> p_state (procs s ! i) = RUNNING)"
  proof (cases "find (\<lambda>i. p_pid (procs s ! i) = pid) [0..<NPROC]")
    case None
    with run kills.hyps have "u = (touch (s\<lparr>tp := h\<rparr>))\<lparr>procs := procs s\<rparr>"
      using procs_triv(2) [of "s\<lparr>tp := h\<rparr>"] by simp
    with n show ?thesis by blast
  next
    case (Some i)
    with run kills.hyps have "u = (touch (s\<lparr>tp := h\<rparr>))\<lparr>procs := (procs s)[i := killproc (procs s ! i)]\<rparr>"
      by simp
    moreover have "i < NPROC" using Some by (auto simp: find_Some_iff)
    ultimately show ?thesis
      using n by (intro exI [of _ "(procs s)[i := killproc (procs s ! i)]"]) (auto simp: nth_list_update killproc_def)
  qed
  then show ?case using table_change_inv [OF kills.prems] by blast
qed


text \<open>A machine with one runnable process, for the examples.\<close>

definition vma0 :: vma where
  "vma0 = \<lparr>v_valid = False, v_addr = 0, v_len = 0, v_prot = 0, v_flags = 0, v_off = 0, v_f = None, v_refcnt = 0\<rparr>"

definition proc0 :: proc where
  "proc0 = \<lparr>p_state = UNUSED, p_chan = NoChan, p_killed = False, p_xstate = 0, p_pid = 0, p_parent = None,
     p_kstack = 0, p_sz = 0, p_pagetable = 0, p_trapframe = 0, p_context = ctx0,
     p_ofile = replicate NOFILE None, p_cwd = None, p_name = replicate 16 0,
     p_vma_array = replicate VMA_MAX vma0, p_vma_top_addr = 0\<rparr>"

definition ks0 :: kstate where
  "ks0 = k0\<lparr>procs := (replicate NPROC proc0)[0 := proc0\<lparr>p_state := RUNNABLE, p_pid := 1\<rparr>]\<rparr>"

lemma ks0_init: "sched_init ks0"
  by (auto simp: sched_init_def quiet_def ks0_def k0_def lock_free_def nth_list_update NPROC_def proc0_def)

lemma ks0_dispatch: "\<exists>u. sched_step ks0 u \<and> c_proc (cpus u 0) = Some 0"
proof -
  have q: "quiet ks0" "0 < length (procs ks0)" "p_state (procs ks0 ! 0) = RUNNABLE" "c_proc (cpus ks0 0) = None"
    using ks0_init by (auto simp: sched_init_def ks0_def NPROC_def)
  then obtain t k u where "scheduler_visit 0 (ks0\<lparr>tp := 0\<rparr>) = Sched t k" "release (ProcLock 0) t = Ok () u"
      "step_effect ks0 ((\<lambda>g. c_proc (cpus ks0 g))(0 := Some 0)) ((\<lambda>j. p_state (procs ks0 ! j))(0 := RUNNING)) u"
    using visit_effect [of ks0 0 0] by auto
  then have "sched_step ks0 u" "c_proc (cpus u 0) = Some 0"
    using sched_step.dispatches [OF q(4), of 0 t k u] by (auto simp: step_effect_def NPROC_def)
  then show ?thesis by blast
qed





end
