(* ===== verification/Sleeplock.thy ===== *)
theory Sleeplock
  imports Procsched
begin

text \<open>
  \<^verbatim>\<open>kernel/sleeplock.c\<close>. A sleep lock is a word guarded by a spinlock; waiters sleep on the lock's
  address. The waiting loop is written with the bound \<open>fuel\<close> on the number of times a waiter finds the
  lock taken again; every statement holds for all bounds.
\<close>

definition initsleeplock :: "sleepid \<Rightarrow> string \<Rightarrow> ('a kstate_scheme, unit) kM" where
  "initsleeplock lk nm =
     thenK (initlock (SleepLk lk) ''sleep lock'') (
     modifyK (\<lambda>s. s\<lparr>sleeplocks := (sleeplocks s)(lk := \<lparr>sl_locked = False, sl_name = nm, sl_pid = 0\<rparr>)\<rparr>))"

fun acquiresleep_wait :: "sleepid \<Rightarrow> nat \<Rightarrow> ('a kstate_scheme, unit) kM" where
  "acquiresleep_wait lk 0 = spinK"
| "acquiresleep_wait lk (Suc n) =
     bindK (getsK (\<lambda>s. sl_locked (sleeplocks s lk))) (\<lambda>busy.
     if busy then thenK (sleep (ChanSleep lk) (SleepLk lk)) (acquiresleep_wait lk n) else returnK ())"

definition mypid :: "('a kstate_scheme, i32) kM" where
  "mypid = bindK curproc (\<lambda>p. getsK (\<lambda>s. p_pid (procs s ! p)))"

definition acquiresleep :: "sleepid \<Rightarrow> ('a kstate_scheme, unit) kM" where
  "acquiresleep lk =
     thenK (acquire (SleepLk lk)) (
     thenK (bindK (getsK fuel) (\<lambda>n. acquiresleep_wait lk (Suc n))) (
     thenK (modifyK (\<lambda>s. s\<lparr>sleeplocks := (sleeplocks s)(lk := (sleeplocks s lk)\<lparr>sl_locked := True\<rparr>)\<rparr>)) (
     bindK mypid (\<lambda>pid.
     thenK (modifyK (\<lambda>s. s\<lparr>sleeplocks := (sleeplocks s)(lk := (sleeplocks s lk)\<lparr>sl_pid := pid\<rparr>)\<rparr>)) (
     release (SleepLk lk))))))"

definition releasesleep :: "sleepid \<Rightarrow> ('a kstate_scheme, unit) kM" where
  "releasesleep lk =
     thenK (acquire (SleepLk lk)) (
     thenK (modifyK (\<lambda>s. s\<lparr>sleeplocks := (sleeplocks s)(lk := (sleeplocks s lk)\<lparr>sl_locked := False\<rparr>)\<rparr>)) (
     thenK (modifyK (\<lambda>s. s\<lparr>sleeplocks := (sleeplocks s)(lk := (sleeplocks s lk)\<lparr>sl_pid := 0\<rparr>)\<rparr>)) (
     thenK (wakeup (ChanSleep lk)) (
     release (SleepLk lk)))))"

definition holdingsleep :: "sleepid \<Rightarrow> ('a kstate_scheme, bool) kM" where
  "holdingsleep lk =
     thenK (acquire (SleepLk lk)) (
     bindK (getsK (\<lambda>s. sleeplocks s lk)) (\<lambda>l.
     bindK (if sl_locked l then bindK mypid (\<lambda>pid. returnK (sl_pid l = pid)) else returnK False) (\<lambda>r.
     thenK (release (SleepLk lk)) (
     returnK r))))"

section \<open>Uncontended use\<close>

text \<open>
  The state a process sees between system-call steps: no spinlock is held, and process \<open>p\<close>, an entry
  of the table, is current.
\<close>

definition proc_ctx :: "nat \<Rightarrow> 'a kstate_scheme \<Rightarrow> bool" where
  "proc_ctx p s \<longleftrightarrow> cpu_inv s \<and> (\<forall>l. lock_free l s) \<and> c_proc (cpus s (tp s)) = Some p \<and>
     c_noff (cpus s (tp s)) = 0 \<and> length (procs s) = NPROC \<and> p < NPROC"

lemma proc_ctx_touch [simp]: "proc_ctx p (touch s) = proc_ctx p s"
  by (simp add: proc_ctx_def)

lemma proc_ctx_upd [simp]:
  "proc_ctx p (s\<lparr>sleeplocks := sl\<rparr>) = proc_ctx p s" "proc_ctx p (s\<lparr>mem := m\<rparr>) = proc_ctx p s"
  "proc_ctx p (s\<lparr>regs := r\<rparr>) = proc_ctx p s" "proc_ctx p (s\<lparr>ticks := k\<rparr>) = proc_ctx p s"
  "length ps = length (procs s) \<Longrightarrow> proc_ctx p (s\<lparr>procs := ps\<rparr>) = proc_ctx p s"
  by (simp_all add: proc_ctx_def)

lemma proc_ctxD:
  assumes "proc_ctx p s"
  shows "cpu_inv s" "lock_free l s" "c_proc (cpus s (tp s)) = Some p" "length (procs s) = NPROC" "p < NPROC"
    "c_noff (cpus s (tp s)) = 0"
  using assms by (auto simp: proc_ctx_def)

lemma touch_acq [simp]: "cpu_inv s \<Longrightarrow> touch (acq lk s) = acq lk s"
  by (rule touch_id) (auto simp: cpu_inv_def acq_noff)

lemma mypid_acq:
  "cpu_inv s \<Longrightarrow> c_proc (cpus s (tp s)) = Some p \<Longrightarrow> mypid (acq lk s) = Ok (p_pid (procs s ! p)) (acq lk s)"
  by (simp add: mypid_def kM_simps curproc_run)

lemma sl_section:
  assumes "cpu_inv s" and "lock_free lk s"
  shows "release lk ((acq lk s)\<lparr>sleeplocks := sl\<rparr>) = Ok () ((touch s)\<lparr>sleeplocks := sl\<rparr>)"
    and "release lk (acq lk s) = Ok () (touch s)"
proof -
  have "release lk ((acq lk s)\<lparr>sleeplocks := sl\<rparr>) = Ok () (rel lk ((acq lk s)\<lparr>sleeplocks := sl\<rparr>))"
    using assms(1) by (rule release_after) (simp add: hart_eq_def)
  then show "release lk ((acq lk s)\<lparr>sleeplocks := sl\<rparr>) = Ok () ((touch s)\<lparr>sleeplocks := sl\<rparr>)"
    using assms by (simp add: lock_commute rel_acq)
  have "release lk (acq lk s) = Ok () (rel lk (acq lk s))"
    using assms(1) by (rule release_after) (simp add: hart_eq_def)
  then show "release lk (acq lk s) = Ok () (touch s)"
    using assms by (simp add: rel_acq)
qed

lemma mypid_acq_sl:
  assumes "cpu_inv s" and "c_proc (cpus s (tp s)) = Some p"
  shows "mypid ((acq lk s)\<lparr>sleeplocks := sl\<rparr>) = Ok (p_pid (procs s ! p)) ((acq lk s)\<lparr>sleeplocks := sl\<rparr>)"
  using mypid_acq [of "s\<lparr>sleeplocks := sl\<rparr>" p lk] assms by (simp add: lock_commute)

lemma acquiresleep_free:
  assumes "proc_ctx p s" and "\<not> sl_locked (sleeplocks s lk)"
  shows "acquiresleep lk s = Ok () ((touch s)\<lparr>sleeplocks := (sleeplocks s)(lk :=
     (sleeplocks s lk)\<lparr>sl_locked := True, sl_pid := p_pid (procs s ! p)\<rparr>)\<rparr>)"
  using proc_ctxD [OF assms(1)] assms(2)
  by (simp add: acquiresleep_def kM_simps acquire_free sl_section mypid_acq_sl)

lemma holdingsleep_run:
  assumes "proc_ctx p s"
  shows "holdingsleep lk s
    = Ok (sl_locked (sleeplocks s lk) \<and> sl_pid (sleeplocks s lk) = p_pid (procs s ! p)) (touch s)"
  using proc_ctxD [OF assms]
  by (simp add: holdingsleep_def kM_simps acquire_free sl_section mypid_acq)

lemma releasesleep_run:
  assumes "proc_ctx p s"
  shows "releasesleep lk s = Ok () ((touch s)\<lparr>sleeplocks := (sleeplocks s)(lk :=
     (sleeplocks s lk)\<lparr>sl_locked := False, sl_pid := 0\<rparr>), procs := woken (Some p) (ChanSleep lk) (procs s)\<rparr>)"
proof -
  note d = proc_ctxD [OF assms]
  let ?sl = "(sleeplocks s)(lk := (sleeplocks s lk)\<lparr>sl_locked := False, sl_pid := 0\<rparr>)"
  let ?t = "(acq (SleepLk lk) s)\<lparr>sleeplocks := ?sl\<rparr>"
  have "touch ?t = ?t" using d(1) by (simp add: lock_commute)
  then have w: "wakeup (ChanSleep lk) ?t = Ok () (?t\<lparr>procs := woken (Some p) (ChanSleep lk) (procs s)\<rparr>)"
    using wakeup_run [of ?t "ChanSleep lk"] d by simp
  have "release (SleepLk lk) (?t\<lparr>procs := ps\<rparr>) = Ok () (rel (SleepLk lk) (?t\<lparr>procs := ps\<rparr>))" for ps
    using d(1) by (rule release_after) (simp add: hart_eq_def)
  with w d show ?thesis
    by (simp add: releasesleep_def kM_simps acquire_free lock_commute rel_acq)
qed

text \<open>Waking and releasing inside of a critical section whose body leaves the hart alone.\<close>

lemma section_release:
  "proc_ctx p s \<Longrightarrow> hart_eq (acq lk s) u \<Longrightarrow> release lk u = Ok () (rel lk u)"
  using release_after [of s lk u] by (simp add: proc_ctx_def)

lemma section_wakeup:
  assumes "proc_ctx p s" and "\<And>i. lk \<noteq> ProcLock i" and "hart_eq (acq lk s) u" and "length (procs u) = NPROC"
  shows "wakeup c u = Ok () (u\<lparr>procs := woken (Some p) c (procs u)\<rparr>)"
proof -
  note d = proc_ctxD [OF assms(1)]
  have "cpu_inv (acq lk s)" using d(1) by simp
  then have "cpu_inv u" using assms(3) by (simp add: hart_eq_def cpu_inv_def sie_def)
  moreover have "touch u = u" using assms(3) d(6) by (intro touch_id) (simp add: hart_eq_def acq_noff)
  moreover have "lock_free (ProcLock i) u" for i
    using assms(3) d(2) [of "ProcLock i"] assms(2) [of i, symmetric] by (simp add: hart_eq_def lock_free_def acq_locks)
  moreover have "c_proc (cpus u (tp u)) = Some p" using assms(3) d(3) by (simp add: hart_eq_def)
  ultimately show ?thesis using wakeup_run [of u c] assms(4) by simp
qed

section \<open>Contention\<close>

lemma acquiresleep_blocks:
  assumes "proc_ctx p s" and "sl_locked (sleeplocks s lk)"
  shows "\<exists>t k. acquiresleep lk s = Sched t k \<and> p_state (procs t ! p) = SLEEPING \<and>
    p_chan (procs t ! p) = ChanSleep lk \<and> lock_free (SleepLk lk) t"
proof -
  note d = proc_ctxD [OF assms(1)]
  let ?a = "acq (SleepLk lk) s"
  obtain k where "sleep (ChanSleep lk) (SleepLk lk) ?a = Sched (switched p (asleep p (ChanSleep lk) (SleepLk lk) ?a)) k"
    using sleep_run [of ?a p "SleepLk lk" "ChanSleep lk"] d(1) d(2) [of "ProcLock p"] d(3-6)
    by (auto simp: acq_noff acq_locks lock_free_def)
  moreover have "lock_free (SleepLk lk) (switched p (asleep p (ChanSleep lk) (SleepLk lk) ?a))"
    by (simp add: asleep_def lock_free_def rel_locks)
  ultimately show ?thesis
    using assms(2) d by (auto simp: acquiresleep_def kM_simps acquire_free asleep_def)
qed

lemma crit_touch: "crit lk p s \<Longrightarrow> touch s = s"
  by (simp add: crit_def touch_id)

lemma crit_sl [simp]: "crit lk p (s\<lparr>sleeplocks := sl\<rparr>) = crit lk p s"
  by (simp add: crit_def held_def)

lemma crit_mypid: "crit lk p s \<Longrightarrow> mypid s = Ok (p_pid (procs s ! p)) s"
  using crit_touch [of lk p s] by (simp add: mypid_def kM_simps curproc_run crit_def)

lemma crit_release: "crit lk p s \<Longrightarrow> release lk s = Ok () (rel lk s)"
  by (simp add: crit_def release_run cpu_inv_def)

lemma safe_acquiresleep_wait:
  assumes "crit (SleepLk lk) p s"
  shows "safe (\<lambda>t u. resumed (SleepLk lk) p u) (\<lambda>_ t. crit (SleepLk lk) p t \<and> \<not> sl_locked (sleeplocks t lk))
    (acquiresleep_wait lk n s)"
  using assms
proof (induction n arbitrary: s)
  case 0
  show ?case by simp
next
  case (Suc n)
  have "safe (\<lambda>t u. resumed (SleepLk lk) p u \<and> True) (\<lambda>_ t. safe (\<lambda>t u. resumed (SleepLk lk) p u)
      (\<lambda>_ t. crit (SleepLk lk) p t \<and> \<not> sl_locked (sleeplocks t lk)) (acquiresleep_wait lk n t))
      (sleep (ChanSleep lk) (SleepLk lk) s)"
    using Suc.prems by (rule safe_sleep) (rule Suc.IH)
  then show ?case using Suc.prems by (simp add: kM_simps safe_bindO)
qed


definition ks1 :: kstate where
  "ks1 = ks0\<lparr>cpus := (\<lambda>_. \<lparr>c_proc = Some 0, c_context = ctx0, c_noff = 0, c_intena = False\<rparr>)\<rparr>"

lemma ks1_ctx: "proc_ctx 0 ks1"
  by (simp add: proc_ctx_def ks1_def ks0_def k0_def cpu_inv_def lock_free_def NPROC_def)


end
