(* ===== verification/Kstring.thy ===== *)
theory Kstring
  imports Prelude
begin

text \<open>
  \<^verbatim>\<open>kernel/string.c\<close>. The block routines (\<^verbatim>\<open>memset\<close>, \<^verbatim>\<open>memmove\<close>,
  \<^verbatim>\<open>memcmp\<close>) work on flat memory, byte by byte as the C loops do, and are shown equal to
  one block read and one block write. A character pointer \<^verbatim>\<open>p\<close> that is only read through is the
  function \<open>i \<mapsto> p[i]\<close>; a character array that is written is a list updated by index.
\<close>

section \<open>Block routines\<close>

function memset_loop :: "memory \<Rightarrow> u64 \<Rightarrow> u8 \<Rightarrow> nat \<Rightarrow> nat \<Rightarrow> memory" where
  "memset_loop m cdst c i n =
     (if i < n then memset_loop (m(cdst + of_nat i := c)) cdst c (Suc i) n else m)"
  by pat_completeness auto
termination
  by (relation "measure (\<lambda>(m, cdst, c, i, n). n - i)") auto

declare memset_loop.simps [simp del]

definition memset :: "memory \<Rightarrow> u64 \<Rightarrow> i32 \<Rightarrow> u32 \<Rightarrow> memory" where
  "memset m dst c n = memset_loop m dst (ucast c) 0 (unat n)"

fun memcmp_loop :: "(nat \<Rightarrow> u8) \<Rightarrow> (nat \<Rightarrow> u8) \<Rightarrow> nat \<Rightarrow> nat \<Rightarrow> int" where
  "memcmp_loop s1 s2 i 0 = 0"
| "memcmp_loop s1 s2 i (Suc n) =
     (if s1 i \<noteq> s2 i then uint (s1 i) - uint (s2 i) else memcmp_loop s1 s2 (Suc i) n)"

definition memcmp :: "(nat \<Rightarrow> u8) \<Rightarrow> (nat \<Rightarrow> u8) \<Rightarrow> u32 \<Rightarrow> int" where
  "memcmp v1 v2 n = memcmp_loop v1 v2 0 (unat n)"

fun memmove_back :: "memory \<Rightarrow> u64 \<Rightarrow> u64 \<Rightarrow> nat \<Rightarrow> memory" where
  "memmove_back m d s 0 = m"
| "memmove_back m d s (Suc n) = memmove_back (m(d - 1 := m (s - 1))) (d - 1) (s - 1) n"

fun memmove_fwd :: "memory \<Rightarrow> u64 \<Rightarrow> u64 \<Rightarrow> nat \<Rightarrow> memory" where
  "memmove_fwd m d s 0 = m"
| "memmove_fwd m d s (Suc n) = memmove_fwd (m(d := m s)) (d + 1) (s + 1) n"

definition memmove :: "memory \<Rightarrow> u64 \<Rightarrow> u64 \<Rightarrow> u32 \<Rightarrow> memory" where
  "memmove m dst src n =
     (if n = 0 then m
      else if src < dst \<and> src + ucast n > dst
      then memmove_back m (dst + ucast n) (src + ucast n) (unat n)
      else memmove_fwd m dst src (unat n))"

definition memcpy :: "memory \<Rightarrow> u64 \<Rightarrow> u64 \<Rightarrow> u32 \<Rightarrow> memory" where
  "memcpy m dst src n = memmove m dst src n"

section \<open>String routines\<close>

fun strncmp_loop :: "(nat \<Rightarrow> u8) \<Rightarrow> (nat \<Rightarrow> u8) \<Rightarrow> nat \<Rightarrow> nat \<Rightarrow> int" where
  "strncmp_loop p q i 0 = 0"
| "strncmp_loop p q i (Suc n) =
     (if p i \<noteq> 0 \<and> p i = q i then strncmp_loop p q (Suc i) n else uint (p i) - uint (q i))"

definition strncmp :: "(nat \<Rightarrow> u8) \<Rightarrow> (nat \<Rightarrow> u8) \<Rightarrow> nat \<Rightarrow> int" where
  "strncmp p q n = strncmp_loop p q 0 n"

fun strncpy_pad :: "u8 list \<Rightarrow> nat \<Rightarrow> nat \<Rightarrow> u8 list" where
  "strncpy_pad s i 0 = s"
| "strncpy_pad s i (Suc n) = strncpy_pad (s[i := 0]) (Suc i) n"

fun strncpy_loop :: "u8 list \<Rightarrow> (nat \<Rightarrow> u8) \<Rightarrow> nat \<Rightarrow> nat \<Rightarrow> u8 list" where
  "strncpy_loop s t i 0 = s"
| "strncpy_loop s t i (Suc n) =
     (let s' = s[i := t i] in
      if t i \<noteq> 0 then strncpy_loop s' t (Suc i) n else strncpy_pad s' (Suc i) n)"

definition strncpy :: "u8 list \<Rightarrow> (nat \<Rightarrow> u8) \<Rightarrow> int \<Rightarrow> u8 list" where
  "strncpy s t n = strncpy_loop s t 0 (nat n)"

fun safestrcpy_loop :: "u8 list \<Rightarrow> (nat \<Rightarrow> u8) \<Rightarrow> nat \<Rightarrow> nat \<Rightarrow> u8 list" where
  "safestrcpy_loop s t i 0 = s[i := 0]"
| "safestrcpy_loop s t i (Suc n) =
     (let s' = s[i := t i] in
      if t i \<noteq> 0 then safestrcpy_loop s' t (Suc i) n else s'[Suc i := 0])"

definition safestrcpy :: "u8 list \<Rightarrow> (nat \<Rightarrow> u8) \<Rightarrow> int \<Rightarrow> u8 list" where
  "safestrcpy s t n = (if n \<le> 0 then s else safestrcpy_loop s t 0 (nat (n - 1)))"

partial_function (option) strlen_from :: "(nat \<Rightarrow> u8) \<Rightarrow> nat \<Rightarrow> nat option" where
  "strlen_from s n = (if s n \<noteq> 0 then strlen_from s (Suc n) else Some n)"

definition strlen :: "(nat \<Rightarrow> u8) \<Rightarrow> nat option" where
  "strlen s = strlen_from s 0"

section \<open>memset and memmove as block writes\<close>

lemma unat_diff_ge: "(a :: u64) \<le> b \<Longrightarrow> unat (b - a) = unat b - unat a"
  by (simp add: unat_sub)

lemma memset_loop_eq:
  "i \<le> n \<Longrightarrow> n \<le> 2 ^ 64 \<Longrightarrow> memset_loop m d c i n =
     (\<lambda>x. if i \<le> unat (x - d) \<and> unat (x - d) < n then c else m x)"
proof (induction m d c i n rule: memset_loop.induct)
  case (1 m d c i n)
  show ?case
  proof (cases "i < n")
    case True
    then have eq: "x = d + of_nat i \<longleftrightarrow> unat (x - d) = i" for x
      using "1.prems" by (intro addr_eq_iff) simp
    have "memset_loop m d c i n = memset_loop (m(d + of_nat i := c)) d c (Suc i) n"
      using True by (subst memset_loop.simps) simp
    also have "\<dots> = (\<lambda>x. if Suc i \<le> unat (x - d) \<and> unat (x - d) < n then c
        else (m(d + of_nat i := c)) x)"
      using True "1.prems" by (intro "1.IH") auto
    also have "\<dots> = (\<lambda>x. if i \<le> unat (x - d) \<and> unat (x - d) < n then c else m x)"
      using True by (auto simp: fun_eq_iff fun_upd_apply eq)
    finally show ?thesis .
  next
    case False
    with "1.prems" show ?thesis by (subst memset_loop.simps) (auto simp: fun_eq_iff)
  qed
qed

lemma unat_u32_less: "unat (n :: u32) < 2 ^ 64"
  using unsigned_less [of n, where ?'a = nat] by simp

lemma memset_eq: "memset m d c n = (\<lambda>x. if unat (x - d) < unat n then ucast c else m x)"
  using unat_u32_less [of n] by (simp add: memset_def memset_loop_eq)

lemma memset_write: "memset m d c n = mem_write m d (replicate (unat n) (ucast c))"
  by (simp add: memset_eq mem_write_def fun_eq_iff)

lemma memmove_fwd_eq:
  assumes "n \<le> 2 ^ 64" and "unat s + n \<le> 2 ^ 64" and "unat d + n \<le> 2 ^ 64"
    and "d \<le> s \<or> unat s + n \<le> unat d"
  shows "memmove_fwd m d s n = mem_write m d (mem_read m s n)"
  using assms
proof (induction n arbitrary: m d s)
  case 0
  then show ?case by (simp add: mem_write_def)
next
  case (Suc n)
  show ?case
  proof (cases "n = 0")
    case True
    then show ?thesis by (auto simp: mem_write_def mem_read_def fun_eq_iff unat_eq_zero)
  next
    case False
    have s1: "unat (s + 1) = unat s + 1" and d1: "unat (d + 1) = unat d + 1"
      using Suc.prems False by (simp_all add: unat_word_ariths)
    have "memmove_fwd m d s (Suc n) = memmove_fwd (m(d := m s)) (d + 1) (s + 1) n"
      by (rule memmove_fwd.simps)
    also have "\<dots> = mem_write (m(d := m s)) (d + 1) (mem_read (m(d := m s)) (s + 1) n)"
      using Suc.prems s1 d1 by (intro Suc.IH) (auto simp: word_le_nat_alt)
    also have "mem_read (m(d := m s)) (s + 1) n = mem_read m (s + 1) n"
    proof (rule mem_read_cong)
      fix i assume i: "i < n"
      have "unat (s + 1 + of_nat i) = unat s + 1 + i"
        using Suc.prems(2) i s1 by (simp add: unat_word_ariths unat_of_nat64)
      then have "s + 1 + of_nat i \<noteq> d"
        using Suc.prems(4) i by (auto simp: word_le_nat_alt)
      then show "(m(d := m s)) (s + 1 + of_nat i) = m (s + 1 + of_nat i)" by simp
    qed
    also have "mem_write (m(d := m s)) (d + 1) (mem_read m (s + 1) n) = mem_write m d (mem_read m s (Suc n))"
    proof
      fix x
      show "mem_write (m(d := m s)) (d + 1) (mem_read m (s + 1) n) x = mem_write m d (mem_read m s (Suc n)) x"
      proof (cases "x = d")
        case True
        have "unat (d - (d + 1)) = 2 ^ 64 - 1" by (simp add: unsigned_minus_1_eq_mask mask_eq_exp_minus_1)
        then show ?thesis using True Suc.prems(1) by (simp add: mem_write_def)
      next
        case False
        then have nz: "x - d \<noteq> 0" by simp
        have e: "x - (d + 1) = x - d - 1" by simp
        have "0 < unat (x - d)" using nz by (simp add: unat_gt_0)
        then have "unat (x - d) = Suc (unat (x - (d + 1)))"
          by (simp only: e unat_minus_one [OF nz])
        moreover have "s + 1 + of_nat k = s + of_nat (Suc k)" for k by simp
        ultimately show ?thesis using False by (simp add: mem_write_def add.assoc)
      qed
    qed
    finally show ?thesis by simp
  qed
qed


lemma mem_write_snoc:
  assumes "unat d + length bs < 2 ^ 64"
  shows "mem_write (m(d + of_nat (length bs) := b)) d bs = mem_write m d (bs @ [b])"
proof
  fix x
  have eq: "x = d + of_nat (length bs) \<longleftrightarrow> unat (x - d) = length bs"
    using assms by (intro addr_eq_iff) simp
  show "mem_write (m(d + of_nat (length bs) := b)) d bs x = mem_write m d (bs @ [b]) x"
    unfolding mem_write_def fun_upd_apply eq by (simp add: nth_append)
qed

lemma mem_read_Suc: "mem_read m a (Suc n) = mem_read m a n @ [m (a + of_nat n)]"
  by (simp add: mem_read_def)

lemma memmove_back_eq:
  assumes "unat s + n \<le> 2 ^ 64" and "unat d + n \<le> 2 ^ 64" and "s \<le> d"
  shows "memmove_back m (d + of_nat n) (s + of_nat n) n = mem_write m d (mem_read m s n)"
  using assms
proof (induction n arbitrary: m)
  case 0
  then show ?case by (simp add: mem_write_def)
next
  case (Suc n)
  let ?m = "m(d + of_nat n := m (s + of_nat n))"
  have "memmove_back m (d + of_nat (Suc n)) (s + of_nat (Suc n)) (Suc n)
      = memmove_back ?m (d + of_nat n) (s + of_nat n) n"
    by (simp add: algebra_simps)
  also have "\<dots> = mem_write ?m d (mem_read ?m s n)"
    using Suc.prems by (intro Suc.IH) auto
  also have "mem_read ?m s n = mem_read m s n"
  proof (rule mem_read_cong)
    fix i assume i: "i < n"
    have "unat (s + of_nat i) = unat s + i" "unat (d + of_nat n) = unat d + n"
      using Suc.prems i by (simp_all add: unat_word_ariths unat_of_nat64)
    then have "s + of_nat i \<noteq> d + of_nat n"
      using i Suc.prems(3) by (auto simp: word_le_nat_alt)
    then show "?m (s + of_nat i) = m (s + of_nat i)" by simp
  qed
  also have "mem_write ?m d (mem_read m s n) = mem_write m d (mem_read m s (Suc n))"
    using mem_write_snoc [of d "mem_read m s n" m] Suc.prems by (simp add: mem_read_Suc)
  finally show ?case .
qed

text \<open>
  C33. \<^verbatim>\<open>memmove\<close> copies correctly whether or not the two ranges overlap: whenever neither range
  wraps around the address space, the destination ends up holding the bytes the source held before
  the call and no other byte changes.
\<close>

theorem memmove_correct:
  assumes "unat src + unat n \<le> 2 ^ 64" and "unat dst + unat n \<le> 2 ^ 64"
  shows "memmove m dst src n = mem_write m dst (mem_read m src (unat n))"
proof (cases "n = 0")
  case True
  then show ?thesis by (simp add: memmove_def mem_write_def)
next
  case False
  have len: "unat n \<le> 2 ^ 64" using unat_u32_less [of n] by simp
  show ?thesis
  proof (cases "src < dst \<and> src + ucast n > dst")
    case True
    then show ?thesis
      using False assms memmove_back_eq [of src "unat n" dst m] by (simp add: memmove_def order_less_imp_le)
  next
    case fwd: False
    have "dst \<le> src \<or> unat src + unat n \<le> unat dst"
    proof (cases "src < dst")
      case True
      have "unat (src + ucast n) = unat src + unat n \<or> unat src + unat n = 2 ^ 64"
        using assms(1) unat_u32_less [of n] by (auto simp: unat_word_ariths unsigned_ucast_eq take_bit_eq_mod)
      moreover have "unat dst < 2 ^ 64" using unsigned_less [of dst, where ?'a = nat] by simp
      moreover have "unat (src + ucast n) \<le> unat dst"
        using True fwd by (simp add: word_le_nat_alt not_less)
      ultimately show ?thesis using assms(2) False by (auto simp: unat_eq_zero word_le_nat_alt)
    qed (simp add: not_less)
    with False fwd assms len show ?thesis by (auto simp: memmove_def intro!: memmove_fwd_eq)
  qed
qed


lemma memmove_correct_witness:
  "unat (100 :: u64) + unat (3 :: u32) \<le> 2 ^ 64 \<and> unat (101 :: u64) + unat (3 :: u32) \<le> 2 ^ 64 \<and>
   map (memmove (\<lambda>a. ucast a) 101 100 3) [100, 101, 102, 103, 104] = [100, 100, 101, 102, 104]"
  using memmove_correct [of 100 3 101 "\<lambda>a. ucast a"]
  by (simp add: mem_write_def mem_read_def upt_rec unsigned_minus_1_eq_mask mask_eq_exp_minus_1)

section \<open>C strings\<close>

text \<open>The characters of a C string within its first \<open>n\<close> bytes, up to the terminating NUL.\<close>

definition cstr :: "(nat \<Rightarrow> u8) \<Rightarrow> nat \<Rightarrow> u8 list" where
  "cstr p n = takeWhile (\<lambda>c. c \<noteq> 0) (map p [0..<n])"

lemma cstr_from: "takeWhile (\<lambda>c. c \<noteq> 0) (map p [i..<i + Suc n]) =
    (if p i = 0 then [] else p i # takeWhile (\<lambda>c. c \<noteq> 0) (map p [Suc i..<Suc i + n]))"
  by (simp add: upt_conv_Cons del: upt_Suc)

lemma strncmp_loop_0:
  "strncmp_loop p q i n = 0 \<longleftrightarrow>
     takeWhile (\<lambda>c. c \<noteq> 0) (map p [i..<i + n]) = takeWhile (\<lambda>c. c \<noteq> 0) (map q [i..<i + n])"
proof (induction n arbitrary: i)
  case 0
  then show ?case by simp
next
  case (Suc n)
  show ?case
    unfolding cstr_from strncmp_loop.simps using Suc.IH [of "Suc i"]
    by (auto simp: uint_0_iff simp flip: word_uint_eq_iff)
qed

text \<open>
  C34. \<^verbatim>\<open>strncmp\<close> returns 0 exactly if the two C strings agree on their first \<open>n\<close> characters.
\<close>

theorem strncmp_eq_0: "strncmp p q n = 0 \<longleftrightarrow> cstr p n = cstr q n"
  using strncmp_loop_0 [of p q 0 n] by (simp add: strncmp_def cstr_def)

lemma strncpy_pad_eq:
  "length (strncpy_pad s i n) = length s"
  "i + n \<le> length s \<Longrightarrow> j < length s \<Longrightarrow>
     strncpy_pad s i n ! j = (if i \<le> j \<and> j < i + n then 0 else s ! j)"
  by (induction s i n rule: strncpy_pad.induct) (auto simp: nth_list_update)

lemma strncpy_loop_length [simp]: "length (strncpy_loop s t i n) = length s"
  by (induction s t i n rule: strncpy_loop.induct) (auto simp: Let_def strncpy_pad_eq)

lemma strncpy_loop_nth:
  "i + n \<le> length s \<Longrightarrow> j < length s \<Longrightarrow>
     strncpy_loop s t i n ! j = (if i \<le> j \<and> j < i + n
        then (if \<forall>k. i \<le> k \<and> k < j \<longrightarrow> t k \<noteq> 0 then t j else 0) else s ! j)"
proof (induction s t i n rule: strncpy_loop.induct)
  case (1 s t i)
  then show ?case by auto
next
  case (2 s t i n)
  show ?case
  proof (cases "t i = 0")
    case True
    with 2 show ?thesis by (auto simp: Let_def strncpy_pad_eq nth_list_update)
  next
    case False
    have all: "(\<forall>k. i \<le> k \<and> k < j \<longrightarrow> t k \<noteq> 0) \<longleftrightarrow> (\<forall>k. Suc i \<le> k \<and> k < j \<longrightarrow> t k \<noteq> 0)"
      if "i < j" using False by (metis Suc_le_eq le_less)
    from 2 False show ?thesis
      using all by (auto simp: Let_def nth_list_update)
  qed
qed

lemma takeWhile_map_eq:
  "(\<And>j. j < n \<Longrightarrow> f j = (if \<forall>k < j. t k \<noteq> (0 :: u8) then t j else 0)) \<Longrightarrow>
     takeWhile (\<lambda>c. c \<noteq> 0) (map f [0..<n]) = takeWhile (\<lambda>c. c \<noteq> 0) (map t [0..<n])"
proof (induction n)
  case 0
  then show ?case by simp
next
  case (Suc n)
  then have IH: "takeWhile (\<lambda>c. c \<noteq> 0) (map f [0..<n]) = takeWhile (\<lambda>c. c \<noteq> 0) (map t [0..<n])"
    by simp
  show ?case
  proof (cases "\<forall>k < n. t k \<noteq> 0")
    case True
    then have "f k = t k" if "k \<le> n" for k using Suc.prems [of k] that by auto
    then have "map f [0..<Suc n] = map t [0..<Suc n]" by (intro map_cong) auto
    then show ?thesis by (rule arg_cong)
  next
    case False
    then obtain k where k: "k < n" "t k = 0" by auto
    then have "0 \<in> set (map t [0..<n])" by force
    moreover have "0 \<in> set (map f [0..<n])"
    proof -
      define l where "l = (LEAST k. t k = 0)"
      have "t l = 0" "l \<le> k" using k by (auto simp: l_def intro: LeastI Least_le)
      moreover from this have "f l = 0" using Suc.prems [of l] k by auto
      ultimately show ?thesis using k by force
    qed
    ultimately show ?thesis using IH by (simp add: takeWhile_append1)
  qed
qed

text \<open>
  C35. \<^verbatim>\<open>strncpy\<close> into an array with room for \<open>n\<close> bytes stores the source's first \<open>n\<close>
  characters, pads the rest of the \<open>n\<close> bytes with NULs and leaves the bytes behind them alone.
\<close>

theorem strncpy_correct:
  assumes "n \<le> length s"
  shows "cstr (\<lambda>i. strncpy s t (int n) ! i) n = cstr t n \<and>
     length (strncpy s t (int n)) = length s \<and> drop n (strncpy s t (int n)) = drop n s \<and>
     (\<forall>j. length (cstr t n) \<le> j \<and> j < n \<longrightarrow> strncpy s t (int n) ! j = 0)"
proof -
  let ?r = "strncpy s t (int n)"
  have nth: "?r ! j = (if j < n then (if \<forall>k<j. t k \<noteq> 0 then t j else 0) else s ! j)"
    if "j < length s" for j
    using strncpy_loop_nth [of 0 n s j t] assms that by (simp add: strncpy_def)
  have len: "length ?r = length s" by (simp add: strncpy_def)
  have "cstr (\<lambda>i. ?r ! i) n = cstr t n"
    unfolding cstr_def by (rule takeWhile_map_eq) (use nth assms in auto)
  moreover have "drop n ?r = drop n s"
    by (rule nth_equalityI) (use nth len assms in auto)
  moreover have "?r ! j = 0" if j: "length (cstr t n) \<le> j" "j < n" for j
  proof -
    have "\<not> (\<forall>k \<le> j. t k \<noteq> 0)"
    proof
      assume *: "\<forall>k \<le> j. t k \<noteq> 0"
      have "map t [0..<n] = map t [0..<Suc j] @ map t [Suc j..<n]"
        using j upt_add_eq_append [of 0 "Suc j" "n - Suc j"] by (simp del: upt_Suc flip: map_append)
      moreover have "\<forall>c \<in> set (map t [0..<Suc j]). c \<noteq> 0" using * by auto
      ultimately have "cstr t n = map t [0..<Suc j] @ takeWhile (\<lambda>c. c \<noteq> 0) (map t [Suc j..<n])"
        unfolding cstr_def by (metis (mono_tags, lifting) takeWhile_append2)
      then have "length (cstr t n) \<ge> Suc j" by simp
      with j show False by simp
    qed
    then show ?thesis using nth [of j] j assms by (auto simp: le_less)
  qed
  ultimately show ?thesis using len by blast
qed


lemma strncpy_correct_witness:
  "(4 :: nat) \<le> length (replicate 5 (9 :: u8)) \<and>
   strncpy (replicate 5 9) (\<lambda>i. [65, 66, 0, 67, 68] ! i) (int 4) = [65, 66, 0, 0, 9] \<and>
   drop 4 (strncpy (replicate 5 9) (\<lambda>i. [65, 66, 0, 67, 68] ! i) (int 4)) = [9]"
proof -
  have e: "strncpy (replicate 5 9) (\<lambda>i. [65, 66, 0, 67, 68] ! i) (int 4) = [65, 66, 0, 0, 9]"
    by code_simp
  show ?thesis
    using strncpy_correct [of 4 "replicate 5 9" "\<lambda>i. [65, 66, 0, 67, 68] ! i"] unfolding e by simp
qed

lemma safestrcpy_loop_length [simp]: "length (safestrcpy_loop s t i n) = length s"
  by (induction s t i n rule: safestrcpy_loop.induct) (auto simp: Let_def)

lemma safestrcpy_loop_keeps: "j < i \<Longrightarrow> safestrcpy_loop s t i n ! j = s ! j"
  by (induction s t i n rule: safestrcpy_loop.induct) (auto simp: Let_def nth_list_update)

lemma safestrcpy_loop_cstr:
  "i + n < length s \<Longrightarrow>
     takeWhile (\<lambda>c. c \<noteq> 0) (map (\<lambda>j. safestrcpy_loop s t i n ! j) [i..<i + Suc n])
       = takeWhile (\<lambda>c. c \<noteq> 0) (map t [i..<i + n]) \<and>
     (\<exists>j. i \<le> j \<and> j \<le> i + n \<and> safestrcpy_loop s t i n ! j = 0)"
proof (induction s t i n rule: safestrcpy_loop.induct)
  case (1 s t i)
  then show ?case by auto
next
  case (2 s t i n)
  show ?case
  proof (cases "t i = 0")
    case True
    with 2 show ?thesis
      by (auto simp: Let_def upt_conv_Cons nth_list_update simp del: upt_Suc intro!: exI [of _ i])
  next
    case False
    let ?r = "safestrcpy_loop (s[i := t i]) t (Suc i) n"
    have IH: "takeWhile (\<lambda>c. c \<noteq> 0) (map (\<lambda>j. ?r ! j) [Suc i..<Suc i + Suc n])
       = takeWhile (\<lambda>c. c \<noteq> 0) (map t [Suc i..<Suc i + n])"
      and ex: "\<exists>j. Suc i \<le> j \<and> j \<le> Suc i + n \<and> ?r ! j = 0"
      using "2.IH" [of "s[i := t i]"] False "2.prems" by auto
    have "?r ! i = t i" using safestrcpy_loop_keeps [of i "Suc i" "s[i := t i]" t n] "2.prems" by simp
    with IH ex False "2.prems" show ?thesis
      by (auto simp: Let_def upt_conv_Cons simp del: upt_Suc) (metis Suc_leD)
  qed
qed



lemma strlen_from_Some: "s n = 0 \<Longrightarrow> \<forall>j<n. i \<le> j \<longrightarrow> s j \<noteq> 0 \<Longrightarrow> i \<le> n \<Longrightarrow> strlen_from s i = Some n"
proof (induction "n - i" arbitrary: i)
  case 0
  then show ?case by (subst strlen_from.simps) simp
next
  case (Suc k)
  then have "i < n" by simp
  with Suc have "s i \<noteq> 0" "strlen_from s (Suc i) = Some n" by auto
  then show ?case by (subst strlen_from.simps) simp
qed

lemma strlen_Some: "s n = 0 \<Longrightarrow> \<forall>j<n. s j \<noteq> 0 \<Longrightarrow> strlen s = Some n"
  by (simp add: strlen_def strlen_from_Some)

end
