(* ===== verification/Pages.thy ===== *)
theory Pages
  imports Machine
begin

text \<open>
  Arithmetic of page-aligned addresses, shared by the page allocator and the page tables: an address
  lies in exactly one page, and a write inside one page leaves every other page alone.
\<close>

section \<open>Addresses within pages\<close>

definition aligned :: "u64 \<Rightarrow> bool" where
  "aligned p \<longleftrightarrow> unat p mod 4096 = 0"

lemma aligned_word_mod: "p mod PGSIZE = 0 \<longleftrightarrow> aligned p"
  by (simp add: aligned_def PGSIZE_def word_unat_eq_iff unat_mod_distrib)

lemma unat64_less: "unat (x :: u64) < 2 ^ 64"
  using unsigned_less [of x, where ?'a = nat] by simp

lemma unat_minus_of_nat:
  assumes "k \<le> unat (y :: u64)"
  shows "unat (y - of_nat k) = unat y - k"
proof -
  have k: "unat (of_nat k :: u64) = k" using assms unat64_less [of y] by (intro unat_of_nat64) simp
  then have "of_nat k \<le> y" using assms by (simp add: word_le_nat_alt)
  then show ?thesis by (simp add: unat_sub k)
qed

lemma alignedE:
  assumes "aligned p"
  obtains k where "unat p = 4096 * k" and "k < 2 ^ 52"
proof -
  have "unat p = 4096 * (unat p div 4096)"
    using assms div_mult_mod_eq [of "unat p" 4096] by (simp add: aligned_def)
  moreover have "unat p div 4096 < 2 ^ 52"
    using unat64_less [of p] by (simp add: less_mult_imp_div_less)
  ultimately show thesis using that by blast
qed

lemma aligned_max: "aligned p \<Longrightarrow> unat p \<le> 2 ^ 64 - 4096"
  by (erule alignedE) simp

lemma in_page_iff:
  assumes "aligned p"
  shows "unat (x - p) < 4096 \<longleftrightarrow> unat x div 4096 = unat p div 4096"
proof -
  obtain k where k: "unat p = 4096 * k" "k < 2 ^ 52" using assms by (rule alignedE)
  define a b where "a = unat x div 4096" and "b = unat x mod 4096"
  have x: "unat x = 4096 * a + b" and "b < 4096" by (simp_all add: a_def b_def)
  have "unat (x - p) < 4096 \<longleftrightarrow> a = k"
  proof (cases "p \<le> x")
    case True
    then have "unat (x - p) = unat x - unat p" and "unat p \<le> unat x"
      by (simp_all add: unat_sub word_le_nat_alt)
    with k x \<open>b < 4096\<close> show ?thesis by auto
  next
    case False
    then have "unat x < unat p" by (simp add: word_le_nat_alt)
    moreover from this have "unat (x - p) = unat x + 2 ^ 64 - unat p" by (simp add: unat_sub_if')
    ultimately show ?thesis using k x \<open>b < 4096\<close> by auto
  qed
  then show ?thesis by (simp add: a_def k(1))
qed

lemma page_offset_div:
  assumes "aligned p" and "i < 4096"
  shows "unat (p + of_nat i) = unat p + i" and "unat (p + of_nat i) div 4096 = unat p div 4096"
proof -
  show 1: "unat (p + of_nat i) = unat p + i"
    using assms aligned_max [OF assms(1)] by (simp add: unat_word_ariths unat_of_nat64)
  from assms show "unat (p + of_nat i) div 4096 = unat p div 4096"
    unfolding 1 by (auto elim!: alignedE)
qed

lemma aligned_eq_iff: "aligned p \<Longrightarrow> aligned q \<Longrightarrow> unat p div 4096 = unat q div 4096 \<longleftrightarrow> p = q"
  by (auto elim!: alignedE simp: word_unat_eq_iff)

text \<open>An address inside one page is outside every other page.\<close>

lemma other_page:
  "aligned p \<Longrightarrow> aligned q \<Longrightarrow> p \<noteq> q \<Longrightarrow> i < 4096 \<Longrightarrow> 4096 \<le> unat (q + of_nat i - p)"
  using in_page_iff [of p "q + of_nat i"] page_offset_div(2) [of q i] aligned_eq_iff [of p q]
  by (auto simp: not_less [symmetric])

lemma mem_write_other_page:
  assumes "aligned p" "aligned q" "p \<noteq> q" "length bs \<le> 4096" "i < 4096"
  shows "mem_write m p bs (q + of_nat i) = m (q + of_nat i)"
  using other_page [of p q i] assms by (simp add: mem_write_outside)

lemma load64_in_page_cong:
  assumes "aligned q" and "i + 8 \<le> 4096"
    and "\<And>j. j < 4096 \<Longrightarrow> m (q + of_nat j) = m' (q + of_nat j)"
  shows "load64 m (q + of_nat i) = load64 m' (q + of_nat i)"
proof (rule load64_cong)
  fix k :: nat assume "k < 8"
  with assms(2) assms(3) [of "i + k"] show "m (q + of_nat i + of_nat k) = m' (q + of_nat i + of_nat k)"
    by (simp add: add.assoc)
qed

end
