(* ===== verification/Kalloc.thy ===== *)
theory Kalloc
  imports Spinlock Kstring Pages
begin

text \<open>
  \<^verbatim>\<open>kernel/kalloc.c\<close>: the physical page allocator. The free list is threaded through the free
  pages themselves (\<^verbatim>\<open>struct run\<close>), so it lives in physical memory; \<open>free_list\<close> reads it off as
  an Isabelle list. The routines are shown to implement a stack of pages, and every sequence of
  allocations and frees to conserve the pages and never to hand out a page twice.

  The address \<^verbatim>\<open>end\<close> is fixed by the linker (\<^verbatim>\<open>kernel.ld\<close>); it is the field \<open>kend\<close>, which no
  routine changes.
\<close>

record kmem_state = kstate +
  kend :: u64
  freelist :: u64

section \<open>kalloc.c\<close>

definition kfree :: "u64 \<Rightarrow> ('a kmem_state_scheme, unit) kM" where
  "kfree pa =
     bindK (getsK kend) (\<lambda>e.
     if pa mod PGSIZE \<noteq> 0 \<or> pa < e \<or> PHYSTOP \<le> pa then panicK ''kfree'' else
     thenK (modifyK (\<lambda>s. s\<lparr>mem := memset (mem s) pa 1 (ucast PGSIZE)\<rparr>)) (
     thenK (acquire KmemLock) (
     thenK (modifyK (\<lambda>s. s\<lparr>mem := store64 (mem s) pa (freelist s)\<rparr>)) (
     thenK (modifyK (\<lambda>s. s\<lparr>freelist := pa\<rparr>)) (
     release KmemLock)))))"

definition kalloc :: "('a kmem_state_scheme, u64) kM" where
  "kalloc =
     thenK (acquire KmemLock) (
     bindK (getsK freelist) (\<lambda>r.
     thenK (if r \<noteq> 0 then modifyK (\<lambda>s. s\<lparr>freelist := load64 (mem s) r\<rparr>) else returnK ()) (
     thenK (release KmemLock) (
     thenK (if r \<noteq> 0 then modifyK (\<lambda>s. s\<lparr>mem := memset (mem s) r 5 (ucast PGSIZE)\<rparr>) else returnK ()) (
     returnK r)))))"

text \<open>
  \<^verbatim>\<open>for(; p + PGSIZE <= pa_end; p += PGSIZE)\<close>. Should \<^verbatim>\<open>p + PGSIZE\<close> wrap around, the C loop would
  start over at address 0 and never end.
\<close>

function freerange_loop :: "u64 \<Rightarrow> u64 \<Rightarrow> ('a kmem_state_scheme, unit) kM" where
  "freerange_loop p pa_end =
     (if p + PGSIZE < p then spinK
      else if p + PGSIZE \<le> pa_end then thenK (kfree p) (freerange_loop (p + PGSIZE) pa_end)
      else returnK ())"
  by pat_completeness auto
termination
proof (relation "measure (\<lambda>(p, pa_end). 2 ^ 64 - unat p)")
  fix p pa_end :: u64
  assume "\<not> p + PGSIZE < p"
  moreover have "p \<noteq> p + PGSIZE" by (simp add: PGSIZE_def)
  ultimately have "p < p + PGSIZE" by (meson linorder_neqE)
  then show "((p + PGSIZE, pa_end), (p, pa_end)) \<in> measure (\<lambda>(p, pa_end). 2 ^ 64 - unat p)"
    using unat64_less [of p] by (auto simp: word_less_nat_alt intro!: diff_less_mono2)
qed simp

declare freerange_loop.simps [simp del]

definition freerange :: "u64 \<Rightarrow> u64 \<Rightarrow> ('a kmem_state_scheme, unit) kM" where
  "freerange pa_start pa_end = freerange_loop (PGROUNDUP pa_start) pa_end"

definition kinit :: "('a kmem_state_scheme, unit) kM" where
  "kinit =
     thenK (initlock KmemLock ''kmem'') (
     bindK (getsK kend) (\<lambda>e. freerange e PHYSTOP))"

section \<open>The free list in memory\<close>

fun free_list :: "memory \<Rightarrow> u64 \<Rightarrow> u64 list \<Rightarrow> bool" where
  "free_list m r [] = (r = 0)"
| "free_list m r (p # ps) = (r = p \<and> p \<noteq> 0 \<and> free_list m (load64 m p) ps)"

definition page_ok :: "u64 \<Rightarrow> u64 \<Rightarrow> bool" where
  "page_ok e p \<longleftrightarrow> aligned p \<and> e \<le> p \<and> p < PHYSTOP"

text \<open>The well-formedness invariant: \<open>ps\<close> are the free pages, most recently freed first.\<close>

definition kmem_inv :: "'a kmem_state_scheme \<Rightarrow> u64 list \<Rightarrow> bool" where
  "kmem_inv s ps \<longleftrightarrow> cpu_inv s \<and> lock_free KmemLock s \<and> 0 < kend s \<and>
     free_list (mem s) (freelist s) ps \<and> distinct ps \<and> (\<forall>p \<in> set ps. page_ok (kend s) p)"

lemma page_ok_nonzero: "0 < e \<Longrightarrow> page_ok e p \<Longrightarrow> p \<noteq> 0"
  by (auto simp: page_ok_def)

lemma page_ok_aligned: "page_ok e p \<Longrightarrow> aligned p"
  by (simp add: page_ok_def)

lemma free_list_cong:
  assumes "\<And>q. q \<in> set ps \<Longrightarrow> load64 m q = load64 m' q"
  shows "free_list m r ps \<longleftrightarrow> free_list m' r ps"
  using assms by (induction ps arbitrary: r) auto

lemma free_list_other_page:
  assumes "\<And>q. q \<in> set ps \<Longrightarrow> aligned q \<and> q \<noteq> p" and "aligned p"
    and "\<And>x. 4096 \<le> unat (x - p) \<Longrightarrow> m' x = m x"
  shows "free_list m' r ps \<longleftrightarrow> free_list m r ps"
proof (rule free_list_cong)
  fix q assume "q \<in> set ps"
  then have q: "aligned q" "p \<noteq> q" using assms(1) by auto
  have "load64 m' (q + of_nat 0) = load64 m (q + of_nat 0)"
    using q(1) by (rule load64_in_page_cong) (use q assms(2,3) other_page in auto)
  then show "load64 m' q = load64 m q" by simp
qed

lemma ucast_PGSIZE [simp]: "ucast PGSIZE = (4096 :: u32)"
  by (simp add: PGSIZE_def)

section \<open>What the routines do\<close>

lemma kalloc_frame [simp]:
  "freelist (acq lk s) = freelist s" "kend (acq lk s) = kend s"
  "freelist (rel lk s) = freelist s" "kend (rel lk s) = kend s"
  "freelist (touch s) = freelist s" "kend (touch s) = kend s"
  by (simp_all add: acq_def rel_def pushed_def popped_def touch_def Let_def)

lemma kmem_commute [lock_commute]:
  "rel lk (s\<lparr>freelist := r\<rparr>) = (rel lk s)\<lparr>freelist := r\<rparr>"
  "acq lk (s\<lparr>freelist := r\<rparr>) = (acq lk s)\<lparr>freelist := r\<rparr>"
  "touch (s\<lparr>freelist := r\<rparr>) = (touch s)\<lparr>freelist := r\<rparr>"
  by (simp_all add: rel_def popped_def acq_def pushed_def touch_def Let_def sie_def)

lemma kmem_inv_upd [simp]:
  "cpu_inv (t\<lparr>freelist := r\<rparr>) = cpu_inv t" "lock_free lk (t\<lparr>freelist := r\<rparr>) = lock_free lk t"
  by (simp_all add: cpu_inv_def sie_def lock_free_def)

lemma kfree_run:
  assumes "cpu_inv s" and "lock_free KmemLock s"
  shows "kfree pa s = (if page_ok (kend s) pa
     then Ok () ((touch s)\<lparr>mem := store64 (memset (mem s) pa 1 4096) pa (freelist s), freelist := pa\<rparr>)
     else Panic ''kfree'')"
proof -
  let ?s = "s\<lparr>mem := memset (mem s) pa 1 4096\<rparr>"
  let ?t = "(acq KmemLock ?s)\<lparr>mem := store64 (mem ?s) pa (freelist s), freelist := pa\<rparr>"
  have guard: "page_ok (kend s) pa \<longleftrightarrow> pa mod PGSIZE = 0 \<and> \<not> pa < kend s \<and> \<not> PHYSTOP \<le> pa"
    by (auto simp: page_ok_def aligned_word_mod)
  have "acquire KmemLock ?s = Ok () (acq KmemLock ?s)"
    using assms by (simp add: acquire_free)
  moreover have "release KmemLock ?t = Ok () (rel KmemLock ?t)"
    by (rule release_after [of ?s]) (use assms in \<open>simp_all add: hart_eq_def\<close>)
  moreover have "rel KmemLock ?t
      = (touch s)\<lparr>mem := store64 (memset (mem s) pa 1 4096) pa (freelist s), freelist := pa\<rparr>"
    using assms by (simp add: lock_commute rel_acq)
  ultimately show ?thesis
    unfolding kfree_def by (simp add: kM_simps guard lock_commute)
qed

lemma kalloc_run:
  assumes "cpu_inv s" and "lock_free KmemLock s"
  shows "kalloc s = (if freelist s = 0 then Ok 0 (touch s)
     else Ok (freelist s) ((touch s)\<lparr>freelist := load64 (mem s) (freelist s),
            mem := memset (mem s) (freelist s) 5 4096\<rparr>))"
proof -
  have "acquire KmemLock s = Ok () (acq KmemLock s)" using assms by (simp add: acquire_free)
  moreover have "release KmemLock t = Ok () (rel KmemLock t)"
    if "t = acq KmemLock s \<or> t = (acq KmemLock s)\<lparr>freelist := load64 (mem s) (freelist s)\<rparr>" for t
    by (rule release_after [of s]) (use assms that in \<open>auto simp: hart_eq_def\<close>)
  ultimately show ?thesis
    using assms unfolding kalloc_def
    by (simp add: kM_simps lock_commute rel_acq)
qed


lemma free_list_head: "free_list m r (p # ps) \<Longrightarrow> r = p \<and> r \<noteq> 0"
  by simp

lemma kalloc_cons:
  assumes "kmem_inv s (p # ps)"
  shows "\<exists>t. kalloc s = Ok p t \<and> kmem_inv t ps \<and> kend t = kend s
    \<and> mem t = memset (mem s) p 5 4096"
proof -
  let ?t = "(touch s)\<lparr>freelist := load64 (mem s) p, mem := memset (mem s) p 5 4096\<rparr>"
  have p: "freelist s = p" "p \<noteq> 0" "aligned p" "free_list (mem s) (load64 (mem s) p) ps"
    and inv: "cpu_inv s" "lock_free KmemLock s" "0 < kend s" "p \<notin> set ps" "distinct ps"
      "\<forall>q \<in> set ps. page_ok (kend s) q"
    using assms by (auto simp: kmem_inv_def page_ok_def)
  have "free_list (memset (mem s) p 5 4096) (load64 (mem s) p) ps"
    using p(4) by (subst free_list_other_page [of ps p])
      (use inv p(3) in \<open>auto simp: page_ok_def memset_eq\<close>)
  with inv have "kmem_inv ?t ps" by (simp add: kmem_inv_def)
  moreover have "kalloc s = Ok p ?t" using inv p by (simp add: kalloc_run)
  ultimately show ?thesis by simp
qed

lemma kalloc_nil: "kmem_inv s [] \<Longrightarrow> \<exists>t. kalloc s = Ok 0 t \<and> kmem_inv t [] \<and> kend t = kend s"
  by (auto simp: kalloc_run kmem_inv_def)

lemma kfree_push:
  assumes "kmem_inv s ps" and "page_ok (kend s) p" and "p \<notin> set ps"
  shows "\<exists>t. kfree p s = Ok () t \<and> kmem_inv t (p # ps) \<and> kend t = kend s"
proof -
  let ?m = "store64 (memset (mem s) p 1 4096) p (freelist s)"
  let ?t = "(touch s)\<lparr>mem := ?m, freelist := p\<rparr>"
  have inv: "cpu_inv s" "lock_free KmemLock s" "0 < kend s" "distinct ps"
      "\<forall>q \<in> set ps. page_ok (kend s) q" "free_list (mem s) (freelist s) ps"
    using assms(1) by (auto simp: kmem_inv_def)
  have "free_list ?m (freelist s) ps"
    using inv(6) by (subst free_list_other_page [of ps p])
      (use inv assms in \<open>auto simp: page_ok_def memset_eq store64_def mem_write_outside\<close>)
  then have "kmem_inv ?t (p # ps)"
    using inv assms by (simp add: kmem_inv_def page_ok_nonzero)
  moreover have "kfree p s = Ok () ?t" using inv assms(2) by (simp add: kfree_run)
  ultimately show ?thesis by simp
qed

section \<open>The interface to the rest of the kernel\<close>

text \<open>
  A client of the allocator issues allocations and frees; it frees only pages it was given. The
  contract it relies on is the locale below; \<open>page_client\<close> is the client's run, which returns the
  pages it holds at the end.
\<close>

datatype page_op = PAlloc | PFree u64

fun page_client :: "('s, u64) kM \<Rightarrow> (u64 \<Rightarrow> ('s, unit) kM) \<Rightarrow> page_op list \<Rightarrow> u64 list \<Rightarrow> ('s, u64 list) kM" where
  "page_client alloc free [] own = returnK own"
| "page_client alloc free (PAlloc # ops) own =
     bindK alloc (\<lambda>p. page_client alloc free ops (if p = 0 then own else p # own))"
| "page_client alloc free (PFree p # ops) own =
     (if p \<in> set own then thenK (free p) (page_client alloc free ops (remove1 p own))
      else page_client alloc free ops own)"

locale page_allocator =
  fixes alloc :: "('s, u64) kM"
    and free :: "u64 \<Rightarrow> ('s, unit) kM"
    and inv :: "'s \<Rightarrow> u64 list \<Rightarrow> bool"
    and ok :: "'s \<Rightarrow> u64 \<Rightarrow> bool"
  assumes alloc_cons: "inv s (p # ps) \<Longrightarrow> \<exists>t. alloc s = Ok p t \<and> inv t ps \<and> ok t = ok s"
    and alloc_nil: "inv s [] \<Longrightarrow> \<exists>t. alloc s = Ok 0 t \<and> inv t [] \<and> ok t = ok s"
    and free_push: "inv s ps \<Longrightarrow> ok s p \<Longrightarrow> p \<notin> set ps \<Longrightarrow>
      \<exists>t. free p s = Ok () t \<and> inv t (p # ps) \<and> ok t = ok s"
    and inv_ok: "inv s ps \<Longrightarrow> p \<in> set ps \<Longrightarrow> ok s p \<and> p \<noteq> 0"
    and inv_distinct: "inv s ps \<Longrightarrow> distinct ps"
begin

lemma client_conserves:
  assumes "inv s ps" and "distinct (own @ ps)" and "\<forall>p \<in> set own. ok s p"
  shows "\<exists>own' t qs. page_client alloc free ops own s = Ok own' t \<and> inv t qs \<and>
    distinct (own' @ qs) \<and> set (own' @ qs) = set (own @ ps)"
  using assms
proof (induction ops arbitrary: own s ps)
  case Nil
  then show ?case by (auto simp: kM_simps)
next
  case (Cons op ops)
  show ?case
  proof (cases op)
    case PAlloc
    show ?thesis
    proof (cases ps)
      case Nil
      then obtain t where t: "alloc s = Ok 0 t" "inv t []" "ok t = ok s"
        using alloc_nil Cons.prems(1) by blast
      with Cons.IH [of t "[]" own] Cons.prems Nil PAlloc show ?thesis by (simp add: kM_simps)
    next
      fix p qs assume ps: "ps = p # qs"
      then obtain t where t: "alloc s = Ok p t" "inv t qs" "ok t = ok s"
        using alloc_cons Cons.prems(1) by blast
      have p: "ok s p" "p \<noteq> 0" using inv_ok [OF Cons.prems(1)] ps by auto
      have "distinct ((p # own) @ qs)" "\<forall>q \<in> set (p # own). ok t q"
        using Cons.prems(2,3) ps p t(3) by auto
      from Cons.IH [OF t(2) this] t(1) p(2) show ?thesis by (simp add: PAlloc ps kM_simps)
    qed
  next
    case (PFree p)
    show ?thesis
    proof (cases "p \<in> set own")
      case True
      then obtain t where t: "free p s = Ok () t" "inv t (p # ps)" "ok t = ok s"
        using free_push [OF Cons.prems(1), of p] Cons.prems(2,3) by auto
      have "distinct (remove1 p own @ p # ps)" "\<forall>q \<in> set (remove1 p own). ok t q"
        using Cons.prems(2,3) t(3) True by auto
      moreover have "set (remove1 p own @ p # ps) = set (own @ ps)"
        using Cons.prems(2) True by auto
      ultimately show ?thesis
        using Cons.IH [OF t(2), of "remove1 p own"] t(1) True
        by (simp only: PFree page_client.simps if_True thenK_def bindK_def bindO.simps)
    next
      case False
      with Cons.IH [OF Cons.prems] PFree show ?thesis by simp
    qed
  qed
qed

lemma alloc_free:
  assumes "inv s (p # ps)"
  shows "\<exists>t. bindK alloc free s = Ok () t \<and> inv t (p # ps)"
proof -
  obtain t where t: "alloc s = Ok p t" "inv t ps" "ok t = ok s" using alloc_cons [OF assms] by blast
  moreover have "p \<notin> set ps" "ok s p" using inv_distinct [OF assms] inv_ok [OF assms] by auto
  ultimately show ?thesis using free_push [of t ps p] by (auto simp: kM_simps)
qed

end

interpretation kmem: page_allocator kalloc kfree kmem_inv "\<lambda>s. page_ok (kend s)"
proof unfold_locales
  fix s :: "'a kmem_state_scheme" and p ps
  show "kmem_inv s (p # ps) \<Longrightarrow> \<exists>t. kalloc s = Ok p t \<and> kmem_inv t ps \<and> page_ok (kend t) = page_ok (kend s)"
    using kalloc_cons [of s p ps] by auto
  show "kmem_inv s [] \<Longrightarrow> \<exists>t. kalloc s = Ok 0 t \<and> kmem_inv t [] \<and> page_ok (kend t) = page_ok (kend s)"
    using kalloc_nil [of s] by auto
  show "kmem_inv s ps \<Longrightarrow> page_ok (kend s) p \<Longrightarrow> p \<notin> set ps \<Longrightarrow>
    \<exists>t. kfree p s = Ok () t \<and> kmem_inv t (p # ps) \<and> page_ok (kend t) = page_ok (kend s)"
    using kfree_push [of s ps p] by auto
  show "kmem_inv s ps \<Longrightarrow> p \<in> set ps \<Longrightarrow> page_ok (kend s) p \<and> p \<noteq> 0"
    using page_ok_nonzero by (auto simp: kmem_inv_def)
  show "kmem_inv s ps \<Longrightarrow> distinct ps"
    by (simp add: kmem_inv_def)
qed


section \<open>Boot: every page of physical memory goes on the list once\<close>

lemma unat_PHYSTOP: "unat PHYSTOP = 4096 * 557056"
  by (simp add: PHYSTOP_def KERNBASE_def)

lemma aligned_step:
  assumes "aligned p" and "p < PHYSTOP"
  shows "unat (p + PGSIZE) = unat p + 4096" and "aligned (p + PGSIZE)" and "p + PGSIZE \<le> PHYSTOP"
proof -
  obtain k where k: "unat p = 4096 * k" using assms(1) by (rule alignedE)
  have "k < 557056" using assms(2) k by (simp add: word_less_nat_alt unat_PHYSTOP)
  with k show 1: "unat (p + PGSIZE) = unat p + 4096"
    by (simp add: PGSIZE_def unat_word_ariths)
  show "aligned (p + PGSIZE)" using k by (simp add: aligned_def 1)
  show "p + PGSIZE \<le> PHYSTOP"
    using k \<open>k < 557056\<close> by (simp add: word_le_nat_alt 1 unat_PHYSTOP)
qed

lemma aligned_next:
  assumes "aligned p" "aligned q" "p < PHYSTOP"
  shows "p + PGSIZE \<le> q \<longleftrightarrow> p < q"
proof -
  obtain k l where "unat p = 4096 * k" "unat q = 4096 * l" using assms by (meson alignedE)
  with aligned_step(1) [OF assms(1,3)] show ?thesis
    by (auto simp: word_le_nat_alt word_less_nat_alt)
qed

lemma freerange_loop_all:
  assumes "kmem_inv s ps" and "aligned p" and "p \<le> PHYSTOP" and "kend s \<le> p"
    and "\<forall>q \<in> set ps. q < p"
  shows "\<exists>t qs. freerange_loop p PHYSTOP s = Ok () t \<and> kmem_inv t qs \<and> kend t = kend s \<and>
    set qs = set ps \<union> {q. aligned q \<and> p \<le> q \<and> q < PHYSTOP}"
  using assms
proof (induction p "PHYSTOP :: u64" arbitrary: s ps rule: freerange_loop.induct)
  case (1 p)
  show ?case
  proof (cases "p < PHYSTOP")
    case True
    note st = aligned_step [OF "1.prems"(2) True]
    have nowrap: "\<not> p + PGSIZE < p" by (simp add: word_less_nat_alt st(1))
    have lt: "p < p + PGSIZE" by (simp add: word_less_nat_alt st(1))
    have "page_ok (kend s) p" "p \<notin> set ps" using "1.prems" True by (auto simp: page_ok_def)
    then obtain t where t: "kfree p s = Ok () t" "kmem_inv t (p # ps)" "kend t = kend s"
      using kfree_push "1.prems"(1) by blast
    moreover have "\<forall>q \<in> set (p # ps). q < p + PGSIZE" using "1.prems"(5) lt by auto
    moreover have "kend s \<le> p + PGSIZE" using "1.prems"(4) lt by simp
    ultimately obtain u qs where u: "freerange_loop (p + PGSIZE) PHYSTOP t = Ok () u" "kmem_inv u qs"
        "kend u = kend s" "set qs = set (p # ps) \<union> {q. aligned q \<and> p + PGSIZE \<le> q \<and> q < PHYSTOP}"
      using "1.hyps" [OF nowrap st(3) t(2) st(2,3)] by auto
    have "set qs = set ps \<union> {q. aligned q \<and> p \<le> q \<and> q < PHYSTOP}"
      using u(4) aligned_next [OF "1.prems"(2) _ True] "1.prems"(2) True by (auto simp: order_le_less)
    moreover have "freerange_loop p PHYSTOP s = Ok () u"
      using nowrap st(3) t(1) u(1) by (simp add: freerange_loop.simps [of p] kM_simps)
    ultimately show ?thesis using u(2,3) by blast
  next
    case False
    then have p: "p = PHYSTOP" using "1.prems"(3) by simp
    have "freerange_loop p PHYSTOP s = Ok () s"
      unfolding p by (subst freerange_loop.simps) (simp add: kM_simps PGSIZE_def PHYSTOP_def KERNBASE_def)
    with "1.prems"(1) p show ?thesis by (auto simp: not_less)
  qed
qed

lemma PGROUNDUP_least:
  assumes "a \<le> PHYSTOP"
  shows "aligned (PGROUNDUP a)" "PGROUNDUP a \<le> PHYSTOP" "aligned q \<Longrightarrow> PGROUNDUP a \<le> q \<longleftrightarrow> a \<le> q"
proof -
  define k where "k = (unat a + 4095) div 4096"
  have le: "unat a \<le> 4096 * 557056" using assms by (simp add: word_le_nat_alt unat_PHYSTOP)
  then have r: "unat (PGROUNDUP a) = 4096 * k" by (simp add: unat_PGROUNDUP k_def)
  have b: "unat a \<le> 4096 * k" "4096 * k < unat a + 4096" unfolding k_def by simp_all
  show "aligned (PGROUNDUP a)" by (simp add: aligned_def r)
  show "PGROUNDUP a \<le> PHYSTOP" using le b by (simp add: word_le_nat_alt r unat_PHYSTOP)
  show "PGROUNDUP a \<le> q \<longleftrightarrow> a \<le> q" if q: "aligned q"
  proof -
    obtain l where "unat q = 4096 * l" using q by (rule alignedE)
    with b show ?thesis by (auto simp: word_le_nat_alt r)
  qed
qed

text \<open>
  C27. \<^verbatim>\<open>kinit\<close> (kalloc.c) run at boot, with an empty free list, terminates and leaves a well-formed
  free list holding every aligned page from \<^verbatim>\<open>end\<close> up to \<^verbatim>\<open>PHYSTOP\<close>, each exactly once.
\<close>
theorem kinit_all_pages:
  assumes "cpu_inv s" and "freelist s = 0" and "0 < kend s" and "kend s \<le> PHYSTOP"
  shows "\<exists>t ps. kinit s = Ok () t \<and> kmem_inv t ps \<and> distinct ps \<and> set ps = {p. page_ok (kend s) p}"
proof -
  obtain s' where s': "initlock KmemLock ''kmem'' s = Ok () s'" "cpu_inv s'" "lock_free KmemLock s'"
      "freelist s' = 0" "kend s' = kend s"
    using assms(1,2) by (simp add: initlock_def kM_simps cpu_inv_def sie_def lock_free_def)
  then have "kmem_inv s' []" using assms(3) by (simp add: kmem_inv_def)
  moreover note r = PGROUNDUP_least [OF assms(4)]
  moreover have "kend s' \<le> PGROUNDUP (kend s)" using r(3) [OF r(1)] s'(5) by simp
  ultimately obtain t ps where "freerange_loop (PGROUNDUP (kend s)) PHYSTOP s' = Ok () t"
      "kmem_inv t ps" "set ps = {q. aligned q \<and> PGROUNDUP (kend s) \<le> q \<and> q < PHYSTOP}"
    using freerange_loop_all [of s' "[]" "PGROUNDUP (kend s)"] by auto
  moreover have "{q. aligned q \<and> PGROUNDUP (kend s) \<le> q \<and> q < PHYSTOP} = {p. page_ok (kend s) p}"
    using r(3) by (auto simp: page_ok_def)
  ultimately show ?thesis
    using s'(1,5) by (auto simp: kinit_def freerange_def kM_simps dest: kmem.inv_distinct)
qed

definition kmem0 :: kmem_state where
  "kmem0 = kstate.extend k0 (kmem_state.fields (PHYSTOP - 8192) 0)"

theorem kinit_all_pages_witness:
  "\<exists>t ps. kinit kmem0 = Ok () t \<and> kmem_inv t ps \<and> distinct ps \<and> set ps = {p. page_ok (kend kmem0) p}"
  by (rule kinit_all_pages)
    (simp_all add: kmem0_def kmem_state.defs kstate.defs k0_def cpu_inv_def sie_def PHYSTOP_def KERNBASE_def)

text \<open>
  C4. Whatever sequence of \<^verbatim>\<open>kalloc\<close> and \<^verbatim>\<open>kfree\<close> calls a client issues, freeing only pages it holds,
  no call panics or hangs, no page is ever held twice or held while it is on the free list, and no page
  is lost: held and free pages together are always the same set.
\<close>
theorem kalloc_kfree_conserve:
  assumes "kmem_inv s ps" and "distinct (own @ ps)" and "\<forall>p \<in> set own. page_ok (kend s) p"
  shows "\<exists>own' t qs. page_client kalloc kfree ops own s = Ok own' t \<and> kmem_inv t qs \<and>
    distinct (own' @ qs) \<and> set (own' @ qs) = set (own @ ps)"
  using assms by (rule kmem.client_conserves)

theorem kalloc_kfree_conserve_witness:
  "\<exists>own' t qs. page_client kalloc kfree [PAlloc, PFree (PHYSTOP - 4096), PAlloc] [PHYSTOP - 4096] kmem0
     = Ok own' t \<and> kmem_inv t qs \<and> distinct (own' @ qs) \<and> set (own' @ qs) = set ([PHYSTOP - 4096] @ [])"
  by (rule kalloc_kfree_conserve)
    (simp_all add: kmem0_def kmem_state.defs kstate.defs k0_def kmem_inv_def cpu_inv_def sie_def
      lock_free_def page_ok_def aligned_def PHYSTOP_def KERNBASE_def)

end
