(* ===== verification/Vm.thy ===== *)
theory Vm
  imports Kalloc
begin

text \<open>
  \<^verbatim>\<open>kernel/vm.c\<close>: the Sv39 page tables. The tables live in physical memory, three levels of pages of
  512 64-bit entries; \<^verbatim>\<open>walk\<close> reads and extends them there. This theory holds the translation of the
  routines; the properties are in \<open>Vm_Tree\<close>, \<open>Vm_Map\<close> and \<open>Vm_Copy\<close>.

  Page-table permissions (\<^verbatim>\<open>int perm\<close>, always a set of the \<^verbatim>\<open>PTE_\<close> bits) are 64-bit words here. The
  kernel side of \<^verbatim>\<open>copyout\<close>, \<^verbatim>\<open>copyin\<close> and \<^verbatim>\<open>copyinstr\<close> is the list of bytes that is read or written
  there: the callers' buffers are kernel objects that do not overlap user pages.
  \<open>etext\<close> and \<open>trampoline\<close> are addresses the linker fixes; \<open>satp\<close> is each hart's page-table register.
\<close>

record vm_state = kmem_state +
  kernel_pagetable :: u64
  satp :: "nat \<Rightarrow> u64"
  etext :: u64
  trampoline :: u64

section \<open>Walking the tables\<close>

definition loadK :: "u64 \<Rightarrow> ('a kstate_scheme, u64) kM" where
  "loadK a = getsK (\<lambda>s. load64 (mem s) a)"

definition storeK :: "u64 \<Rightarrow> u64 \<Rightarrow> ('a kstate_scheme, unit) kM" where
  "storeK a v = modifyK (\<lambda>s. s\<lparr>mem := store64 (mem s) a v\<rparr>)"

definition memsetK :: "u64 \<Rightarrow> i32 \<Rightarrow> u64 \<Rightarrow> ('a kstate_scheme, unit) kM" where
  "memsetK a c n = modifyK (\<lambda>s. s\<lparr>mem := memset (mem s) a c (ucast n)\<rparr>)"

text \<open>\<open>&pagetable[PX(level, va)]\<close>\<close>

definition pte_addr :: "u64 \<Rightarrow> nat \<Rightarrow> u64 \<Rightarrow> u64" where
  "pte_addr pagetable level va = pagetable + 8 * PX level va"

text \<open>The loop over \<^verbatim>\<open>level\<close>, from \<^verbatim>\<open>level\<close> down to 1; a null pointer is returned as 0.\<close>

fun walk_loop :: "nat \<Rightarrow> u64 \<Rightarrow> u64 \<Rightarrow> bool \<Rightarrow> ('a kmem_state_scheme, u64) kM" where
  "walk_loop 0 pagetable va alloc = returnK (pte_addr pagetable 0 va)"
| "walk_loop (Suc l) pagetable va alloc =
     (let pte = pte_addr pagetable (Suc l) va in
      bindK (loadK pte) (\<lambda>e.
      if e AND PTE_V \<noteq> 0 then walk_loop l (PTE2PA e) va alloc
      else if \<not> alloc then returnK 0
      else bindK kalloc (\<lambda>page.
        if page = 0 then returnK 0
        else thenK (memsetK page 0 PGSIZE) (
          thenK (storeK pte (PA2PTE page OR PTE_V)) (
          walk_loop l page va alloc)))))"

definition walk :: "u64 \<Rightarrow> u64 \<Rightarrow> bool \<Rightarrow> ('a kmem_state_scheme, u64) kM" where
  "walk pagetable va alloc =
     (if MAXVA \<le> va then panicK ''walk'' else walk_loop 2 pagetable va alloc)"

definition walkaddr :: "u64 \<Rightarrow> u64 \<Rightarrow> ('a kmem_state_scheme, u64) kM" where
  "walkaddr pagetable va =
     (if MAXVA \<le> va then returnK 0 else
      bindK (walk pagetable va False) (\<lambda>pte.
      if pte = 0 then returnK 0 else
      bindK (loadK pte) (\<lambda>e.
      if e AND PTE_V = 0 then returnK 0 else
      if e AND PTE_U = 0 then returnK 0 else
      returnK (PTE2PA e))))"

section \<open>Mapping and unmapping\<close>

text \<open>
  The \<^verbatim>\<open>for(;;)\<close> loop of \<^verbatim>\<open>mappages\<close>. It cannot run past \<^verbatim>\<open>MAXVA\<close>, because \<^verbatim>\<open>walk\<close> panics there; the
  explicit test repeats that panic, so that the recursion visibly ends. Likewise below.
\<close>

lemma next_page_less: "a < MAXVA \<Longrightarrow> unat a < unat (a + PGSIZE)" "a < MAXVA \<Longrightarrow> unat a < 2 ^ 38"
proof -
  assume "a < MAXVA"
  then show "unat a < 2 ^ 38" by (simp add: MAXVA_def word_less_nat_alt)
  then show "unat a < unat (a + PGSIZE)" by (simp add: PGSIZE_def unat_word_ariths)
qed

function mappages_loop :: "u64 \<Rightarrow> u64 \<Rightarrow> u64 \<Rightarrow> u64 \<Rightarrow> u64 \<Rightarrow> ('a kmem_state_scheme, int) kM" where
  "mappages_loop pagetable a alast pa perm =
     bindK (walk pagetable a True) (\<lambda>pte.
     if pte = 0 then returnK (-1) else
     bindK (loadK pte) (\<lambda>e.
     if e AND PTE_V \<noteq> 0 then panicK ''mappages: remap'' else
     thenK (storeK pte (PA2PTE pa OR perm OR PTE_V)) (
     if a = alast then returnK 0
     else if a < MAXVA then mappages_loop pagetable (a + PGSIZE) alast (pa + PGSIZE) perm
     else panicK ''walk'')))"
  by pat_completeness auto
termination
  by (relation "measure (\<lambda>(_, a, _). 2 ^ 39 - unat a)") (use next_page_less in \<open>fastforce simp: diff_less_mono2\<close>)+

declare mappages_loop.simps [simp del]

definition mappages :: "u64 \<Rightarrow> u64 \<Rightarrow> u64 \<Rightarrow> u64 \<Rightarrow> u64 \<Rightarrow> ('a kmem_state_scheme, int) kM" where
  "mappages pagetable va sz pa perm =
     (if va mod PGSIZE \<noteq> 0 then panicK ''mappages: va not aligned''
      else if sz mod PGSIZE \<noteq> 0 then panicK ''mappages: size not aligned''
      else if sz = 0 then panicK ''mappages: size''
      else mappages_loop pagetable va (va + sz - PGSIZE) pa perm)"

definition kvmmap :: "u64 \<Rightarrow> u64 \<Rightarrow> u64 \<Rightarrow> u64 \<Rightarrow> u64 \<Rightarrow> ('a kmem_state_scheme, unit) kM" where
  "kvmmap kpgtbl va pa sz perm =
     bindK (mappages kpgtbl va sz pa perm) (\<lambda>r. if r \<noteq> 0 then panicK ''kvmmap'' else returnK ())"

function uvmunmap_loop :: "u64 \<Rightarrow> u64 \<Rightarrow> u64 \<Rightarrow> bool \<Rightarrow> ('a kmem_state_scheme, unit) kM" where
  "uvmunmap_loop pagetable a aend do_free =
     (if \<not> a < aend then returnK () else
      bindK (walk pagetable a False) (\<lambda>pte.
      if pte = 0 then panicK ''uvmunmap: walk'' else
      bindK (loadK pte) (\<lambda>e.
      if e AND PTE_V = 0 then panicK ''uvmunmap: not mapped'' else
      if PTE_FLAGS e = PTE_V then panicK ''uvmunmap: not a leaf'' else
      thenK (whenK do_free (kfree (PTE2PA e))) (
      thenK (storeK pte 0) (
      if a < MAXVA then uvmunmap_loop pagetable (a + PGSIZE) aend do_free
      else panicK ''walk'')))))"
  by pat_completeness auto
termination
  by (relation "measure (\<lambda>(_, a, _). 2 ^ 39 - unat a)") (use next_page_less in \<open>fastforce simp: diff_less_mono2\<close>)+

declare uvmunmap_loop.simps [simp del]

definition uvmunmap :: "u64 \<Rightarrow> u64 \<Rightarrow> u64 \<Rightarrow> bool \<Rightarrow> ('a kmem_state_scheme, unit) kM" where
  "uvmunmap pagetable va npages do_free =
     (if va mod PGSIZE \<noteq> 0 then panicK ''uvmunmap: not aligned''
      else uvmunmap_loop pagetable va (va + npages * PGSIZE) do_free)"


section \<open>User address spaces\<close>

definition uvmcreate :: "('a kmem_state_scheme, u64) kM" where
  "uvmcreate =
     bindK kalloc (\<lambda>pagetable.
     if pagetable = 0 then returnK 0 else
     thenK (memsetK pagetable 0 PGSIZE) (
     returnK pagetable))"

definition uvmfirst :: "u64 \<Rightarrow> u8 list \<Rightarrow> ('a kmem_state_scheme, unit) kM" where
  "uvmfirst pagetable src =
     (if 4096 \<le> length src then panicK ''uvmfirst: more than a page'' else
      bindK kalloc (\<lambda>pg.
      thenK (memsetK pg 0 PGSIZE) (
      bindK (mappages pagetable 0 PGSIZE pg (PTE_W OR PTE_R OR PTE_X OR PTE_U)) (\<lambda>_.
      modifyK (\<lambda>s. s\<lparr>mem := mem_write (mem s) pg src\<rparr>)))))"

text \<open>\<^verbatim>\<open>int npages = ...\<close>, later converted to \<^verbatim>\<open>uint64\<close>.\<close>

definition through_int :: "u64 \<Rightarrow> u64" where
  "through_int x = scast (ucast x :: i32)"

definition uvmdealloc :: "u64 \<Rightarrow> u64 \<Rightarrow> u64 \<Rightarrow> ('a kmem_state_scheme, u64) kM" where
  "uvmdealloc pagetable oldsz newsz =
     (if oldsz \<le> newsz then returnK oldsz else
      thenK (whenK (PGROUNDUP newsz < PGROUNDUP oldsz)
        (uvmunmap pagetable (PGROUNDUP newsz) (through_int ((PGROUNDUP oldsz - PGROUNDUP newsz) div PGSIZE)) True)) (
      returnK newsz))"

function uvmalloc_loop :: "u64 \<Rightarrow> u64 \<Rightarrow> u64 \<Rightarrow> u64 \<Rightarrow> u64 \<Rightarrow> ('a kmem_state_scheme, u64) kM" where
  "uvmalloc_loop pagetable a oldsz newsz xperm =
     (if \<not> a < newsz then returnK newsz else
      bindK kalloc (\<lambda>pg.
      if pg = 0 then bindK (uvmdealloc pagetable a oldsz) (\<lambda>_. returnK 0) else
      thenK (memsetK pg 0 PGSIZE) (
      bindK (mappages pagetable a PGSIZE pg (PTE_R OR PTE_U OR xperm)) (\<lambda>r.
      if r \<noteq> 0 then
        thenK (kfree pg) (bindK (uvmdealloc pagetable a oldsz) (\<lambda>_. returnK 0))
      else if a < MAXVA then uvmalloc_loop pagetable (a + PGSIZE) oldsz newsz xperm
      else panicK ''walk''))))"
  by pat_completeness auto
termination
  by (relation "measure (\<lambda>(_, a, _). 2 ^ 39 - unat a)") (use next_page_less in \<open>fastforce simp: diff_less_mono2\<close>)+

declare uvmalloc_loop.simps [simp del]

definition uvmalloc :: "u64 \<Rightarrow> u64 \<Rightarrow> u64 \<Rightarrow> u64 \<Rightarrow> ('a kmem_state_scheme, u64) kM" where
  "uvmalloc pagetable oldsz newsz xperm =
     (if newsz < oldsz then returnK oldsz else
      uvmalloc_loop pagetable (PGROUNDUP oldsz) (PGROUNDUP oldsz) newsz xperm)"

text \<open>
  \<^verbatim>\<open>freewalk\<close> recurses into every valid entry without permissions. \<open>d\<close> bounds the depth of the
  recursion: a Sv39 tree has three levels of tables.
\<close>

fun freewalk_depth :: "nat \<Rightarrow> u64 \<Rightarrow> ('a kmem_state_scheme, unit) kM" where
  "freewalk_depth 0 pagetable = spinK"
| "freewalk_depth (Suc d) pagetable =
     thenK (forK [0..<512] (\<lambda>i.
       bindK (loadK (pagetable + 8 * of_nat i)) (\<lambda>pte.
       if pte AND PTE_V \<noteq> 0 \<and> pte AND (PTE_R OR PTE_W OR PTE_X) = 0 then
         thenK (freewalk_depth d (PTE2PA pte)) (
         storeK (pagetable + 8 * of_nat i) 0)
       else if pte AND PTE_V \<noteq> 0 then panicK ''freewalk: leaf''
       else returnK ())))
     (kfree pagetable)"

definition freewalk :: "u64 \<Rightarrow> ('a kmem_state_scheme, unit) kM" where
  "freewalk = freewalk_depth 3"

definition uvmfree :: "u64 \<Rightarrow> u64 \<Rightarrow> ('a kmem_state_scheme, unit) kM" where
  "uvmfree pagetable sz =
     thenK (whenK (0 < sz) (uvmunmap pagetable 0 (PGROUNDUP sz div PGSIZE) True)) (
     freewalk pagetable)"

function uvmcopy_loop :: "u64 \<Rightarrow> u64 \<Rightarrow> u64 \<Rightarrow> u64 \<Rightarrow> ('a kmem_state_scheme, int) kM" where
  "uvmcopy_loop old new i sz =
     (if \<not> i < sz then returnK 0 else
      bindK (walk old i False) (\<lambda>pte.
      if pte = 0 then panicK ''uvmcopy: pte should exist'' else
      bindK (loadK pte) (\<lambda>e.
      if e AND PTE_V = 0 then panicK ''uvmcopy: page not present'' else
      bindK kalloc (\<lambda>pg.
      if pg = 0 then thenK (uvmunmap new 0 (i div PGSIZE) True) (returnK (-1)) else
      thenK (modifyK (\<lambda>s. s\<lparr>mem := memmove (mem s) pg (PTE2PA e) (ucast PGSIZE)\<rparr>)) (
      bindK (mappages new i PGSIZE pg (PTE_FLAGS e)) (\<lambda>r.
      if r \<noteq> 0 then
        thenK (kfree pg) (thenK (uvmunmap new 0 (i div PGSIZE) True) (returnK (-1)))
      else if i < MAXVA then uvmcopy_loop old new (i + PGSIZE) sz
      else panicK ''walk''))))))"
  by pat_completeness auto
termination
  by (relation "measure (\<lambda>(_, _, a, _). 2 ^ 39 - unat a)") (use next_page_less in \<open>fastforce simp: diff_less_mono2\<close>)+

declare uvmcopy_loop.simps [simp del]

definition uvmcopy :: "u64 \<Rightarrow> u64 \<Rightarrow> u64 \<Rightarrow> ('a kmem_state_scheme, int) kM" where
  "uvmcopy old new sz = uvmcopy_loop old new 0 sz"

definition uvmclear :: "u64 \<Rightarrow> u64 \<Rightarrow> ('a kmem_state_scheme, unit) kM" where
  "uvmclear pagetable va =
     bindK (walk pagetable va False) (\<lambda>pte.
     if pte = 0 then panicK ''uvmclear'' else
     bindK (loadK pte) (\<lambda>e. storeK pte (e AND NOT PTE_U)))"

section \<open>The kernel's own table\<close>

definition proc_mapstacks :: "u64 \<Rightarrow> ('a kmem_state_scheme, unit) kM" where
  "proc_mapstacks kpgtbl =
     forK [0..<NPROC] (\<lambda>p.
       bindK kalloc (\<lambda>pa.
       if pa = 0 then panicK ''kalloc'' else
       kvmmap kpgtbl (KSTACK p) pa PGSIZE (PTE_R OR PTE_W)))"

definition kvmmake :: "('a vm_state_scheme, u64) kM" where
  "kvmmake =
     bindK kalloc (\<lambda>kpgtbl.
     thenK (memsetK kpgtbl 0 PGSIZE) (
     thenK (kvmmap kpgtbl UART0 UART0 PGSIZE (PTE_R OR PTE_W)) (
     thenK (kvmmap kpgtbl VIRTIO0 VIRTIO0 PGSIZE (PTE_R OR PTE_W)) (
     thenK (kvmmap kpgtbl PLIC PLIC 0x400000 (PTE_R OR PTE_W)) (
     bindK (getsK etext) (\<lambda>et.
     thenK (kvmmap kpgtbl KERNBASE KERNBASE (et - KERNBASE) (PTE_R OR PTE_X)) (
     thenK (kvmmap kpgtbl et et (PHYSTOP - et) (PTE_R OR PTE_W)) (
     bindK (getsK trampoline) (\<lambda>tr.
     thenK (kvmmap kpgtbl TRAMPOLINE tr PGSIZE (PTE_R OR PTE_X)) (
     thenK (proc_mapstacks kpgtbl) (
     returnK kpgtbl)))))))))))"

definition kvminit :: "('a vm_state_scheme, unit) kM" where
  "kvminit = bindK kvmmake (\<lambda>pt. modifyK (\<lambda>s. s\<lparr>kernel_pagetable := pt\<rparr>))"

definition kvminithart :: "('a vm_state_scheme, unit) kM" where
  "kvminithart = modifyK (\<lambda>s. s\<lparr>satp := (satp s)(tp s := MAKE_SATP (kernel_pagetable s))\<rparr>)"

section \<open>Copying between user and kernel\<close>

text \<open>The number of bytes up to the end of the page, at most \<open>len\<close>.\<close>

definition chunk :: "u64 \<Rightarrow> nat \<Rightarrow> nat" where
  "chunk va len = min (unat (PGSIZE - (va - PGROUNDDOWN va))) len"

lemma page_offset_less: "unat (va - PGROUNDDOWN va) < 4096"
proof -
  have "unat (va - PGROUNDDOWN va) = unat va - unat (PGROUNDDOWN va)"
    using PGROUNDDOWN_le by (simp add: unat_sub)
  also have "\<dots> = unat va mod 4096" by (simp add: unat_PGROUNDDOWN minus_div_mult_eq_mod)
  finally show ?thesis by simp
qed

lemma chunk_room: "unat (PGSIZE - (va - PGROUNDDOWN va)) = 4096 - unat (va - PGROUNDDOWN va)"
  using page_offset_less [of va] by (simp add: PGSIZE_def unat_sub word_le_nat_alt)

lemma chunk_pos: "0 < len \<Longrightarrow> 0 < chunk va len" "chunk va len \<le> len"
  using page_offset_less [of va] by (simp_all add: chunk_def chunk_room)

function copyout :: "u64 \<Rightarrow> u64 \<Rightarrow> u8 list \<Rightarrow> ('a kmem_state_scheme, int) kM" where
  "copyout pagetable dstva src =
     (if src = [] then returnK 0 else
      let va0 = PGROUNDDOWN dstva in
      if MAXVA \<le> va0 then returnK (-1) else
      bindK (walk pagetable va0 False) (\<lambda>pte.
      if pte = 0 then returnK (-1) else
      bindK (loadK pte) (\<lambda>e.
      if e AND PTE_V = 0 \<or> e AND PTE_U = 0 \<or> e AND PTE_W = 0 then returnK (-1) else
      let n = chunk dstva (length src) in
      thenK (modifyK (\<lambda>s. s\<lparr>mem := mem_write (mem s) (PTE2PA e + (dstva - va0)) (take n src)\<rparr>)) (
      copyout pagetable (va0 + PGSIZE) (drop n src)))))"
  by pat_completeness auto
termination
  by (relation "measure (\<lambda>(_, _, src). length src)") (auto simp: chunk_pos)

declare copyout.simps [simp del]

text \<open>The second component of the result is what has been copied to \<^verbatim>\<open>dst\<close>.\<close>

function copyin :: "u64 \<Rightarrow> u64 \<Rightarrow> nat \<Rightarrow> ('a kmem_state_scheme, int \<times> u8 list) kM" where
  "copyin pagetable srcva len =
     (if len = 0 then returnK (0, []) else
      let va0 = PGROUNDDOWN srcva in
      bindK (walkaddr pagetable va0) (\<lambda>pa0.
      if pa0 = 0 then returnK (-1, []) else
      let n = chunk srcva len in
      bindK (getsK (\<lambda>s. mem_read (mem s) (pa0 + (srcva - va0)) n)) (\<lambda>bs.
      bindK (copyin pagetable (va0 + PGSIZE) (len - n)) (\<lambda>(r, rest).
      returnK (r, bs @ rest)))))"
  by pat_completeness auto
termination
  by (relation "measure (\<lambda>(_, _, len). len)") (auto simp: chunk_pos)

declare copyin.simps [simp del]

text \<open>The inner loop of \<^verbatim>\<open>copyinstr\<close>: copy up to \<open>n\<close> bytes, stop after a NUL.\<close>

fun copyinstr_page :: "memory \<Rightarrow> u64 \<Rightarrow> nat \<Rightarrow> bool \<times> u8 list" where
  "copyinstr_page m p 0 = (False, [])"
| "copyinstr_page m p (Suc n) =
     (if m p = 0 then (True, [0])
      else let (got_null, bs) = copyinstr_page m (p + 1) n in (got_null, m p # bs))"

function copyinstr :: "u64 \<Rightarrow> u64 \<Rightarrow> nat \<Rightarrow> ('a kmem_state_scheme, int \<times> u8 list) kM" where
  "copyinstr pagetable srcva mx =
     (if mx = 0 then returnK (-1, []) else
      let va0 = PGROUNDDOWN srcva in
      bindK (walkaddr pagetable va0) (\<lambda>pa0.
      if pa0 = 0 then returnK (-1, []) else
      let n = chunk srcva mx in
      bindK (getsK (\<lambda>s. copyinstr_page (mem s) (pa0 + (srcva - va0)) n)) (\<lambda>(got_null, bs).
      if got_null then returnK (0, bs) else
      bindK (copyinstr pagetable (va0 + PGSIZE) (mx - n)) (\<lambda>(r, rest).
      returnK (r, bs @ rest)))))"
  by pat_completeness auto
termination
  by (relation "measure (\<lambda>(_, _, mx). mx)") (auto simp: chunk_pos)

declare copyinstr.simps [simp del]

end
