(* ===== verification/Ring.thy ===== *)
theory Ring
  imports Prelude
begin

text \<open>
  Ring buffers with free-running indices: a buffer of \<open>N\<close> slots, a read index \<open>r\<close> and a write index \<open>w\<close> that only
  grow, wrap around at the width of the machine word and are reduced modulo \<open>N\<close> to address a slot. The console, the
  UART and the pipes of the kernel all use this scheme. The contents of the buffer are a list, and the operations on
  the indices are the operations of a bounded queue on that list.
\<close>

definition ring_at :: "'l::len word \<Rightarrow> 'l word \<Rightarrow> nat" where
  "ring_at N i = unat (i mod N)"

definition ring_contents :: "'l::len word \<Rightarrow> 'a list \<Rightarrow> 'l word \<Rightarrow> 'l word \<Rightarrow> 'a list" where
  "ring_contents N buf r w = map (\<lambda>i. buf ! ring_at N (r + of_nat i)) [0..<unat (w - r)]"

definition ring_ok :: "'l::len word \<Rightarrow> 'a list \<Rightarrow> 'l word \<Rightarrow> 'l word \<Rightarrow> bool" where
  "ring_ok N buf r w \<longleftrightarrow> length buf = unat N \<and> unat (w - r) \<le> unat N"

lemma length_ring_contents [simp]: "length (ring_contents N buf r w) = unat (w - r)"
  by (simp add: ring_contents_def)

lemma ring_empty: "ring_contents N buf r w = [] \<longleftrightarrow> w = r"
  by (auto simp: ring_contents_def unat_eq_zero)

lemma ring_split:
  assumes "unat (m - r) + unat (w - m) = unat (w - r)"
  shows "ring_contents N buf r w = ring_contents N buf r m @ ring_contents N buf m w"
proof (rule nth_equalityI)
  fix i assume "i < length (ring_contents N buf r w)"
  then have i: "i < unat (w - r)" by simp
  show "ring_contents N buf r w ! i = (ring_contents N buf r m @ ring_contents N buf m w) ! i"
  proof (cases "i < unat (m - r)")
    case False
    have "m + of_nat (i - unat (m - r)) = r + of_nat i" using False by (simp add: of_nat_diff)
    then show ?thesis using False i assms by (simp add: ring_contents_def nth_append add.commute)
  qed (use i in \<open>simp add: ring_contents_def nth_append\<close>)
qed (use assms in simp)

lemma unat_pred: "x \<noteq> 0 \<Longrightarrow> unat x = Suc (unat (x - 1))" for x :: "'l::len word"
  using unat_minus_one [of x] unat_gt_0 [of x] by simp

text \<open>The wrap-around of the indices is harmless when the size of the buffer divides the number of index values.\<close>

locale ring_buffer =
  fixes N :: "'l::len word"
  assumes size_pos: "0 < unat N" and size_dvd: "unat N dvd 2 ^ LENGTH('l)"
begin

lemma ring_at_offset: "ring_at N (r + of_nat i) = (unat r + i) mod unat N"
proof -
  have "unat (r + of_nat i) = (unat r + i) mod 2 ^ LENGTH('l)" by (simp add: unat_word_ariths unat_of_nat mod_simps)
  then show ?thesis using size_dvd by (simp add: ring_at_def unat_mod mod_mod_cancel)
qed

lemma ring_at_less: "ring_at N i < unat N"
  using size_pos by (simp add: ring_at_def unat_mod)

lemma ring_at_inj:
  assumes "i < unat N" "j < unat N" "ring_at N (r + of_nat i) = ring_at N (r + of_nat j)"
  shows "i = j"
proof -
  have *: "a = b" if "a \<le> b" "b < unat N" "(unat r + a) mod unat N = (unat r + b) mod unat N" for a b
  proof -
    have "unat N dvd b - a" using mod_eq_dvd_iff_nat [of "unat r + a" "unat r + b" "unat N"] that by simp
    moreover have "b - a < unat N" using that(2) by simp
    ultimately have "b - a = 0" using dvd_imp_le by fastforce
    then show ?thesis using that(1) by simp
  qed
  have "(unat r + i) mod unat N = (unat r + j) mod unat N" using assms(3) by (simp add: ring_at_offset)
  then show ?thesis using *[of i j] *[of j i] assms(1,2) by (cases "i \<le> j") auto
qed

lemma ring_full: "ring_ok N buf r w \<Longrightarrow> w = r + N \<longleftrightarrow> length (ring_contents N buf r w) = unat N"
  by (auto simp: word_unat_eq_iff [symmetric] diff_eq_eq add.commute)

lemma ring_room: "ring_ok N buf r w \<Longrightarrow> w \<noteq> r + N \<Longrightarrow> unat (w - r) < unat N"
  using ring_full [of buf r w] by (auto simp: ring_ok_def)

lemma ring_push:
  assumes ok: "ring_ok N buf r w" and room: "w \<noteq> r + N"
  shows "ring_contents N (buf[ring_at N w := c]) r (w + 1) = ring_contents N buf r w @ [c]"
    and "ring_ok N (buf[ring_at N w := c]) r (w + 1)"
proof -
  define k where "k = unat (w - r)"
  have k: "k < unat N" "length buf = unat N" using ring_room [OF ok room] ok by (simp_all add: k_def ring_ok_def)
  have w: "w = r + of_nat k" by (simp add: k_def)
  have "unat N < 2 ^ LENGTH('l)" by (rule unsigned_less)
  then have "k + 1 < 2 ^ LENGTH('l)" using k(1) by linarith
  then have "unat (of_nat (k + 1) :: 'l word) = k + 1" by (simp add: unat_of_nat del: of_nat_Suc of_nat_add)
  moreover have "w + 1 - r = of_nat (k + 1)" by (simp add: w)
  ultimately have k1: "unat (w + 1 - r) = k + 1" by (simp only:)
  show "ring_ok N (buf[ring_at N w := c]) r (w + 1)" using k k1 by (simp add: ring_ok_def)
  have "ring_at N (r + of_nat i) \<noteq> ring_at N w" if "i < k" for i using ring_at_inj [of i k r] that k(1) unfolding w by auto
  then have "buf[ring_at N w := c] ! ring_at N (r + of_nat i) = buf ! ring_at N (r + of_nat i)" if "i < k" for i
    using that by (metis nth_list_update_neq)
  moreover have "buf[ring_at N w := c] ! ring_at N (r + of_nat k) = c" using ring_at_less k(2) by (simp add: w)
  ultimately show "ring_contents N (buf[ring_at N w := c]) r (w + 1) = ring_contents N buf r w @ [c]"
    by (simp add: ring_contents_def k1 k_def [symmetric])
qed

lemma ring_pop:
  assumes ok: "ring_ok N buf r w" and "r \<noteq> w"
  shows "ring_contents N buf r w = buf ! ring_at N r # ring_contents N buf (r + 1) w" and "ring_ok N buf (r + 1) w"
proof -
  have "w - r \<noteq> 0" using assms(2) by simp
  then have u: "unat (w - r) = Suc (unat (w - (r + 1)))"
    using unat_pred [of "w - r"] by (simp add: diff_diff_eq)
  then show "ring_ok N buf (r + 1) w" using ok by (simp add: ring_ok_def)
  show "ring_contents N buf r w = buf ! ring_at N r # ring_contents N buf (r + 1) w"
    by (simp add: ring_contents_def u map_upt_Suc add.assoc del: upt_Suc)
qed

text \<open>Taking back the last element, as the console does for a backspace.\<close>

lemma ring_unpush:
  assumes ok: "ring_ok N buf r w" and "r \<noteq> w"
  shows "ring_contents N buf r (w - 1) = butlast (ring_contents N buf r w)" and "ring_ok N buf r (w - 1)"
proof -
  have "w - r \<noteq> 0" using assms(2) by simp
  then have u: "unat (w - r) = Suc (unat (w - 1 - r))"
    using unat_pred [of "w - r"] by (simp add: diff_right_commute)
  then show "ring_ok N buf r (w - 1)" using ok by (simp add: ring_ok_def)
  show "ring_contents N buf r (w - 1) = butlast (ring_contents N buf r w)" by (simp add: ring_contents_def u butlast_append)
qed

end

end
