(* ===== verification/Uart.thy ===== *)
theory Uart
  imports Sleeplock Vm Ring
begin

text \<open>
  \<^verbatim>\<open>kernel/uart.c\<close>: the 16550a driver, without its interrupt handler (see \<open>Console\<close>), and the
  memory-mapped device registers it uses.

  A device register has a history of its own: \<open>mmio_in a n\<close> is the value that the \<open>n\<close>-th next read of the
  register at address \<open>a\<close> will return, and \<open>mmio_out\<close> lists the writes to registers, in order. Nothing is
  assumed of the devices: the theorems hold for every \<open>mmio_in\<close>, or name what they need of it.

  \<open>con_state\<close> has the variables of \<^verbatim>\<open>uart.c\<close>, \<^verbatim>\<open>console.c\<close>, \<^verbatim>\<open>printf.c\<close> and the switch \<^verbatim>\<open>devsw\<close>.
\<close>

section \<open>State\<close>

datatype devop = ConsoleDev

record devsw =
  d_read :: "devop option"
  d_write :: "devop option"

record con_state = vm_state +
  mmio_in :: "u64 \<Rightarrow> nat \<Rightarrow> u32"
  mmio_out :: "(u64 \<times> u32) list"
  uart_tx_buf :: "u8 list"
  uart_tx_w :: u64
  uart_tx_r :: u64
  cons_buf :: "u8 list"
  cons_r :: u32
  cons_w :: u32
  cons_e :: u32
  panicked :: bool
  pr_locking :: bool
  devsw_tab :: "nat \<Rightarrow> devsw"

section \<open>Device registers\<close>

definition mmio_read :: "u64 \<Rightarrow> ('a con_state_scheme, u32) kM" where
  "mmio_read a =
     bindK (getsK (\<lambda>s. mmio_in s a 0)) (\<lambda>v.
     thenK (modifyK (\<lambda>s. s\<lparr>mmio_in := (mmio_in s)(a := (\<lambda>n. mmio_in s a (Suc n)))\<rparr>)) (
     returnK v))"

definition mmio_write :: "u64 \<Rightarrow> u32 \<Rightarrow> ('a con_state_scheme, unit) kM" where
  "mmio_write a v = modifyK (\<lambda>s. s\<lparr>mmio_out := mmio_out s @ [(a, v)]\<rparr>)"

definition RHR :: u64 where "RHR = 0"
definition THR :: u64 where "THR = 0"
definition IER :: u64 where "IER = 1"
definition IER_RX_ENABLE :: u8 where "IER_RX_ENABLE = push_bit 0 1"
definition IER_TX_ENABLE :: u8 where "IER_TX_ENABLE = push_bit 1 1"
definition FCR :: u64 where "FCR = 2"
definition FCR_FIFO_ENABLE :: u8 where "FCR_FIFO_ENABLE = push_bit 0 1"
definition FCR_FIFO_CLEAR :: u8 where "FCR_FIFO_CLEAR = push_bit 1 3"
definition LCR :: u64 where "LCR = 3"
definition LCR_EIGHT_BITS :: u8 where "LCR_EIGHT_BITS = push_bit 0 3"
definition LCR_BAUD_LATCH :: u8 where "LCR_BAUD_LATCH = push_bit 7 1"
definition LSR :: u64 where "LSR = 5"
definition LSR_TX_IDLE :: u8 where "LSR_TX_IDLE = push_bit 5 1"
definition UART_TX_BUF_SIZE :: u64 where "UART_TX_BUF_SIZE = 32"

definition Reg :: "u64 \<Rightarrow> u64" where "Reg reg = UART0 + reg"

definition ReadReg :: "u64 \<Rightarrow> ('a con_state_scheme, u8) kM" where
  "ReadReg reg = bindK (mmio_read (Reg reg)) (\<lambda>v. returnK (ucast v))"

definition WriteReg :: "u64 \<Rightarrow> u8 \<Rightarrow> ('a con_state_scheme, unit) kM" where
  "WriteReg reg v = mmio_write (Reg reg) (ucast v)"

section \<open>uart.c\<close>

definition uartinit :: "('a con_state_scheme, unit) kM" where
  "uartinit =
     thenK (WriteReg IER 0) (
     thenK (WriteReg LCR LCR_BAUD_LATCH) (
     thenK (WriteReg 0 3) (
     thenK (WriteReg 1 0) (
     thenK (WriteReg LCR LCR_EIGHT_BITS) (
     thenK (WriteReg FCR (FCR_FIFO_ENABLE OR FCR_FIFO_CLEAR)) (
     thenK (WriteReg IER (IER_TX_ENABLE OR IER_RX_ENABLE)) (
     initlock UartTxLock ''uart'')))))))"

text \<open>
  One pass of the \<^verbatim>\<open>while(1)\<close> loop of \<^verbatim>\<open>uartstart\<close> sends one character or returns; \<open>n\<close> bounds the number of
  characters that are buffered, so the loop always returns.
\<close>

fun uartstart_loop :: "nat \<Rightarrow> ('a con_state_scheme, unit) kM" where
  "uartstart_loop n =
     bindK (getsK uart_tx_w) (\<lambda>w.
     bindK (getsK uart_tx_r) (\<lambda>r.
     if w = r then returnK () else
     bindK (ReadReg LSR) (\<lambda>lsr.
     if lsr AND LSR_TX_IDLE = 0 then returnK () else
     bindK (getsK (\<lambda>s. uart_tx_buf s ! unat (r mod UART_TX_BUF_SIZE))) (\<lambda>c.
     thenK (modifyK (\<lambda>s. s\<lparr>uart_tx_r := uart_tx_r s + 1\<rparr>)) (
     thenK (wakeup ChanUartTxR) (
     thenK (WriteReg THR c) (
     case n of 0 \<Rightarrow> spinK | Suc n' \<Rightarrow> uartstart_loop n')))))))"

declare uartstart_loop.simps [simp del]

definition uartstart :: "('a con_state_scheme, unit) kM" where
  "uartstart = bindK (getsK (\<lambda>s. unat (uart_tx_w s - uart_tx_r s))) uartstart_loop"

fun uartputc_wait :: "nat \<Rightarrow> ('a con_state_scheme, unit) kM" where
  "uartputc_wait 0 = spinK"
| "uartputc_wait (Suc n) =
     bindK (getsK (\<lambda>s. uart_tx_w s = uart_tx_r s + UART_TX_BUF_SIZE)) (\<lambda>full.
     if full then thenK (sleep ChanUartTxR UartTxLock) (uartputc_wait n) else returnK ())"

definition uartputc :: "u8 \<Rightarrow> ('a con_state_scheme, unit) kM" where
  "uartputc c =
     thenK (acquire UartTxLock) (
     bindK (getsK panicked) (\<lambda>pk.
     if pk then spinK else
     thenK (bindK (getsK fuel) (\<lambda>n. uartputc_wait (Suc n))) (
     thenK (modifyK (\<lambda>s. s\<lparr>uart_tx_buf := (uart_tx_buf s)[unat (uart_tx_w s mod UART_TX_BUF_SIZE) := c]\<rparr>)) (
     thenK (modifyK (\<lambda>s. s\<lparr>uart_tx_w := uart_tx_w s + 1\<rparr>)) (
     thenK uartstart (
     release UartTxLock))))))"

text \<open>Polling the line status register, at most \<open>n\<close> more times.\<close>

fun uartputc_poll :: "nat \<Rightarrow> ('a con_state_scheme, unit) kM" where
  "uartputc_poll 0 = spinK"
| "uartputc_poll (Suc n) =
     bindK (ReadReg LSR) (\<lambda>lsr.
     if lsr AND LSR_TX_IDLE = 0 then uartputc_poll n else returnK ())"

definition uartputc_sync :: "u8 \<Rightarrow> ('a con_state_scheme, unit) kM" where
  "uartputc_sync c =
     thenK push_off (
     bindK (getsK panicked) (\<lambda>pk.
     if pk then spinK else
     thenK (bindK (getsK fuel) (\<lambda>n. uartputc_poll (Suc n))) (
     thenK (WriteReg THR c) (
     pop_off))))"

text \<open>\<open>None\<close> is the return value \<open>-1\<close>.\<close>

definition uartgetc :: "('a con_state_scheme, u8 option) kM" where
  "uartgetc =
     bindK (ReadReg LSR) (\<lambda>lsr.
     if lsr AND 1 \<noteq> 0 then bindK (ReadReg RHR) (\<lambda>c. returnK (Some c)) else returnK None)"

section \<open>The transmit buffer\<close>

interpretation uart_ring: ring_buffer UART_TX_BUF_SIZE
  by unfold_locales (simp_all add: UART_TX_BUF_SIZE_def)

lemma ucast_8_32 [simp]: "ucast (ucast c :: u32) = (c :: u8)"
  by transfer simp

definition uart_ok :: "'a con_state_scheme \<Rightarrow> bool" where
  "uart_ok s \<longleftrightarrow> ring_ok UART_TX_BUF_SIZE (uart_tx_buf s) (uart_tx_r s) (uart_tx_w s)"

definition uart_queue :: "'a con_state_scheme \<Rightarrow> u8 list" where
  "uart_queue s = ring_contents UART_TX_BUF_SIZE (uart_tx_buf s) (uart_tx_r s) (uart_tx_w s)"

text \<open>The bytes that have been given to the device.\<close>

definition uart_sent :: "'a con_state_scheme \<Rightarrow> u8 list" where
  "uart_sent s = map (\<lambda>(a, v). ucast v) (filter (\<lambda>(a, v). a = Reg THR) (mmio_out s))"

lemma con_frame [simp]:
  "mmio_in (acq lk s) = mmio_in s" "mmio_in (rel lk s) = mmio_in s" "mmio_in (touch s) = mmio_in s"
  "mmio_out (acq lk s) = mmio_out s" "mmio_out (rel lk s) = mmio_out s" "mmio_out (touch s) = mmio_out s"
  "uart_tx_buf (acq lk s) = uart_tx_buf s" "uart_tx_buf (rel lk s) = uart_tx_buf s" "uart_tx_buf (touch s) = uart_tx_buf s"
  "uart_tx_w (acq lk s) = uart_tx_w s" "uart_tx_w (rel lk s) = uart_tx_w s" "uart_tx_w (touch s) = uart_tx_w s"
  "uart_tx_r (acq lk s) = uart_tx_r s" "uart_tx_r (rel lk s) = uart_tx_r s" "uart_tx_r (touch s) = uart_tx_r s"
  "panicked (acq lk s) = panicked s" "panicked (rel lk s) = panicked s" "panicked (touch s) = panicked s"
  by (simp_all add: acq_def rel_def pushed_def popped_def touch_def Let_def)

text \<open>One pass of the loop of \<^verbatim>\<open>uartstart\<close>, inside of the critical section of process \<open>p\<close>.\<close>

definition uart_section :: "nat \<Rightarrow> 'a con_state_scheme \<Rightarrow> 'a con_state_scheme \<Rightarrow> bool" where
  "uart_section p s u \<longleftrightarrow> proc_ctx p s \<and> hart_eq (acq UartTxLock s) u \<and> length (procs u) = NPROC \<and> uart_ok u"

lemma uartstart_step:
  assumes sec: "uart_section p s u" and ne: "uart_tx_w u \<noteq> uart_tx_r u"
  defines "c \<equiv> uart_tx_buf u ! unat (uart_tx_r u mod UART_TX_BUF_SIZE)"
  shows "\<exists>w v. wakeup ChanUartTxR (u\<lparr>uart_tx_r := uart_tx_r u + 1\<rparr>) = Ok () w \<and> WriteReg THR c w = Ok () v \<and>
    uart_section p s v \<and> uart_sent v @ uart_queue v = uart_sent u @ uart_queue u \<and> uart_queue u = c # uart_queue v"
proof -
  have ctx: "proc_ctx p s" and he: "hart_eq (acq UartTxLock s) u" and l: "length (procs u) = NPROC" and ok: "uart_ok u"
    using sec by (simp_all add: uart_section_def)
  note pop = uart_ring.ring_pop [OF ok [unfolded uart_ok_def] ne [symmetric]]
  let ?u = "u\<lparr>uart_tx_r := uart_tx_r u + 1\<rparr>"
  have w: "wakeup ChanUartTxR ?u = Ok () (?u\<lparr>procs := woken (Some p) ChanUartTxR (procs u)\<rparr>)"
    using section_wakeup [OF ctx, of UartTxLock ?u] he l by (simp add: hart_eq_def)
  let ?v = "?u\<lparr>procs := woken (Some p) ChanUartTxR (procs u), mmio_out := mmio_out u @ [(Reg THR, ucast c)]\<rparr>"
  have q: "uart_queue u = c # uart_queue ?v" using pop(1) by (simp add: uart_queue_def c_def ring_at_def)
  have "uart_sent ?v = uart_sent u @ [c]" by (simp add: uart_sent_def)
  moreover have "uart_section p s ?v" using ctx he l pop(2) by (simp add: uart_section_def hart_eq_def uart_ok_def)
  ultimately show ?thesis using w q by (intro exI [of _ "?u\<lparr>procs := woken (Some p) ChanUartTxR (procs u)\<rparr>"] exI [of _ ?v]) (simp add: kM_simps WriteReg_def mmio_write_def)
qed

lemma uartstart_loop_spec:
  assumes "uart_section p s u" "length (uart_queue u) \<le> n"
  shows "\<exists>v. uartstart_loop n u = Ok () v \<and> uart_section p s v \<and> uart_sent v @ uart_queue v = uart_sent u @ uart_queue u"
  using assms
proof (induction n arbitrary: u)
  case 0
  then have "uart_tx_w u = uart_tx_r u" by (simp add: uart_queue_def unat_eq_zero)
  then show ?case using 0 by (simp add: uartstart_loop.simps kM_simps)
next
  case (Suc n)
  let ?u = "u\<lparr>mmio_in := (mmio_in u)(Reg LSR := (\<lambda>n. mmio_in u (Reg LSR) (Suc n)))\<rparr>"
  have u: "uart_section p s ?u" "uart_queue ?u = uart_queue u" "uart_sent ?u = uart_sent u"
    using Suc.prems(1) by (simp_all add: uart_section_def hart_eq_def uart_ok_def uart_queue_def uart_sent_def)
  consider "uart_tx_w u = uart_tx_r u" | "uart_tx_w u \<noteq> uart_tx_r u" "(ucast (mmio_in u (Reg LSR) 0) :: u8) AND LSR_TX_IDLE = 0"
    | "uart_tx_w u \<noteq> uart_tx_r u" "(ucast (mmio_in u (Reg LSR) 0) :: u8) AND LSR_TX_IDLE \<noteq> 0" by blast
  then show ?case
  proof cases
    case 1
    then show ?thesis using Suc.prems by (simp add: uartstart_loop.simps kM_simps)
  next
    case 2
    then show ?thesis using u by (simp add: uartstart_loop.simps kM_simps ReadReg_def mmio_read_def)
  next
    case 3
    obtain w v where v: "wakeup ChanUartTxR (?u\<lparr>uart_tx_r := uart_tx_r u + 1\<rparr>) = Ok () w"
        "WriteReg THR (uart_tx_buf u ! unat (uart_tx_r u mod UART_TX_BUF_SIZE)) w = Ok () v"
        "uart_section p s v" "uart_sent v @ uart_queue v = uart_sent u @ uart_queue u" "Suc (length (uart_queue v)) = length (uart_queue u)"
      using uartstart_step [OF u(1)] 3(1) u(2,3) by auto
    have "uartstart_loop (Suc n) u = uartstart_loop n v"
      using 3 v(1,2) by (simp add: uartstart_loop.simps [of "Suc n"] kM_simps ReadReg_def mmio_read_def)
    then show ?thesis using Suc.IH [OF v(3)] v(4,5) Suc.prems(2) by simp
  qed
qed



definition con0 :: con_state where
  "con0 = vm_state.extend (kmem_state.extend (kstate.extend ks1 (kmem_state.fields 0 0)) (vm_state.fields 0 (\<lambda>_. 0) 0 0))
     (con_state.fields (\<lambda>_ _. 0) [] (replicate 32 0) 0 0 (replicate 128 0) 0 0 0 False False (\<lambda>_. \<lparr>d_read = None, d_write = None\<rparr>))"

lemma con0_ctx: "proc_ctx 0 con0"
  using ks1_ctx by (simp add: con0_def kstate.defs kmem_state.defs vm_state.defs con_state.defs proc_ctx_def cpu_inv_def sie_def lock_free_def)


end
