(* ===== verification/Printf.thy ===== *)
theory Printf
  imports Uart
begin

text \<open>
  \<^verbatim>\<open>kernel/printf.c\<close>, with \<^verbatim>\<open>consputc\<close> of \<^verbatim>\<open>kernel/console.c\<close> and \<^verbatim>\<open>procdump\<close> of \<^verbatim>\<open>kernel/proc.c\<close>.
  C strings are lists of bytes without the terminating NUL; the variable arguments are a list of values.
\<close>

definition cbytes :: "string \<Rightarrow> u8 list" where
  "cbytes = map of_char"

definition BACKSPACE :: i32 where "BACKSPACE = 0x100"

definition consputc :: "i32 \<Rightarrow> ('a con_state_scheme, unit) kM" where
  "consputc c =
     (if c = BACKSPACE then thenK (uartputc_sync 8) (thenK (uartputc_sync 32) (uartputc_sync 8))
      else uartputc_sync (ucast c))"

definition putbytes :: "u8 list \<Rightarrow> ('a con_state_scheme, unit) kM" where
  "putbytes bs = forK bs (\<lambda>b. consputc (ucast b))"

section \<open>Numbers\<close>

definition digits :: "u8 list" where
  "digits = cbytes ''0123456789abcdef''"

text \<open>The digits of \<open>x\<close>, least significant first, as the \<^verbatim>\<open>do\<close> loop of \<^verbatim>\<open>printint\<close> stores them in \<^verbatim>\<open>buf\<close>.\<close>

function printint_buf :: "u32 \<Rightarrow> u32 \<Rightarrow> u8 list" where
  "printint_buf x base =
     digits ! unat (x mod base) #
     (if base \<le> 1 \<or> x div base = 0 then [] else printint_buf (x div base) base)"
  by pat_completeness auto
termination
proof (relation "measure (\<lambda>(x, _). unat x)")
  fix x base :: u32
  assume *: "\<not> (base \<le> 1 \<or> x div base = 0)"
  then have "0 < unat x" by (metis div_0 gr0I unat_eq_zero)
  moreover have "1 < unat base" using * by (simp add: word_le_nat_alt)
  ultimately show "((x div base, base), (x, base)) \<in> measure (\<lambda>(x, _). unat x)"
    by (simp add: unat_div)
qed simp

declare printint_buf.simps [simp del]

definition printint_chars :: "i32 \<Rightarrow> u32 \<Rightarrow> bool \<Rightarrow> u8 list" where
  "printint_chars xx base sign =
     (let neg = sign \<and> sint xx < 0;
          x = (if neg then - xx else xx);
          buf = printint_buf x base @ (if neg then cbytes ''-'' else [])
      in rev buf)"

definition printint :: "i32 \<Rightarrow> u32 \<Rightarrow> bool \<Rightarrow> ('a con_state_scheme, unit) kM" where
  "printint xx base sign = putbytes (printint_chars xx base sign)"

fun printptr_loop :: "nat \<Rightarrow> u64 \<Rightarrow> ('a con_state_scheme, unit) kM" where
  "printptr_loop 0 x = returnK ()"
| "printptr_loop (Suc n) x =
     thenK (consputc (ucast (digits ! unat (drop_bit 60 x)))) (
     printptr_loop n (push_bit 4 x))"

definition printptr :: "u64 \<Rightarrow> ('a con_state_scheme, unit) kM" where
  "printptr x =
     thenK (consputc 48) (
     thenK (consputc 120) (
     printptr_loop 16 x))"

section \<open>printf\<close>

datatype va = VInt i32 | VPtr u64 | VStr "u8 list option"

text \<open>
  The loop over the format. Asking for an argument that was not passed is undefined in C and ends in a
  panic of the model.
\<close>

fun printf_loop :: "u8 list \<Rightarrow> va list \<Rightarrow> ('a con_state_scheme, unit) kM" where
  "printf_loop [] ap = returnK ()"
| "printf_loop [c] ap = (if c = 37 then returnK () else consputc (ucast c))"
| "printf_loop (c # d # fmt) ap =
     (if c \<noteq> 37 then thenK (consputc (ucast c)) (printf_loop (d # fmt) ap)
      else if d = 100 then
        (case ap of VInt x # ap' \<Rightarrow> thenK (printint x 10 True) (printf_loop fmt ap') | _ \<Rightarrow> panicK ''va_arg'')
      else if d = 120 then
        (case ap of VInt x # ap' \<Rightarrow> thenK (printint x 16 True) (printf_loop fmt ap') | _ \<Rightarrow> panicK ''va_arg'')
      else if d = 112 then
        (case ap of VPtr x # ap' \<Rightarrow> thenK (printptr x) (printf_loop fmt ap') | _ \<Rightarrow> panicK ''va_arg'')
      else if d = 115 then
        (case ap of VStr x # ap' \<Rightarrow>
           thenK (putbytes (case x of None \<Rightarrow> cbytes ''(null)'' | Some bs \<Rightarrow> bs)) (printf_loop fmt ap')
         | _ \<Rightarrow> panicK ''va_arg'')
      else if d = 37 then thenK (consputc 37) (printf_loop fmt ap)
      else thenK (consputc 37) (thenK (consputc (ucast d)) (printf_loop fmt ap)))"

definition printf :: "string \<Rightarrow> va list \<Rightarrow> ('a con_state_scheme, unit) kM" where
  "printf fmt ap =
     bindK (getsK pr_locking) (\<lambda>locking.
     thenK (whenK locking (acquire PrLock)) (
     thenK (printf_loop (cbytes fmt) ap) (
     whenK locking (release PrLock))))"

text \<open>
  \<^verbatim>\<open>panic\<close> prints and then loops forever. Where a routine calls it, its outcome is \<open>Panic\<close> with the message.
\<close>

definition panic :: "string \<Rightarrow> ('a con_state_scheme, unit) kM" where
  "panic m =
     thenK (modifyK (\<lambda>s. s\<lparr>pr_locking := False\<rparr>)) (
     thenK (printf ''panic: '' []) (
     thenK (printf m []) (
     thenK (printf [CHR 0x0A] []) (
     thenK (modifyK (\<lambda>s. s\<lparr>panicked := True\<rparr>))
     spinK))))"

definition printfinit :: "('a con_state_scheme, unit) kM" where
  "printfinit =
     thenK (initlock PrLock ''pr'') (
     modifyK (\<lambda>s. s\<lparr>pr_locking := True\<rparr>))"

section \<open>procdump\<close>

fun procstate_name :: "procstate \<Rightarrow> string" where
  "procstate_name UNUSED = ''unused''"
| "procstate_name USED = ''used''"
| "procstate_name SLEEPING = ''sleep ''"
| "procstate_name RUNNABLE = ''runble''"
| "procstate_name RUNNING = ''run   ''"
| "procstate_name ZOMBIE = ''zombie''"

definition procdump :: "('a con_state_scheme, unit) kM" where
  "procdump =
     thenK (printf [CHR 0x0A] []) (
     forK [0..<NPROC] (\<lambda>i.
       bindK (getsK (\<lambda>s. procs s ! i)) (\<lambda>p.
       if p_state p = UNUSED then returnK () else
       thenK (printf ''%d %s %s'' [VInt (p_pid p), VStr (Some (cbytes (procstate_name (p_state p)))),
                                   VStr (Some (takeWhile (\<lambda>b. b \<noteq> 0) (p_name p)))]) (
       printf [CHR 0x0A] []))))"

section \<open>Numbers are printed correctly\<close>

definition digit_val :: "u8 \<Rightarrow> nat" where
  "digit_val d = length (takeWhile (\<lambda>x. x \<noteq> d) digits)"

definition number_val :: "nat \<Rightarrow> u8 list \<Rightarrow> nat" where
  "number_val base ds = foldl (\<lambda>a d. a * base + digit_val d) 0 ds"

lemma digits_simps: "digits = [48, 49, 50, 51, 52, 53, 54, 55, 56, 57, 97, 98, 99, 100, 101, 102]"
  by (simp add: digits_def cbytes_def of_char_def)

lemma takeWhile_nth: "distinct xs \<Longrightarrow> i < length xs \<Longrightarrow> length (takeWhile (\<lambda>x. x \<noteq> xs ! i) xs) = i"
  by (induction xs arbitrary: i) (auto simp: nth_Cons split: nat.split)

lemma digit_val_nth: "i < 16 \<Longrightarrow> digit_val (digits ! i) = i"
  unfolding digit_val_def by (rule takeWhile_nth) (simp_all add: digits_simps)

lemma number_val_snoc: "number_val base (ds @ [d]) = number_val base ds * base + digit_val d"
  by (simp add: number_val_def)

lemma printint_buf_spec:
  assumes "2 \<le> unat base" "unat base \<le> 16"
  shows "number_val (unat base) (rev (printint_buf x base)) = unat x \<and>
    (length (printint_buf x base) = 1 \<or> unat base ^ (length (printint_buf x base) - 1) \<le> unat x) \<and> printint_buf x base \<noteq> []"
  using assms
proof (induction x base rule: printint_buf.induct)
  case (1 x base)
  have "unat x mod unat base < unat base" using 1(2) by simp
  then have m: "unat (x mod base) < 16" using 1(3) by (simp only: unat_mod)
  show ?case
  proof (cases "base \<le> 1 \<or> x div base = 0")
    case True
    then have "x div base = 0" using 1(2) by (simp add: word_le_nat_alt)
    then have "unat x div unat base = 0" by (metis unat_div unat_0)
    then have "unat x mod unat base = unat x" by (metis div_mult_mod_eq add_0 mult_zero_left)
    then show ?thesis using m True
      by (simp add: printint_buf.simps [of x base] number_val_def digit_val_nth unat_mod)
  next
    case False
    note IH = 1(1) [OF False 1(2,3)]
    let ?b = "printint_buf (x div base) base"
    have eq: "printint_buf x base = digits ! unat (x mod base) # ?b" using False by (simp add: printint_buf.simps [of x base])
    have "number_val (unat base) (rev ?b) = unat x div unat base" using IH by (simp add: unat_div)
    then have v: "number_val (unat base) (rev (printint_buf x base)) = unat x"
      by (simp add: eq number_val_snoc digit_val_nth [OF m [unfolded unat_mod]] unat_mod)
    have "0 < unat x div unat base" using False by (metis unat_div unat_gt_0)
    then have "unat base ^ (length ?b - 1) \<le> unat x div unat base" using IH by (auto simp: unat_div)
    then have "unat base ^ (length ?b - 1) * unat base \<le> unat x"
      by (metis div_times_less_eq_dividend mult_le_mono1 order_trans)
    then have "unat base ^ length ?b \<le> unat x" using IH by (metis power_minus_mult length_greater_0_conv)
    then show ?thesis using v by (simp add: eq)
  qed
qed



end
