(* ===== verification/Console.thy ===== *)
theory Console
  imports Printf
begin

text \<open>
  \<^verbatim>\<open>kernel/console.c\<close>, the interrupt handler \<^verbatim>\<open>uartintr\<close> of \<^verbatim>\<open>kernel/uart.c\<close>, and \<^verbatim>\<open>either_copyout\<close>,
  \<^verbatim>\<open>either_copyin\<close> of \<^verbatim>\<open>kernel/proc.c\<close>.

  A destination is a user virtual address, a kernel address that is a page of physical memory, or an object
  on the kernel stack; the bytes copied to the latter are part of the result of the routines that copy.
\<close>

section \<open>Copying to and from either space\<close>

datatype cdst = UserDst u64 | KernDst u64 | LocalDst

fun cdst_add :: "cdst \<Rightarrow> nat \<Rightarrow> cdst" where
  "cdst_add (UserDst a) n = UserDst (a + of_nat n)"
| "cdst_add (KernDst a) n = KernDst (a + of_nat n)"
| "cdst_add LocalDst n = LocalDst"

definition either_copyout :: "cdst \<Rightarrow> u8 list \<Rightarrow> ('a kmem_state_scheme, int) kM" where
  "either_copyout dst src =
     bindK curproc (\<lambda>p.
     case dst of
       UserDst a \<Rightarrow> bindK (getsK (\<lambda>s. p_pagetable (procs s ! p))) (\<lambda>pt. copyout pt a src)
     | KernDst a \<Rightarrow> thenK (modifyK (\<lambda>s. s\<lparr>mem := mem_write (mem s) a src\<rparr>)) (returnK 0)
     | LocalDst \<Rightarrow> returnK 0)"

datatype csrc = UserSrc u64 | LocalSrc "u8 list"

fun csrc_add :: "csrc \<Rightarrow> nat \<Rightarrow> csrc" where
  "csrc_add (UserSrc a) n = UserSrc (a + of_nat n)"
| "csrc_add (LocalSrc bs) n = LocalSrc (drop n bs)"

definition either_copyin :: "csrc \<Rightarrow> nat \<Rightarrow> ('a kmem_state_scheme, int \<times> u8 list) kM" where
  "either_copyin src len =
     bindK curproc (\<lambda>p.
     case src of
       UserSrc a \<Rightarrow> bindK (getsK (\<lambda>s. p_pagetable (procs s ! p))) (\<lambda>pt. copyin pt a len)
     | LocalSrc bs \<Rightarrow> returnK (0, take len bs))"

section \<open>console.c\<close>

definition INPUT_BUF_SIZE :: u32 where "INPUT_BUF_SIZE = 128"

definition Ctl :: "char \<Rightarrow> i32" where "Ctl x = of_char x - 64"

definition cons_at :: "'a con_state_scheme \<Rightarrow> u32 \<Rightarrow> u8" where
  "cons_at s i = cons_buf s ! unat (i mod INPUT_BUF_SIZE)"

fun consolewrite_loop :: "csrc \<Rightarrow> nat \<Rightarrow> int \<Rightarrow> ('a con_state_scheme, int) kM" where
  "consolewrite_loop src 0 i = returnK i"
| "consolewrite_loop src (Suc n) i =
     bindK (either_copyin src 1) (\<lambda>(r, bs).
     if r = -1 then returnK i else
     thenK (uartputc (bs ! 0)) (
     consolewrite_loop (csrc_add src 1) n (i + 1)))"

definition consolewrite :: "csrc \<Rightarrow> int \<Rightarrow> ('a con_state_scheme, int) kM" where
  "consolewrite src n = consolewrite_loop src (nat n) 0"

text \<open>Waiting for input; the result says whether the process was killed meanwhile.\<close>

fun consoleread_wait :: "nat \<Rightarrow> ('a con_state_scheme, bool) kM" where
  "consoleread_wait 0 = spinK"
| "consoleread_wait (Suc k) =
     bindK (getsK (\<lambda>s. cons_r s = cons_w s)) (\<lambda>nothing.
     if \<not> nothing then returnK False else
     bindK curproc (\<lambda>p.
     bindK (killed p) (\<lambda>kl.
     if kl then returnK True else
     thenK (sleep ChanConsR ConsLock) (
     consoleread_wait k))))"

text \<open>The outer loop; \<open>None\<close> if the process was killed, otherwise the final value of \<^verbatim>\<open>n\<close>.\<close>

fun consoleread_loop :: "cdst \<Rightarrow> nat \<Rightarrow> nat \<Rightarrow> ('a con_state_scheme, nat option) kM" where
  "consoleread_loop dst target 0 = returnK (Some 0)"
| "consoleread_loop dst target (Suc n) =
     bindK (bindK (getsK fuel) (\<lambda>k. consoleread_wait (Suc k))) (\<lambda>kl.
     if kl then returnK None else
     bindK (getsK (\<lambda>s. cons_at s (cons_r s))) (\<lambda>c.
     thenK (modifyK (\<lambda>s. s\<lparr>cons_r := cons_r s + 1\<rparr>)) (
     if ucast c = Ctl CHR ''D'' then
       thenK (whenK (Suc n < target) (modifyK (\<lambda>s. s\<lparr>cons_r := cons_r s - 1\<rparr>))) (
       returnK (Some (Suc n)))
     else
     bindK (either_copyout dst [c]) (\<lambda>r.
     if r = -1 then returnK (Some (Suc n)) else
     if c = 10 then returnK (Some n) else
     consoleread_loop (cdst_add dst 1) target n))))"

definition consoleread :: "cdst \<Rightarrow> int \<Rightarrow> ('a con_state_scheme, int) kM" where
  "consoleread dst n =
     thenK (acquire ConsLock) (
     bindK (consoleread_loop dst (nat n) (nat n)) (\<lambda>r.
     thenK (release ConsLock) (
     returnK (case r of None \<Rightarrow> -1 | Some m \<Rightarrow> int (nat n) - int m))))"

text \<open>The kill-line loop; the number of characters after \<^verbatim>\<open>cons.w\<close> bounds it.\<close>

fun killline_loop :: "nat \<Rightarrow> ('a con_state_scheme, unit) kM" where
  "killline_loop 0 = returnK ()"
| "killline_loop (Suc n) =
     bindK (getsK (\<lambda>s. cons_e s \<noteq> cons_w s \<and> cons_at s (cons_e s - 1) \<noteq> 10)) (\<lambda>go.
     if \<not> go then returnK () else
     thenK (modifyK (\<lambda>s. s\<lparr>cons_e := cons_e s - 1\<rparr>)) (
     thenK (consputc BACKSPACE) (
     killline_loop n)))"

definition consoleintr :: "i32 \<Rightarrow> ('a con_state_scheme, unit) kM" where
  "consoleintr c =
     thenK (acquire ConsLock) (
     thenK (
       if c = Ctl CHR ''P'' then procdump
       else if c = Ctl CHR ''U'' then
         bindK (getsK (\<lambda>s. unat (cons_e s - cons_w s))) killline_loop
       else if c = Ctl CHR ''H'' \<or> c = 0x7f then
         bindK (getsK (\<lambda>s. cons_e s \<noteq> cons_w s)) (\<lambda>some.
         whenK some (
           thenK (modifyK (\<lambda>s. s\<lparr>cons_e := cons_e s - 1\<rparr>)) (
           consputc BACKSPACE)))
       else
         bindK (getsK (\<lambda>s. cons_e s - cons_r s < INPUT_BUF_SIZE)) (\<lambda>room.
         whenK (c \<noteq> 0 \<and> room) (
           let c = (if c = 13 then 10 else c) in
           thenK (consputc c) (
           thenK (modifyK (\<lambda>s. s\<lparr>cons_buf := (cons_buf s)[unat (cons_e s mod INPUT_BUF_SIZE) := ucast c]\<rparr>)) (
           thenK (modifyK (\<lambda>s. s\<lparr>cons_e := cons_e s + 1\<rparr>)) (
           bindK (getsK (\<lambda>s. cons_e s - cons_r s = INPUT_BUF_SIZE)) (\<lambda>full.
           whenK (c = 10 \<or> c = Ctl CHR ''D'' \<or> full) (
             thenK (modifyK (\<lambda>s. s\<lparr>cons_w := cons_e s\<rparr>)) (
             wakeup ChanConsR))))))))) (
     release ConsLock))"

definition consoleinit :: "('a con_state_scheme, unit) kM" where
  "consoleinit =
     thenK (initlock ConsLock ''cons'') (
     thenK uartinit (
     modifyK (\<lambda>s. s\<lparr>devsw_tab := (devsw_tab s)(1 := \<lparr>d_read = Some ConsoleDev, d_write = Some ConsoleDev\<rparr>)\<rparr>)))"

section \<open>uartintr\<close>

text \<open>\<open>n\<close> bounds the number of input characters handled by one interrupt.\<close>

fun uartintr_loop :: "nat \<Rightarrow> ('a con_state_scheme, unit) kM" where
  "uartintr_loop 0 = spinK"
| "uartintr_loop (Suc n) =
     bindK uartgetc (\<lambda>c.
     case c of None \<Rightarrow> returnK ()
     | Some c \<Rightarrow> thenK (consoleintr (ucast c)) (uartintr_loop n))"

definition uartintr :: "('a con_state_scheme, unit) kM" where
  "uartintr =
     thenK (bindK (getsK fuel) uartintr_loop) (
     thenK (acquire UartTxLock) (
     thenK uartstart (
     release UartTxLock)))"

section \<open>Output that the device accepts\<close>

lemma con_commute [lock_commute]:
  "rel lk (s\<lparr>mmio_in := v0\<rparr>) = (rel lk s)\<lparr>mmio_in := v0\<rparr>" "acq lk (s\<lparr>mmio_in := v0\<rparr>) = (acq lk s)\<lparr>mmio_in := v0\<rparr>"
  "touch (s\<lparr>mmio_in := v0\<rparr>) = (touch s)\<lparr>mmio_in := v0\<rparr>"
  "rel lk (s\<lparr>mmio_out := v1\<rparr>) = (rel lk s)\<lparr>mmio_out := v1\<rparr>" "acq lk (s\<lparr>mmio_out := v1\<rparr>) = (acq lk s)\<lparr>mmio_out := v1\<rparr>"
  "touch (s\<lparr>mmio_out := v1\<rparr>) = (touch s)\<lparr>mmio_out := v1\<rparr>"
  "rel lk (s\<lparr>cons_buf := v2\<rparr>) = (rel lk s)\<lparr>cons_buf := v2\<rparr>" "acq lk (s\<lparr>cons_buf := v2\<rparr>) = (acq lk s)\<lparr>cons_buf := v2\<rparr>"
  "touch (s\<lparr>cons_buf := v2\<rparr>) = (touch s)\<lparr>cons_buf := v2\<rparr>"
  "rel lk (s\<lparr>cons_r := v3\<rparr>) = (rel lk s)\<lparr>cons_r := v3\<rparr>" "acq lk (s\<lparr>cons_r := v3\<rparr>) = (acq lk s)\<lparr>cons_r := v3\<rparr>"
  "touch (s\<lparr>cons_r := v3\<rparr>) = (touch s)\<lparr>cons_r := v3\<rparr>"
  "rel lk (s\<lparr>cons_w := v4\<rparr>) = (rel lk s)\<lparr>cons_w := v4\<rparr>" "acq lk (s\<lparr>cons_w := v4\<rparr>) = (acq lk s)\<lparr>cons_w := v4\<rparr>"
  "touch (s\<lparr>cons_w := v4\<rparr>) = (touch s)\<lparr>cons_w := v4\<rparr>"
  "rel lk (s\<lparr>cons_e := v5\<rparr>) = (rel lk s)\<lparr>cons_e := v5\<rparr>" "acq lk (s\<lparr>cons_e := v5\<rparr>) = (acq lk s)\<lparr>cons_e := v5\<rparr>"
  "touch (s\<lparr>cons_e := v5\<rparr>) = (touch s)\<lparr>cons_e := v5\<rparr>"
  by (simp_all add: rel_def popped_def acq_def pushed_def touch_def Let_def sie_def)

lemma con_upd [simp]:
  "cpu_inv (s\<lparr>mmio_in := v0\<rparr>) = cpu_inv s" "lock_free lk (s\<lparr>mmio_in := v0\<rparr>) = lock_free lk s"
  "cpu_inv (s\<lparr>mmio_out := v1\<rparr>) = cpu_inv s" "lock_free lk (s\<lparr>mmio_out := v1\<rparr>) = lock_free lk s"
  "cpu_inv (s\<lparr>cons_buf := v2\<rparr>) = cpu_inv s" "lock_free lk (s\<lparr>cons_buf := v2\<rparr>) = lock_free lk s"
  "cpu_inv (s\<lparr>cons_r := v3\<rparr>) = cpu_inv s" "lock_free lk (s\<lparr>cons_r := v3\<rparr>) = lock_free lk s"
  "cpu_inv (s\<lparr>cons_w := v4\<rparr>) = cpu_inv s" "lock_free lk (s\<lparr>cons_w := v4\<rparr>) = lock_free lk s"
  "cpu_inv (s\<lparr>cons_e := v5\<rparr>) = cpu_inv s" "lock_free lk (s\<lparr>cons_e := v5\<rparr>) = lock_free lk s"
  by (simp_all add: cpu_inv_def sie_def lock_free_def)

lemma cons_frame [simp]:
  "cons_buf (acq lk s) = cons_buf s" "cons_buf (rel lk s) = cons_buf s" "cons_buf (touch s) = cons_buf s"
  "cons_r (acq lk s) = cons_r s" "cons_r (rel lk s) = cons_r s" "cons_r (touch s) = cons_r s"
  "cons_w (acq lk s) = cons_w s" "cons_w (rel lk s) = cons_w s" "cons_w (touch s) = cons_w s"
  "cons_e (acq lk s) = cons_e s" "cons_e (rel lk s) = cons_e s" "cons_e (touch s) = cons_e s"
  by (simp_all add: acq_def rel_def pushed_def popped_def touch_def Let_def)

text \<open>The transmitter of the device reports that it is idle each time its status register is read.\<close>

definition uart_idle :: "'a con_state_scheme \<Rightarrow> bool" where
  "uart_idle s \<longleftrightarrow> (\<forall>n. (ucast (mmio_in s (Reg LSR) n) :: u8) AND LSR_TX_IDLE \<noteq> 0)"

definition console_io :: "'a con_state_scheme \<Rightarrow> 'a con_state_scheme \<Rightarrow> bool" where
  "console_io u v \<longleftrightarrow> (\<exists>i out. v = u\<lparr>mmio_in := i, mmio_out := out\<rparr>) \<and> uart_idle v"

lemma uartputc_sync_run:
  assumes "cpu_inv u" "touch u = u" "\<not> panicked u" "uart_idle u"
  shows "\<exists>i. uartputc_sync c u = Ok () (u\<lparr>mmio_in := i, mmio_out := mmio_out u @ [(Reg THR, ucast c)]\<rparr>) \<and>
    uart_idle (u\<lparr>mmio_in := i, mmio_out := mmio_out u @ [(Reg THR, ucast c)]\<rparr>)"
proof -
  let ?i = "(mmio_in u)(Reg LSR := (\<lambda>n. mmio_in u (Reg LSR) (Suc n)))"
  let ?o = "mmio_out u @ [(Reg THR, ucast c)]"
  have f: "mmio_in (pushed u) = mmio_in u" "mmio_out (pushed u) = mmio_out u" "panicked (pushed u) = panicked u" "fuel (pushed u) = fuel u"
    by (simp_all add: pushed_def Let_def)
  have "popped ((pushed u)\<lparr>mmio_in := ?i, mmio_out := ?o\<rparr>) = (popped (pushed u))\<lparr>mmio_in := ?i, mmio_out := ?o\<rparr>"
    by (simp add: popped_def Let_def)
  then have p: "popped ((pushed u)\<lparr>mmio_in := ?i, mmio_out := ?o\<rparr>) = u\<lparr>mmio_in := ?i, mmio_out := ?o\<rparr>"
    using assms(1,2) by (simp add: popped_pushed)
  have "\<not> sie ((pushed u)\<lparr>mmio_in := ?i, mmio_out := ?o\<rparr>)" by (simp add: sie_def pushed_def Let_def)
  moreover have "c_noff (cpus (pushed u) (tp (pushed u))) = c_noff (cpus u (tp u)) + 1" by (simp add: pushed_def Let_def)
  ultimately have "pop_off ((pushed u)\<lparr>mmio_in := ?i, mmio_out := ?o\<rparr>) = Ok () (u\<lparr>mmio_in := ?i, mmio_out := ?o\<rparr>)"
    using p assms(1) by (simp add: pop_off_run cpu_inv_def)
  moreover have "(ucast (mmio_in u (Reg LSR) 0) :: u8) AND LSR_TX_IDLE \<noteq> 0" using assms(4) by (simp add: uart_idle_def)
  ultimately have "uartputc_sync c u = Ok () (u\<lparr>mmio_in := ?i, mmio_out := ?o\<rparr>)"
    using assms(3) by (simp add: uartputc_sync_def kM_simps push_off_run f ReadReg_def mmio_read_def WriteReg_def mmio_write_def)
  moreover have "uart_idle (u\<lparr>mmio_in := ?i, mmio_out := ?o\<rparr>)" using assms(4) by (auto simp: uart_idle_def)
  ultimately show ?thesis by blast
qed

lemma uartputc_sync_spec:
  assumes "cpu_inv u" "touch u = u" "\<not> panicked u" "uart_idle u"
  shows "\<exists>v. uartputc_sync c u = Ok () v \<and> console_io u v"
  using uartputc_sync_run [OF assms, of c] unfolding console_io_def by blast

lemma console_io_trans: "console_io u v \<Longrightarrow> console_io v w \<Longrightarrow> console_io u w"
  by (auto simp: console_io_def) blast

lemma console_io_keep:
  assumes "console_io u v"
  shows "hart_eq u v" "procs v = procs u" "panicked v = panicked u" "uart_idle v" "cons_buf v = cons_buf u" "cons_r v = cons_r u"
    "cons_w v = cons_w u" "cons_e v = cons_e u" "cpu_inv v = cpu_inv u" "touch u = u \<Longrightarrow> touch v = v"
  using assms by (auto simp: console_io_def hart_eq_def lock_commute)

lemma consputc_spec:
  assumes "cpu_inv u" "touch u = u" "\<not> panicked u" "uart_idle u"
  shows "\<exists>v. consputc c u = Ok () v \<and> console_io u v"
proof (cases "c = BACKSPACE")
  case True
  have step: "\<exists>v. uartputc_sync d w = Ok () v \<and> console_io u v" if "console_io u w" for d w
    using uartputc_sync_spec [of w d] console_io_keep [OF that] assms console_io_trans [OF that] by blast
  obtain v1 where 1: "uartputc_sync 8 u = Ok () v1" "console_io u v1" using uartputc_sync_spec [OF assms] by blast
  obtain v2 where 2: "uartputc_sync 32 v1 = Ok () v2" "console_io u v2" using step [OF 1(2)] by blast
  obtain v3 where "uartputc_sync 8 v2 = Ok () v3" "console_io u v3" using step [OF 2(2)] by blast
  then show ?thesis using 1(1) 2(1) True by (simp add: consputc_def kM_simps)
qed (use uartputc_sync_spec [OF assms] in \<open>simp add: consputc_def\<close>)

section \<open>The input buffer as a line editor\<close>

interpretation cons_ring: ring_buffer INPUT_BUF_SIZE
  by unfold_locales (simp_all add: INPUT_BUF_SIZE_def)

text \<open>The input that readers may consume, and the line that is being edited.\<close>

definition committed :: "'a con_state_scheme \<Rightarrow> u8 list" where
  "committed s = ring_contents INPUT_BUF_SIZE (cons_buf s) (cons_r s) (cons_w s)"

definition pending :: "'a con_state_scheme \<Rightarrow> u8 list" where
  "pending s = ring_contents INPUT_BUF_SIZE (cons_buf s) (cons_w s) (cons_e s)"

definition cons_ok :: "'a con_state_scheme \<Rightarrow> bool" where
  "cons_ok s \<longleftrightarrow> ring_ok INPUT_BUF_SIZE (cons_buf s) (cons_r s) (cons_e s) \<and>
     unat (cons_w s - cons_r s) + unat (cons_e s - cons_w s) = unat (cons_e s - cons_r s) \<and> 10 \<notin> set (pending s)"

text \<open>What the characters typed mean: \<open>c\<close> is applied to the committed input and the line under construction.\<close>

definition edit :: "i32 \<Rightarrow> u8 list \<times> u8 list \<Rightarrow> u8 list \<times> u8 list" where
  "edit c = (\<lambda>(cm, pd).
     if c = Ctl CHR ''U'' then (cm, [])
     else if c = Ctl CHR ''H'' \<or> c = 0x7f then (cm, butlast pd)
     else if c \<noteq> 0 \<and> length cm + length pd < 128 then
       (let c = (if c = 13 then 10 else c); pd = pd @ [ucast c] in
        if c = 10 \<or> c = Ctl CHR ''D'' \<or> length cm + length pd = 128 then (cm @ pd, []) else (cm, pd))
     else (cm, pd))"

lemma cons_all:
  assumes "cons_ok s"
  shows "ring_contents INPUT_BUF_SIZE (cons_buf s) (cons_r s) (cons_e s) = committed s @ pending s"
    "length (committed s) + length (pending s) = unat (cons_e s - cons_r s)"
    "ring_ok INPUT_BUF_SIZE (cons_buf s) (cons_w s) (cons_e s)"
  using assms ring_split [of "cons_w s" "cons_r s" "cons_e s"]
  by (auto simp: cons_ok_def committed_def pending_def ring_ok_def)

lemma cons_backspace:
  assumes ok: "cons_ok s" and ne: "cons_e s \<noteq> cons_w s"
  defines "t \<equiv> s\<lparr>cons_e := cons_e s - 1\<rparr>"
  shows "cons_ok t" "committed t = committed s" "pending t = butlast (pending s)"
proof -
  note a = cons_all [OF ok]
  have nz: "unat (cons_e s - cons_w s) \<noteq> 0" using ne by (simp add: unat_eq_zero)
  then have ner: "cons_r s \<noteq> cons_e s" using ok by (auto simp: cons_ok_def)
  have u: "unat (cons_e s - cons_w s) = Suc (unat (cons_e s - 1 - cons_w s))" "unat (cons_e s - cons_r s) = Suc (unat (cons_e s - 1 - cons_r s))"
    using unat_pred [of "cons_e s - cons_w s"] unat_pred [of "cons_e s - cons_r s"] ne ner by (simp_all add: diff_right_commute)
  show "committed t = committed s" by (simp add: committed_def t_def)
  show p: "pending t = butlast (pending s)" using cons_ring.ring_unpush(1) [OF a(3)] ne by (simp add: pending_def t_def)
  show "cons_ok t" using ok u p cons_ring.ring_unpush(2) [of "cons_buf s" "cons_r s" "cons_e s"] ner
    by (auto simp: cons_ok_def t_def dest: in_set_butlastD)
qed

lemma cons_push:
  fixes c :: u8
  assumes ok: "cons_ok s" and room: "length (committed s) + length (pending s) < 128"
  defines "t \<equiv> s\<lparr>cons_buf := (cons_buf s)[unat (cons_e s mod INPUT_BUF_SIZE) := c], cons_e := cons_e s + 1\<rparr>"
  shows "committed t = committed s" "pending t = pending s @ [c]" "c \<noteq> 10 \<Longrightarrow> cons_ok t"
    "ring_ok INPUT_BUF_SIZE (cons_buf t) (cons_r t) (cons_e t)"
    "ring_contents INPUT_BUF_SIZE (cons_buf t) (cons_r t) (cons_e t) = committed s @ pending s @ [c]"
proof -
  note a = cons_all [OF ok]
  have r: "ring_ok INPUT_BUF_SIZE (cons_buf s) (cons_r s) (cons_e s)" using ok by (simp add: cons_ok_def)
  have "cons_e s \<noteq> cons_r s + INPUT_BUF_SIZE" using cons_ring.ring_full [OF r] a(2) room by (auto simp: INPUT_BUF_SIZE_def)
  note p1 = cons_ring.ring_push [OF r this, of c]
  have "cons_e s \<noteq> cons_w s + INPUT_BUF_SIZE" using cons_ring.ring_full [OF a(3)] a(2) room
    by (auto simp: pending_def INPUT_BUF_SIZE_def)
  note p2 = cons_ring.ring_push [OF a(3) this, of c]
  show p: "pending t = pending s @ [c]" using p2(1) by (simp add: pending_def t_def ring_at_def)
  show rt: "ring_ok INPUT_BUF_SIZE (cons_buf t) (cons_r t) (cons_e t)" using p1(2) by (simp add: t_def ring_at_def)
  show all: "ring_contents INPUT_BUF_SIZE (cons_buf t) (cons_r t) (cons_e t) = committed s @ pending s @ [c]"
    using p1(1) a(1) by (simp add: t_def ring_at_def)
  have len: "unat (cons_e t - cons_r t) = length (committed s) + length (pending s) + 1" "unat (cons_e t - cons_w t) = length (pending s) + 1"
    using arg_cong [OF all, of length] arg_cong [OF p, of length] by (simp_all add: pending_def t_def)
  then have sum: "unat (cons_w t - cons_r t) + unat (cons_e t - cons_w t) = unat (cons_e t - cons_r t)"
    by (simp add: t_def committed_def)
  show cm: "committed t = committed s"
    using ring_split [OF sum, of INPUT_BUF_SIZE "cons_buf t"] all p by (simp add: committed_def pending_def)
  show "c \<noteq> 10 \<Longrightarrow> cons_ok t" using rt sum p ok by (auto simp: cons_ok_def)
qed

lemma cons_commit:
  assumes "ring_ok INPUT_BUF_SIZE (cons_buf s) (cons_r s) (cons_e s)"
  shows "cons_ok (s\<lparr>cons_w := cons_e s\<rparr>)" "pending (s\<lparr>cons_w := cons_e s\<rparr>) = []"
    "committed (s\<lparr>cons_w := cons_e s\<rparr>) = ring_contents INPUT_BUF_SIZE (cons_buf s) (cons_r s) (cons_e s)"
  using assms by (simp_all add: cons_ok_def pending_def committed_def ring_contents_def)

section \<open>consoleintr\<close>

definition cons_section :: "nat \<Rightarrow> 'a con_state_scheme \<Rightarrow> 'a con_state_scheme \<Rightarrow> bool" where
  "cons_section p s u \<longleftrightarrow> proc_ctx p s \<and> hart_eq (acq ConsLock s) u \<and> length (procs u) = NPROC \<and> \<not> panicked u \<and> uart_idle u"

lemma cons_sectionD:
  assumes "cons_section p s u"
  shows "cpu_inv u" "touch u = u" "\<not> panicked u" "uart_idle u"
proof -
  have ctx: "proc_ctx p s" and he: "hart_eq (acq ConsLock s) u" using assms by (simp_all add: cons_section_def)
  note d = proc_ctxD [OF ctx]
  have "cpu_inv (acq ConsLock s)" using d(1) by simp
  then show "cpu_inv u" using he by (simp add: hart_eq_def cpu_inv_def sie_def)
  show "touch u = u" using he d(6) by (intro touch_id) (simp add: hart_eq_def acq_noff)
qed (use assms in \<open>simp_all add: cons_section_def\<close>)

lemma hart_eq_trans: "hart_eq s t \<Longrightarrow> hart_eq t u \<Longrightarrow> hart_eq s u"
  by (simp add: hart_eq_def)

lemma echo:
  assumes "cons_section p s u"
  shows "\<exists>v. consputc c u = Ok () v \<and> cons_section p s v \<and> cons_buf v = cons_buf u \<and> cons_r v = cons_r u \<and> cons_w v = cons_w u \<and>
    cons_e v = cons_e u"
proof -
  obtain v where v: "consputc c u = Ok () v" "console_io u v" using consputc_spec [OF cons_sectionD [OF assms]] by blast
  then show ?thesis
    using console_io_keep [OF v(2)] assms hart_eq_trans [of "acq ConsLock s" u v] by (auto simp: cons_section_def)
qed

lemma cons_same:
  assumes "cons_buf v = cons_buf u" "cons_r v = cons_r u" "cons_w v = cons_w u" "cons_e v = cons_e u"
  shows "cons_ok v = cons_ok u" "committed v = committed u" "pending v = pending u"
  using assms by (simp_all add: cons_ok_def committed_def pending_def)

lemma cons_last:
  assumes "cons_ok u" "cons_e u \<noteq> cons_w u"
  shows "cons_at u (cons_e u - 1) = last (pending u)" "pending u \<noteq> []"
proof -
  show ne: "pending u \<noteq> []" using assms(2) by (auto simp: pending_def ring_empty)
  have "unat (cons_e u - cons_w u) = Suc (unat (cons_e u - 1 - cons_w u))"
    using unat_pred [of "cons_e u - cons_w u"] assms(2) by (simp add: diff_right_commute)
  then show "cons_at u (cons_e u - 1) = last (pending u)"
    by (simp add: pending_def ring_contents_def cons_at_def ring_at_def last_map)
qed

lemma killline_spec:
  assumes "cons_section p s u" "cons_ok u" "length (pending u) \<le> n"
  shows "\<exists>v. killline_loop n u = Ok () v \<and> cons_section p s v \<and> cons_ok v \<and> committed v = committed u \<and> pending v = []"
  using assms
proof (induction n arbitrary: u)
  case 0
  then show ?case by simp
next
  case (Suc n)
  show ?case
  proof (cases "cons_e u = cons_w u")
    case True
    then have "pending u = []" by (simp add: pending_def ring_empty)
    then show ?thesis using Suc.prems True by (simp add: kM_simps)
  next
    case False
    have "last (pending u) \<noteq> 10" using cons_last(2) [OF Suc.prems(2) False] Suc.prems(2) last_in_set unfolding cons_ok_def by metis
    then have go: "cons_at u (cons_e u - 1) \<noteq> 10" using cons_last(1) [OF Suc.prems(2) False] by simp
    let ?u = "u\<lparr>cons_e := cons_e u - 1\<rparr>"
    note b = cons_backspace [OF Suc.prems(2) False]
    have sec: "cons_section p s ?u" using Suc.prems(1) by (simp add: cons_section_def hart_eq_def uart_idle_def)
    obtain v where v: "consputc BACKSPACE ?u = Ok () v" "cons_section p s v" "cons_ok v" "committed v = committed u"
        "pending v = butlast (pending u)"
      using echo [OF sec, of BACKSPACE] b cons_same [of _ ?u] by metis
    have "killline_loop (Suc n) u = killline_loop n v" using False go v(1) by (simp add: kM_simps)
    then show ?thesis using Suc.IH [OF v(2,3)] v(4,5) Suc.prems(3) by simp
  qed
qed

lemma consoleintr_body:
  assumes sec: "cons_section p s u" and ok: "cons_ok u" and c: "uint c < 256" "c \<noteq> Ctl CHR ''P''"
  shows "\<exists>v. (if c = Ctl CHR ''P'' then procdump
       else if c = Ctl CHR ''U'' then
         bindK (getsK (\<lambda>s. unat (cons_e s - cons_w s))) killline_loop
       else if c = Ctl CHR ''H'' \<or> c = 0x7f then
         bindK (getsK (\<lambda>s. cons_e s \<noteq> cons_w s)) (\<lambda>some.
         whenK some (
           thenK (modifyK (\<lambda>s. s\<lparr>cons_e := cons_e s - 1\<rparr>)) (
           consputc BACKSPACE)))
       else
         bindK (getsK (\<lambda>s. cons_e s - cons_r s < INPUT_BUF_SIZE)) (\<lambda>room.
         whenK (c \<noteq> 0 \<and> room) (
           let c = (if c = 13 then 10 else c) in
           thenK (consputc c) (
           thenK (modifyK (\<lambda>s. s\<lparr>cons_buf := (cons_buf s)[unat (cons_e s mod INPUT_BUF_SIZE) := ucast c]\<rparr>)) (
           thenK (modifyK (\<lambda>s. s\<lparr>cons_e := cons_e s + 1\<rparr>)) (
           bindK (getsK (\<lambda>s. cons_e s - cons_r s = INPUT_BUF_SIZE)) (\<lambda>full.
           whenK (c = 10 \<or> c = Ctl CHR ''D'' \<or> full) (
             thenK (modifyK (\<lambda>s. s\<lparr>cons_w := cons_e s\<rparr>)) (
             wakeup ChanConsR))))))))) u = Ok () v \<and> cons_section p s v \<and> cons_ok v \<and>
     (committed v, pending v) = edit c (committed u, pending u)"
    (is "\<exists>v. ?body u = Ok () v \<and> _")
proof -
  consider (kill_line) "c = Ctl CHR ''U''" | (erase) "c \<noteq> Ctl CHR ''U''" "c = Ctl CHR ''H'' \<or> c = 0x7f"
    | (typed) "c \<noteq> Ctl CHR ''U''" "\<not> (c = Ctl CHR ''H'' \<or> c = 0x7f)" "c \<noteq> 0" "length (committed u) + length (pending u) < 128"
    | (drop) "c \<noteq> Ctl CHR ''U''" "\<not> (c = Ctl CHR ''H'' \<or> c = 0x7f)" "\<not> (c \<noteq> 0 \<and> length (committed u) + length (pending u) < 128)"
    by blast
  then show ?thesis
  proof cases
    case kill_line
    have "unat (cons_e u - cons_w u) = length (pending u)" by (simp add: pending_def)
    then show ?thesis using killline_spec [OF sec ok] kill_line c(2) by (simp add: kM_simps edit_def)
  next
    case erase
    show ?thesis
    proof (cases "cons_e u = cons_w u")
      case True
      then have "pending u = []" by (simp add: pending_def ring_empty)
      then show ?thesis using erase c(2) True sec ok by (auto simp: kM_simps edit_def)
    next
      case False
      let ?u = "u\<lparr>cons_e := cons_e u - 1\<rparr>"
      have "cons_section p s ?u" using sec by (simp add: cons_section_def hart_eq_def uart_idle_def)
      then obtain v where "consputc BACKSPACE ?u = Ok () v" "cons_section p s v" "cons_ok v" "committed v = committed u"
          "pending v = butlast (pending u)"
        using echo [of p s ?u BACKSPACE] cons_backspace [OF ok False] cons_same [of _ ?u] by metis
      then show ?thesis using erase c(2) False by (auto simp: kM_simps edit_def)
    qed
  next
    case typed
    define d where "d = (if c = 13 then 10 else c)"
    have "uint d < 256" using c(1) by (simp add: d_def)
    then have "uint (ucast d :: u8) = uint d" by (simp add: unsigned_ucast_eq take_bit_int_eq_self)
    then have c8: "ucast d = (10 :: u8) \<longleftrightarrow> d = 10" by (simp add: word_uint_eq_iff)
    have room: "cons_e u - cons_r u < INPUT_BUF_SIZE"
      using typed(4) cons_all(2) [OF ok] by (simp add: word_less_nat_alt INPUT_BUF_SIZE_def)
    obtain v where v: "consputc d u = Ok () v" "cons_section p s v"
        "cons_buf v = cons_buf u" "cons_r v = cons_r u" "cons_w v = cons_w u" "cons_e v = cons_e u"
      using echo [OF sec, of d] by blast
    note same = cons_same [OF v(3-6)]
    let ?w = "v\<lparr>cons_buf := (cons_buf v)[unat (cons_e v mod INPUT_BUF_SIZE) := ucast d], cons_e := cons_e v + 1\<rparr>"
    have "cons_ok v" "length (committed v) + length (pending v) < 128" using ok typed(4) same by simp_all
    note push = cons_push [OF this, of "ucast d"]
    have sw: "cons_section p s ?w" using v(2) by (simp add: cons_section_def hart_eq_def uart_idle_def)
    have full: "cons_e ?w - cons_r ?w = INPUT_BUF_SIZE \<longleftrightarrow> length (committed u) + length (pending u) + 1 = 128"
      using arg_cong [OF push(5), of length] same by (simp add: word_unat_eq_iff INPUT_BUF_SIZE_def)
    let ?com = "d = 10 \<or> d = Ctl CHR ''D'' \<or> length (committed u) + length (pending u) + 1 = 128"
    have run: "?body u = whenK ?com (thenK (modifyK (\<lambda>s. s\<lparr>cons_w := cons_e s\<rparr>)) (wakeup ChanConsR)) ?w"
      using typed c(2) room v(1) full by (simp add: kM_simps d_def [symmetric] Let_def)
    show ?thesis
    proof (cases ?com)
      case True
      let ?x = "?w\<lparr>cons_w := cons_e ?w\<rparr>"
      note cm = cons_commit [OF push(4)]
      have sx: "cons_section p s ?x" using sw by (simp add: cons_section_def hart_eq_def uart_idle_def)
      then have w: "wakeup ChanConsR ?x = Ok () (?x\<lparr>procs := woken (Some p) ChanConsR (procs ?x)\<rparr>)" (is "_ = Ok () ?y")
        by (intro section_wakeup [of p s ConsLock]) (simp_all add: cons_section_def)
      have "cons_section p s ?y" using sx by (simp add: cons_section_def hart_eq_def uart_idle_def)
      moreover have "cons_ok ?y" "committed ?y = committed u @ pending u @ [ucast d]" "pending ?y = []"
        using cm push(5) same cons_same [of ?y ?x] by simp_all
      moreover have "?body u = Ok () ?y" using run w True by (simp add: kM_simps)
      ultimately show ?thesis using True typed by (intro exI [of _ ?y]) (simp add: edit_def d_def [symmetric] Let_def)
    next
      case False
      then have "?body u = Ok () ?w" using run by (simp add: kM_simps)
      moreover have "cons_ok ?w" using push(3) c8 False by simp
      ultimately show ?thesis using False typed sw push(1,2) same
        by (intro exI [of _ ?w]) (simp add: edit_def d_def [symmetric] Let_def)
    qed
  next
    case drop
    have "\<not> (c \<noteq> 0 \<and> cons_e u - cons_r u < INPUT_BUF_SIZE)"
      using drop(3) cons_all(2) [OF ok] by (auto simp: word_less_nat_alt INPUT_BUF_SIZE_def)
    then show ?thesis using drop c(2) sec ok by (intro exI [of _ u]) (auto simp: kM_simps edit_def Let_def)
  qed
qed

text \<open>
  C23. The console input buffer implements a line editor: for every character the interrupt handler passes on (other
  than \<^verbatim>\<open>^P\<close>, which prints the process table), with the transmitter ready for the echo, \<^verbatim>\<open>consoleintr\<close> returns, keeps
  the three indices well formed across their wrap-around, and changes the committed input and the line under
  construction exactly as \<open>edit\<close> says: \<^verbatim>\<open>^U\<close> erases the line, backspace its last character, a full buffer drops the
  character, and a newline, \<^verbatim>\<open>^D\<close> or the 128th character commits the line.
\<close>

theorem consoleintr_edits:
  assumes "proc_ctx p s" and "\<not> panicked s" and "uart_idle s" and "cons_ok s" and "uint c < 256" and "c \<noteq> Ctl CHR ''P''"
  shows "\<exists>t. consoleintr c s = Ok () t \<and> cons_ok t \<and> (committed t, pending t) = edit c (committed s, pending s)"
proof -
  note d = proc_ctxD [OF assms(1)]
  let ?a = "acq ConsLock s"
  have "cons_section p s ?a" using assms(1-3) d(4) by (simp add: cons_section_def hart_eq_def uart_idle_def)
  moreover have a: "cons_ok ?a = cons_ok s" "committed ?a = committed s" "pending ?a = pending s"
    by (rule cons_same; simp)+
  ultimately obtain v where v: "consoleintr c s = release ConsLock v" "cons_section p s v" "cons_ok v"
      "(committed v, pending v) = edit c (committed s, pending s)"
    using consoleintr_body [of p s ?a c] assms(4-6) d(2) unfolding consoleintr_def
    by (simp only: thenK_run acquire_free bindO.simps) auto
  have "release ConsLock v = Ok () (rel ConsLock v)" using v(2) section_release [OF assms(1)] by (simp add: cons_section_def)
  moreover have "cons_ok (rel ConsLock v) = cons_ok v" "committed (rel ConsLock v) = committed v" "pending (rel ConsLock v) = pending v"
    by (rule cons_same; simp)+
  ultimately show ?thesis using v by simp
qed

theorem consoleintr_edits_witness:
  "\<exists>t. consoleintr 104 (con0\<lparr>mmio_in := (\<lambda>_ _. 32)\<rparr>) = Ok () t \<and> cons_ok t \<and> committed t = [] \<and> pending t = [104]"
proof -
  let ?s = "con0\<lparr>mmio_in := (\<lambda>_ _. 32)\<rparr>"
  have "proc_ctx 0 ?s" using con0_ctx by (simp add: proc_ctx_def)
  moreover have "\<not> panicked ?s" "cons_ok ?s" "committed ?s = []" "pending ?s = []"
    by (simp_all add: cons_ok_def committed_def pending_def ring_ok_def ring_contents_def INPUT_BUF_SIZE_def con0_def
        kstate.defs kmem_state.defs vm_state.defs con_state.defs)
  moreover have "uart_idle ?s" by (simp add: uart_idle_def LSR_TX_IDLE_def)
  ultimately show ?thesis
    using consoleintr_edits [of 0 ?s 104] by (auto simp: edit_def Ctl_def of_char_def)
qed

section \<open>Text on the console\<close>

lemma pr_frame [simp]: "pr_locking (touch s) = pr_locking s" "pr_locking (acq lk s) = pr_locking s" "pr_locking (rel lk s) = pr_locking s"
  by (simp_all add: touch_def acq_def rel_def pushed_def popped_def Let_def)

text \<open>State \<open>v\<close> is \<open>u\<close> after the characters \<open>bs\<close> were given to the transmitter.\<close>

definition printed :: "u8 list \<Rightarrow> 'a con_state_scheme \<Rightarrow> 'a con_state_scheme \<Rightarrow> bool" where
  "printed bs u v \<longleftrightarrow> (\<exists>i. v = u\<lparr>mmio_in := i, mmio_out := mmio_out u @ map (\<lambda>c. (Reg THR, ucast c)) bs\<rparr>) \<and> uart_idle v"

text \<open>A state from which the kernel can print: interrupts are already off and the transmitter is ready.\<close>

definition printing :: "'a con_state_scheme \<Rightarrow> bool" where
  "printing u \<longleftrightarrow> cpu_inv u \<and> touch u = u \<and> \<not> panicked u \<and> uart_idle u"

lemma printed_Nil: "uart_idle u \<Longrightarrow> printed [] u u"
  by (auto simp: printed_def intro: exI [of _ "mmio_in u"])

lemma printed_trans: "printed bs u v \<Longrightarrow> printed cs v w \<Longrightarrow> printed (bs @ cs) u w"
  by (auto simp: printed_def)

lemma printing_printed: "printed bs u v \<Longrightarrow> printing u \<Longrightarrow> printing v"
  by (auto simp: printed_def printing_def lock_commute)

lemma uartputc_sync_prints:
  assumes "printing u"
  shows "\<exists>v. uartputc_sync c u = Ok () v \<and> printed [c] u v"
proof -
  obtain i where "uartputc_sync c u = Ok () (u\<lparr>mmio_in := i, mmio_out := mmio_out u @ [(Reg THR, ucast c)]\<rparr>)"
      "uart_idle (u\<lparr>mmio_in := i, mmio_out := mmio_out u @ [(Reg THR, ucast c)]\<rparr>)"
    using uartputc_sync_run [of u c] assms by (auto simp: printing_def)
  then show ?thesis by (auto simp: printed_def)
qed

text \<open>Characters printed one after the other.\<close>

definition prints :: "('a con_state_scheme, unit) kM \<Rightarrow> u8 list \<Rightarrow> bool" where
  "prints m bs \<longleftrightarrow> (\<forall>u. printing u \<longrightarrow> (\<exists>v. m u = Ok () v \<and> printed bs u v))"

lemma prints_thenK: "prints m bs \<Longrightarrow> prints n cs \<Longrightarrow> prints (thenK m n) (bs @ cs)"
  unfolding prints_def
proof (intro allI impI)
  fix u :: "'a con_state_scheme" assume m: "\<forall>u. printing u \<longrightarrow> (\<exists>v. m u = Ok () v \<and> printed bs u v)"
    and n: "\<forall>u. printing u \<longrightarrow> (\<exists>v. n u = Ok () v \<and> printed cs u v)" and u: "printing u"
  then obtain v where v: "m u = Ok () v" "printed bs u v" by blast
  then obtain w where "n v = Ok () w" "printed cs v w" using n printing_printed u by blast
  then show "\<exists>w. thenK m n u = Ok () w \<and> printed (bs @ cs) u w" using v printed_trans by (auto simp: kM_simps)
qed

lemma prints_return: "prints (returnK ()) []" "prints (Ok ()) []"
  by (auto simp: prints_def printing_def kM_simps intro: printed_Nil)

lemma prints_consputc: "uint c < 256 \<Longrightarrow> prints (consputc c) [ucast c]"
proof -
  assume "uint c < 256"
  then have "c \<noteq> BACKSPACE" by (auto simp: BACKSPACE_def)
  then show ?thesis using uartputc_sync_prints by (auto simp: prints_def consputc_def)
qed

lemma prints_byte: "prints (consputc (ucast (b :: u8))) [b]"
proof -
  have "uint (ucast b :: i32) < 256" using uint_bounded [of b] by (simp add: unsigned_ucast_eq take_bit_eq_mod)
  then show ?thesis using prints_consputc [of "ucast b"] by simp
qed

lemma prints_putbytes: "prints (putbytes bs) bs"
proof (induction bs)
  case (Cons b bs)
  then show ?case using prints_thenK [OF prints_byte [of b]] by (simp add: putbytes_def)
qed (simp add: putbytes_def prints_return)

text \<open>The sixteen hexadecimal digits of a 64-bit number, most significant first.\<close>

definition hex16 :: "u64 \<Rightarrow> u8 list" where
  "hex16 x = map (\<lambda>i. digits ! (unat x div 16 ^ (15 - i) mod 16)) [0..<16]"

lemma prints_printptr_loop:
  "n \<le> 16 \<Longrightarrow> prints (printptr_loop n (push_bit (4 * (16 - n)) x)) (map (\<lambda>i. digits ! (unat x div 16 ^ (15 - i) mod 16)) [16 - n..<16])"
proof (induction n)
  case (Suc n)
  let ?k = "15 - n"
  have k: "16 - Suc n = ?k" "16 - n = Suc ?k" "[?k..<16] = ?k # [Suc ?k..<16]" using Suc.prems by (auto simp: upt_conv_Cons)
  have "unat (drop_bit 60 (push_bit (4 * ?k) x)) = unat x div 16 ^ n mod 16"
  proof -
    have "drop_bit 60 (push_bit (4 * ?k) x) = take_bit 4 (drop_bit (4 * n) x)"
    proof (rule bit_word_eqI)
      fix m
      have "60 + m - 4 * ?k = 4 * n + m" using Suc.prems by simp
      then show "bit (drop_bit 60 (push_bit (4 * ?k) x)) m = bit (take_bit 4 (drop_bit (4 * n) x)) m"
        using Suc.prems by (auto simp: bit_simps)
    qed
    then have e: "unat (drop_bit 60 (push_bit (4 * ?k) x)) = take_bit 4 (drop_bit (4 * n) (unat x))"
      by (simp only: unsigned_take_bit_eq unat_drop_bit_eq)
    show ?thesis unfolding e by (simp add: take_bit_eq_mod drop_bit_eq_div power_mult)
  qed
  moreover have "push_bit 4 (push_bit (4 * ?k) x) = push_bit (4 * (16 - n)) x" by (simp add: k push_bit_push_bit)
  moreover have "15 - ?k = n" using Suc.prems by simp
  ultimately show ?case using prints_thenK [OF prints_byte Suc.IH] Suc.prems by (simp add: k)
qed (simp add: prints_return)

text \<open>
  The text that \<^verbatim>\<open>printf\<close> promises for a format and its arguments; \<open>None\<close> when an argument is missing or of the wrong
  kind.
\<close>

fun arg_text :: "u8 \<Rightarrow> va \<Rightarrow> u8 list option" where
  "arg_text d (VInt x) = (if d = of_char CHR ''d'' then Some (printint_chars x 10 True)
     else if d = of_char CHR ''x'' then Some (printint_chars x 16 True) else None)"
| "arg_text d (VPtr x) = (if d = of_char CHR ''p'' then Some (cbytes ''0x'' @ hex16 x) else None)"
| "arg_text d (VStr x) = (if d = of_char CHR ''s'' then Some (case x of None \<Rightarrow> cbytes ''(null)'' | Some bs \<Rightarrow> bs) else None)"

definition takes_arg :: "u8 \<Rightarrow> bool" where
  "takes_arg d \<longleftrightarrow> d \<in> set (cbytes ''dxps'')"

fun fmt_text :: "u8 list \<Rightarrow> va list \<Rightarrow> u8 list option" where
  "fmt_text [] ap = Some []"
| "fmt_text [c] ap = Some (if c = of_char CHR ''%'' then [] else [c])"
| "fmt_text (c # d # fmt) ap =
     (if c \<noteq> of_char CHR ''%'' then map_option (Cons c) (fmt_text (d # fmt) ap)
      else if \<not> takes_arg d then map_option ((@) (if d = of_char CHR ''%'' then [d] else [c, d])) (fmt_text fmt ap)
      else case ap of [] \<Rightarrow> None
        | x # ap \<Rightarrow> (case (arg_text d x, fmt_text fmt ap) of (Some bs, Some cs) \<Rightarrow> Some (bs @ cs) | _ \<Rightarrow> None))"

lemma prints_printptr: "prints (printptr x) (cbytes ''0x'' @ hex16 x)"
proof -
  have "prints (printptr_loop 16 x) (hex16 x)" using prints_printptr_loop [of 16 x] by (simp add: hex16_def)
  then have "prints (printptr x) ([48] @ [120] @ hex16 x)"
    unfolding printptr_def
    using prints_thenK [OF prints_byte [of 48] prints_thenK [OF prints_byte [of 120]]] by simp
  then show ?thesis by (simp add: cbytes_def)
qed

lemma chars_percent: "of_char CHR ''%'' = (37 :: u8)" "of_char CHR ''d'' = (100 :: u8)" "of_char CHR ''x'' = (120 :: u8)"
  "of_char CHR ''p'' = (112 :: u8)" "of_char CHR ''s'' = (115 :: u8)"
  by simp_all

lemma prints_printf_loop: "fmt_text fmt ap = Some bs \<Longrightarrow> prints (printf_loop fmt ap) bs"
proof (induction fmt ap arbitrary: bs rule: fmt_text.induct)
  case (3 c d fmt ap)
  show ?case
  proof (cases "c = 37")
    case False
    then obtain cs where "fmt_text (d # fmt) ap = Some cs" "bs = c # cs" using 3(4) by auto
    then show ?thesis using prints_thenK [OF prints_byte [of c] 3(1)] False by simp
  next
    case True
    note c = True
    show ?thesis
    proof (cases "takes_arg d")
      case False
      let ?e = "if d = 37 then [d] else [c, d]"
      obtain cs where cs: "fmt_text fmt ap = Some cs" "bs = ?e @ cs" using 3(4) c False by (auto split: if_splits)
      have "d \<notin> {100, 120, 112, 115}" using False by (auto simp: takes_arg_def cbytes_def)
      then show ?thesis
        using 3(2) [OF _ _ cs(1)] c False cs(2) prints_thenK [OF prints_byte [of 37]] prints_thenK [OF prints_byte [of d]] by auto
    next
      case True
      then obtain x ap' xs cs where x: "ap = x # ap'" "arg_text d x = Some xs" "fmt_text fmt ap' = Some cs" "bs = xs @ cs"
        using 3(4) c by (auto split: list.splits option.splits)
      show ?thesis
        using 3(3) [OF _ _ x(1,3)] True c x prints_thenK [OF prints_putbytes] prints_thenK [OF prints_printptr]
        by (cases x) (auto simp: printint_def split: if_splits)
    qed
  qed
qed (auto simp: prints_return intro: prints_byte)

lemma printf_run:
  assumes "proc_ctx p s" and "\<not> panicked s" and "uart_idle s" and "pr_locking s" and "fmt_text (cbytes fmt) ap = Some bs"
  shows "\<exists>i. printf fmt ap s = Ok () ((touch s)\<lparr>mmio_in := i, mmio_out := mmio_out s @ map (\<lambda>c. (Reg THR, ucast c)) bs\<rparr>) \<and>
    uart_idle ((touch s)\<lparr>mmio_in := i, mmio_out := mmio_out s @ map (\<lambda>c. (Reg THR, ucast c)) bs\<rparr>)"
proof -
  note d = proc_ctxD [OF assms(1)]
  let ?a = "acq PrLock s"
  have "touch ?a = ?a" using d by (intro touch_id) (simp add: acq_noff)
  then have "printing ?a" using d assms(2,3) by (simp add: printing_def uart_idle_def)
  then obtain i where i: "uart_idle (?a\<lparr>mmio_in := i, mmio_out := mmio_out s @ map (\<lambda>c. (Reg THR, ucast c)) bs\<rparr>)"
      "printf_loop (cbytes fmt) ap ?a = Ok () (?a\<lparr>mmio_in := i, mmio_out := mmio_out s @ map (\<lambda>c. (Reg THR, ucast c)) bs\<rparr>)"
    using prints_printf_loop [OF assms(5)] by (auto simp: prints_def printed_def)
  let ?v = "?a\<lparr>mmio_in := i, mmio_out := mmio_out s @ map (\<lambda>c. (Reg THR, ucast c)) bs\<rparr>"
  have "release PrLock ?v = Ok () (rel PrLock ?v)" by (rule section_release [OF assms(1)]) (simp add: hart_eq_def)
  moreover have "rel PrLock ?v = (touch s)\<lparr>mmio_in := i, mmio_out := mmio_out s @ map (\<lambda>c. (Reg THR, ucast c)) bs\<rparr>"
    using d by (simp add: lock_commute rel_acq)
  ultimately show ?thesis using i d assms(4) by (auto simp: printf_def kM_simps acquire_free uart_idle_def)
qed



end
