(* ===== verification/Bio.thy ===== *)
theory Bio
  imports Console
begin

text \<open>
  \<^verbatim>\<open>kernel/bio.c\<close>: the buffer cache, a doubly linked list of buffers in order of recent use. Buffer
  pointers are indices; \<open>NBUF\<close> is \<^verbatim>\<open>&bcache.head\<close>. The cache is shown to implement a store of blocks:
  \<open>bc p held V R s\<close> says that in state \<open>s\<close> block \<open>bn\<close> has contents \<open>V bn\<close> and \<open>R bn\<close> references, and that
  process \<open>p\<close> has locked the buffers \<open>held\<close>.

  The disk is an array of blocks with the history of the writes it has completed; \<open>disk_rw\<close> is the
  effect of \<^verbatim>\<open>virtio_disk_rw\<close> once the device has finished the request. The single disk is device
  \<^verbatim>\<open>ROOTDEV\<close>.
\<close>

section \<open>State\<close>

definition BSIZE :: nat where "BSIZE = 1024"

record buf =
  b_valid :: bool
  b_disk :: bool
  b_dev :: u32
  b_blockno :: u32
  b_refcnt :: u32
  b_prev :: nat
  b_next :: nat
  b_data :: "u8 list"

record blk_state = con_state +
  disk :: "u32 \<Rightarrow> u8 list"
  dtrace :: "(u32 \<times> u8 list) list"
  bufs :: "nat \<Rightarrow> buf"

definition modbuf :: "nat \<Rightarrow> (buf \<Rightarrow> buf) \<Rightarrow> ('a blk_state_scheme, unit) kM" where
  "modbuf b f = modifyK (\<lambda>s. s\<lparr>bufs := (bufs s)(b := f (bufs s b))\<rparr>)"

definition disk_rw :: "nat \<Rightarrow> bool \<Rightarrow> ('a blk_state_scheme, unit) kM" where
  "disk_rw b write =
     (if write then modifyK (\<lambda>s. s\<lparr>disk := (disk s)(b_blockno (bufs s b) := b_data (bufs s b)),
                                  dtrace := dtrace s @ [(b_blockno (bufs s b), b_data (bufs s b))]\<rparr>)
      else modifyK (\<lambda>s. s\<lparr>bufs := (bufs s)(b := (bufs s b)\<lparr>b_data := disk s (b_blockno (bufs s b))\<rparr>)\<rparr>))"

section \<open>bio.c\<close>

text \<open>The list head of \<^verbatim>\<open>bcache\<close> is the buffer number \<open>NBUF\<close>.\<close>

definition binit :: "('a blk_state_scheme, unit) kM" where
  "binit =
     thenK (initlock BcacheLock ''bcache'') (
     thenK (modbuf NBUF (b_prev_update (\<lambda>_. NBUF))) (
     thenK (modbuf NBUF (b_next_update (\<lambda>_. NBUF))) (
     forK [0..<NBUF] (\<lambda>b.
       bindK (getsK (\<lambda>s. b_next (bufs s NBUF))) (\<lambda>nx.
       thenK (modbuf b (b_next_update (\<lambda>_. nx))) (
       thenK (modbuf b (b_prev_update (\<lambda>_. NBUF))) (
       thenK (initsleeplock (BufLock b) ''buffer'') (
       thenK (modbuf nx (b_prev_update (\<lambda>_. b))) (
       modbuf NBUF (b_next_update (\<lambda>_. b)))))))))))"

text \<open>The two searches of \<^verbatim>\<open>bget\<close>; \<open>n\<close> bounds the number of links followed.\<close>

fun bget_cached :: "nat \<Rightarrow> u32 \<Rightarrow> u32 \<Rightarrow> nat \<Rightarrow> ('a blk_state_scheme, nat option) kM" where
  "bget_cached 0 dev blockno b = spinK"
| "bget_cached (Suc n) dev blockno b =
     (if b = NBUF then returnK None else
      bindK (getsK (\<lambda>s. bufs s b)) (\<lambda>bf.
      if b_dev bf = dev \<and> b_blockno bf = blockno then returnK (Some b)
      else bget_cached n dev blockno (b_next bf)))"

fun bget_unused :: "nat \<Rightarrow> nat \<Rightarrow> ('a blk_state_scheme, nat option) kM" where
  "bget_unused 0 b = spinK"
| "bget_unused (Suc n) b =
     (if b = NBUF then returnK None else
      bindK (getsK (\<lambda>s. bufs s b)) (\<lambda>bf.
      if b_refcnt bf = 0 then returnK (Some b) else bget_unused n (b_prev bf)))"

definition bget :: "u32 \<Rightarrow> u32 \<Rightarrow> ('a blk_state_scheme, nat) kM" where
  "bget dev blockno =
     thenK (acquire BcacheLock) (
     bindK (bindK (getsK (\<lambda>s. b_next (bufs s NBUF))) (bget_cached (Suc NBUF) dev blockno)) (\<lambda>r.
     case r of
       Some b \<Rightarrow>
         thenK (modbuf b (\<lambda>bf. bf\<lparr>b_refcnt := b_refcnt bf + 1\<rparr>)) (
         thenK (release BcacheLock) (
         thenK (acquiresleep (BufLock b)) (
         returnK b)))
     | None \<Rightarrow>
         bindK (bindK (getsK (\<lambda>s. b_prev (bufs s NBUF))) (bget_unused (Suc NBUF))) (\<lambda>r.
         case r of
           Some b \<Rightarrow>
             thenK (modbuf b (\<lambda>bf. bf\<lparr>b_dev := dev, b_blockno := blockno, b_valid := False, b_refcnt := 1\<rparr>)) (
             thenK (release BcacheLock) (
             thenK (acquiresleep (BufLock b)) (
             returnK b)))
         | None \<Rightarrow> panicK ''bget: no buffers'')))"

definition bread :: "u32 \<Rightarrow> u32 \<Rightarrow> ('a blk_state_scheme, nat) kM" where
  "bread dev blockno =
     bindK (bget dev blockno) (\<lambda>b.
     bindK (getsK (\<lambda>s. b_valid (bufs s b))) (\<lambda>v.
     thenK (whenK (\<not> v) (
       thenK (disk_rw b False) (
       modbuf b (b_valid_update (\<lambda>_. True))))) (
     returnK b)))"

definition bwrite :: "nat \<Rightarrow> ('a blk_state_scheme, unit) kM" where
  "bwrite b =
     bindK (holdingsleep (BufLock b)) (\<lambda>h.
     if \<not> h then panicK ''bwrite'' else disk_rw b True)"

definition brelse :: "nat \<Rightarrow> ('a blk_state_scheme, unit) kM" where
  "brelse b =
     bindK (holdingsleep (BufLock b)) (\<lambda>h.
     if \<not> h then panicK ''brelse'' else
     thenK (releasesleep (BufLock b)) (
     thenK (acquire BcacheLock) (
     thenK (modbuf b (\<lambda>bf. bf\<lparr>b_refcnt := b_refcnt bf - 1\<rparr>)) (
     bindK (getsK (\<lambda>s. b_refcnt (bufs s b))) (\<lambda>n.
     thenK (whenK (n = 0) (
       bindK (getsK (\<lambda>s. bufs s b)) (\<lambda>bf.
       thenK (modbuf (b_next bf) (b_prev_update (\<lambda>_. b_prev bf))) (
       thenK (modbuf (b_prev bf) (b_next_update (\<lambda>_. b_next bf))) (
       bindK (getsK (\<lambda>s. b_next (bufs s NBUF))) (\<lambda>nx.
       thenK (modbuf b (b_next_update (\<lambda>_. nx))) (
       thenK (modbuf b (b_prev_update (\<lambda>_. NBUF))) (
       thenK (modbuf nx (b_prev_update (\<lambda>_. b))) (
       modbuf NBUF (b_next_update (\<lambda>_. b))))))))))) (
     release BcacheLock))))))"

definition bpin :: "nat \<Rightarrow> ('a blk_state_scheme, unit) kM" where
  "bpin b =
     thenK (acquire BcacheLock) (
     thenK (modbuf b (\<lambda>bf. bf\<lparr>b_refcnt := b_refcnt bf + 1\<rparr>)) (
     release BcacheLock))"

definition bunpin :: "nat \<Rightarrow> ('a blk_state_scheme, unit) kM" where
  "bunpin b =
     thenK (acquire BcacheLock) (
     thenK (modbuf b (\<lambda>bf. bf\<lparr>b_refcnt := b_refcnt bf - 1\<rparr>)) (
     release BcacheLock))"

text \<open>Access to \<^verbatim>\<open>b->data\<close>.\<close>

definition bdata :: "nat \<Rightarrow> ('a blk_state_scheme, u8 list) kM" where
  "bdata b = getsK (\<lambda>s. b_data (bufs s b))"

definition set_bdata :: "nat \<Rightarrow> u8 list \<Rightarrow> ('a blk_state_scheme, unit) kM" where
  "set_bdata b d = modbuf b (b_data_update (\<lambda>_. d))"

section \<open>The linked list\<close>

fun chain :: "(nat \<Rightarrow> nat) \<Rightarrow> nat \<Rightarrow> nat list \<Rightarrow> nat \<Rightarrow> bool" where
  "chain f a [] z = (f a = z)"
| "chain f a (x # xs) z = (f a = x \<and> chain f x xs z)"

text \<open>The buffers, most recently used first.\<close>

definition dll :: "(nat \<Rightarrow> buf) \<Rightarrow> nat list \<Rightarrow> bool" where
  "dll B xs \<longleftrightarrow> distinct xs \<and> set xs = {..<NBUF} \<and>
     chain (\<lambda>b. b_next (B b)) NBUF xs NBUF \<and> chain (\<lambda>b. b_prev (B b)) NBUF (rev xs) NBUF"

lemma chain_append: "chain f a (xs @ x # ys) z \<longleftrightarrow> chain f a xs x \<and> chain f x ys z"
  by (induction xs arbitrary: a) auto

lemma chain_cong: "(\<And>y. y = a \<or> y \<in> set xs \<Longrightarrow> f y = g y) \<Longrightarrow> chain f a xs z = chain g a xs z"
  by (induction xs arbitrary: a) auto

lemma chain_last: "chain f a xs z \<Longrightarrow> f (last (a # xs)) = z"
  by (induction xs arbitrary: a) auto

lemma chain_redirect:
  assumes "chain f a xs z" and "distinct (a # xs)" and "\<And>y. y \<in> set (a # xs) \<Longrightarrow> y \<noteq> last (a # xs) \<Longrightarrow> g y = f y"
    and "g (last (a # xs)) = z'"
  shows "chain g a xs z'"
  using assms
proof (induction xs arbitrary: a)
  case (Cons x xs)
  have "last (a # x # xs) \<in> set (x # xs)" by simp
  then have "a \<noteq> last (a # x # xs)" using Cons.prems(2) by auto
  then have "g a = x" using Cons.prems(1,3) by simp
  moreover have "chain g x xs z'"
    using Cons.prems by (intro Cons.IH) auto
  ultimately show ?case by simp
qed simp


text \<open>Joining the two halves of a chain around a removed element.\<close>

lemma chain_remove:
  assumes "chain f a xs b" "chain f b ys z" "distinct (a # xs)" "set ys \<inter> insert a (set xs) = {}"
    and "\<And>y. y \<in> set (a # xs) \<union> set ys \<Longrightarrow> y \<noteq> last (a # xs) \<Longrightarrow> g y = f y" and "g (last (a # xs)) = f b"
  shows "chain g a (xs @ ys) z"
proof (cases ys)
  case Nil
  then have "f b = z" using assms(2) by simp
  then show ?thesis unfolding Nil append_Nil2
    by (intro chain_redirect [OF assms(1,3)]) (use assms(5,6) in auto)
next
  case (Cons y ys')
  then have fy: "f b = y" "chain f y ys' z" using assms(2) by simp_all
  have "chain g a xs y"
    by (rule chain_redirect [OF assms(1,3)]) (use assms(5,6) fy(1) in auto)
  moreover have "chain g y ys' z"
  proof -
    have "g w = f w" if "w = y \<or> w \<in> set ys'" for w
    proof (rule assms(5))
      show "w \<in> set (a # xs) \<union> set ys" using that Cons by auto
      have "last (a # xs) \<in> insert a (set xs)" by simp
      then show "w \<noteq> last (a # xs)" using that Cons assms(4) by auto
    qed
    then show ?thesis using chain_cong [of y ys' g f z] fy(2) by blast
  qed
  ultimately show ?thesis by (simp add: Cons chain_append)
qed

definition relink :: "nat \<Rightarrow> (nat \<Rightarrow> buf) \<Rightarrow> nat \<Rightarrow> buf" where
  "relink b B = (let nx = b_next (B b); pv = b_prev (B b);
     B1 = B(nx := (B nx)\<lparr>b_prev := pv\<rparr>);
     B2 = B1(pv := (B1 pv)\<lparr>b_next := nx\<rparr>);
     hn = b_next (B2 NBUF);
     B3 = B2(b := (B2 b)\<lparr>b_next := hn\<rparr>);
     B4 = B3(b := (B3 b)\<lparr>b_prev := NBUF\<rparr>);
     B5 = B4(hn := (B4 hn)\<lparr>b_prev := b\<rparr>)
     in B5(NBUF := (B5 NBUF)\<lparr>b_next := b\<rparr>))"

lemma link_upd:
  "b_next ((B(y := (B y)\<lparr>b_next := v\<rparr>)) x) = ((\<lambda>x. b_next (B x))(y := v)) x"
  "b_next ((B(y := (B y)\<lparr>b_prev := v\<rparr>)) x) = b_next (B x)"
  "b_prev ((B(y := (B y)\<lparr>b_prev := v\<rparr>)) x) = ((\<lambda>x. b_prev (B x))(y := v)) x"
  "b_prev ((B(y := (B y)\<lparr>b_next := v\<rparr>)) x) = b_prev (B x)"
  by simp_all

lemma chain_first: "chain f a xs z \<Longrightarrow> f a = hd (xs @ [z])"
  by (cases xs) auto

lemma dll_relink:
  assumes "dll B (ys @ b # zs)"
  shows "dll (relink b B) (b # ys @ zs)"
proof -
  let ?N = "\<lambda>x. b_next (B x)" and ?P = "\<lambda>x. b_prev (B x)"
  let ?nx = "b_next (B b)" and ?pv = "b_prev (B b)"
  let ?hn = "(?N(?pv := ?nx)) NBUF"
  have d: "distinct (ys @ b # zs)" and st: "set (ys @ b # zs) = {..<NBUF}"
    and N: "chain ?N NBUF ys b" "chain ?N b zs NBUF" and P: "chain ?P NBUF (rev zs) b" "chain ?P b (rev ys) NBUF"
    using assms by (simp_all add: dll_def chain_append)
  have H: "NBUF \<notin> set ys" "NBUF \<notin> set zs" "NBUF \<noteq> b" using st by auto
  have pv: "?pv = last (NBUF # ys)" using chain_first [OF P(2)] by (cases ys rule: rev_cases) simp_all
  have nx: "?nx = hd (zs @ [NBUF])" using chain_first [OF N(2)] .
  have hn: "?hn = hd (ys @ zs @ [NBUF])"
  proof (cases "ys = []")
    case False
    then have "last ys \<in> set ys" "last (NBUF # ys) = last ys" by simp_all
    then have "?pv \<noteq> NBUF" using pv H(1) by metis
    then show ?thesis using chain_first [OF N(1)] False by simp
  qed (use pv nx in simp)
  have nxl: "?nx = last (NBUF # rev zs)" using nx by (cases zs) simp_all
  have hnl: "?hn = last (NBUF # rev zs @ rev ys)" using hn by (cases ys; cases zs) simp_all
  have ne: "?hn \<noteq> b" "?pv \<noteq> b" "?nx \<noteq> b"
  proof -
    have "hd (ys @ zs @ [NBUF]) \<in> set (ys @ zs @ [NBUF])" "last (NBUF # ys) \<in> set (NBUF # ys)"
      "hd (zs @ [NBUF]) \<in> set (zs @ [NBUF])"
      by (rule hd_in_set last_in_set, simp)+
    moreover have "b \<notin> set (ys @ zs @ [NBUF])" using d H by auto
    ultimately have "hd (ys @ zs @ [NBUF]) \<noteq> b" "last (NBUF # ys) \<noteq> b" "hd (zs @ [NBUF]) \<noteq> b"
      using H by (metis, metis Un_iff set_append set_ConsD, metis Un_iff set_append)
    then show "?hn \<noteq> b" "?pv \<noteq> b" "?nx \<noteq> b" using hn pv nx by metis+
  qed
  let ?B = "relink b B"
  have N': "b_next (?B x) = (?N(?pv := ?nx, b := ?hn, NBUF := b)) x" for x
    unfolding relink_def Let_def link_upd ..
  have P': "b_prev (?B x) = (?P(?nx := ?pv, b := NBUF, ?hn := b)) x" for x
    unfolding relink_def Let_def link_upd ..
  have c1: "chain (?N(?pv := ?nx)) NBUF (ys @ zs) NBUF"
    by (rule chain_remove [OF N]) (use d H pv in auto)
  have "chain (\<lambda>x. b_next (?B x)) NBUF (b # ys @ zs) NBUF"
  proof -
    have "chain (\<lambda>x. b_next (?B x)) b (ys @ zs) NBUF"
      using c1 H d
    proof (cases "ys @ zs")
      case (Cons w ws)
      have "chain (?N(?pv := ?nx)) w ws NBUF" and w: "?hn = w" using c1 by (simp_all add: Cons)
      moreover have "b_next (?B y) = (?N(?pv := ?nx)) y" if "y = w \<or> y \<in> set ws" for y
      proof -
        have "y \<in> set (ys @ zs)" using that by (auto simp: Cons)
        then have "y \<noteq> b" "y \<noteq> NBUF" using d H by auto
        then show ?thesis by (simp add: N')
      qed
      ultimately have "chain (\<lambda>x. b_next (?B x)) w ws NBUF"
        using chain_cong [of w ws "\<lambda>x. b_next (?B x)" "?N(?pv := ?nx)" NBUF] by blast
      moreover have "b_next (?B b) = w" using w H by (simp add: N')
      ultimately show ?thesis unfolding Cons by simp
    next
      case Nil
      then have "b_next (?B b) = NBUF" using c1 H by (simp add: N')
      then show ?thesis unfolding Nil by simp
    qed
    moreover have "b_next (?B NBUF) = b" by (simp add: N')
    ultimately show ?thesis by simp
  qed
  moreover have "chain (\<lambda>x. b_prev (?B x)) NBUF (rev (b # ys @ zs)) NBUF"
  proof -
    have c2: "chain (?P(?nx := ?pv)) NBUF (rev zs @ rev ys) NBUF"
      by (rule chain_remove [OF P]) (use d H nxl in auto)
    have "chain (\<lambda>x. b_prev (?B x)) NBUF (rev zs @ rev ys) b"
      by (rule chain_redirect [OF c2]) (use d H hnl ne in \<open>auto simp: P'\<close>)
    moreover have "b_prev (?B b) = NBUF" using ne by (simp add: P')
    ultimately show ?thesis
      using chain_append [of "\<lambda>x. b_prev (?B x)" NBUF "rev zs @ rev ys" b "[]" NBUF] by simp
  qed
  ultimately show ?thesis using d st by (auto simp: dll_def)
qed


section \<open>The cache in a process context\<close>

lemma blk_frame [simp]:
  "disk (acq lk s) = disk s" "disk (rel lk s) = disk s" "disk (touch s) = disk s"
  "dtrace (acq lk s) = dtrace s" "dtrace (rel lk s) = dtrace s" "dtrace (touch s) = dtrace s"
  "bufs (acq lk s) = bufs s" "bufs (rel lk s) = bufs s" "bufs (touch s) = bufs s"
  by (simp_all add: acq_def rel_def pushed_def popped_def touch_def Let_def)

lemma blk_commute [lock_commute]:
  "rel lk (s\<lparr>bufs := B\<rparr>) = (rel lk s)\<lparr>bufs := B\<rparr>" "acq lk (s\<lparr>bufs := B\<rparr>) = (acq lk s)\<lparr>bufs := B\<rparr>"
  "touch (s\<lparr>bufs := B\<rparr>) = (touch s)\<lparr>bufs := B\<rparr>"
  "rel lk (s\<lparr>disk := D\<rparr>) = (rel lk s)\<lparr>disk := D\<rparr>" "acq lk (s\<lparr>disk := D\<rparr>) = (acq lk s)\<lparr>disk := D\<rparr>"
  "touch (s\<lparr>disk := D\<rparr>) = (touch s)\<lparr>disk := D\<rparr>"
  "rel lk (s\<lparr>dtrace := T\<rparr>) = (rel lk s)\<lparr>dtrace := T\<rparr>" "acq lk (s\<lparr>dtrace := T\<rparr>) = (acq lk s)\<lparr>dtrace := T\<rparr>"
  "touch (s\<lparr>dtrace := T\<rparr>) = (touch s)\<lparr>dtrace := T\<rparr>"
  by (simp_all add: rel_def popped_def acq_def pushed_def touch_def Let_def sie_def)

lemma blk_upd [simp]:
  "cpu_inv (s\<lparr>bufs := B\<rparr>) = cpu_inv s" "lock_free lk (s\<lparr>bufs := B\<rparr>) = lock_free lk s"
  "cpu_inv (s\<lparr>disk := D\<rparr>) = cpu_inv s" "lock_free lk (s\<lparr>disk := D\<rparr>) = lock_free lk s"
  "cpu_inv (s\<lparr>dtrace := T\<rparr>) = cpu_inv s" "lock_free lk (s\<lparr>dtrace := T\<rparr>) = lock_free lk s"
  "proc_ctx p (s\<lparr>bufs := B\<rparr>) = proc_ctx p s" "proc_ctx p (s\<lparr>disk := D\<rparr>) = proc_ctx p s"
  "proc_ctx p (s\<lparr>dtrace := T\<rparr>) = proc_ctx p s"
  by (simp_all add: cpu_inv_def sie_def lock_free_def proc_ctx_def)

lemma modbuf_run [kM_simps]: "modbuf b f s = Ok () (s\<lparr>bufs := (bufs s)(b := f (bufs s b))\<rparr>)"
  by (simp add: modbuf_def)

text \<open>A critical section of \<^verbatim>\<open>bcache.lock\<close> that only changes the buffers.\<close>

lemma bcache_section:
  assumes "proc_ctx p s"
  shows "acquire lk s = Ok () (acq lk s)"
    and "release lk ((acq lk s)\<lparr>bufs := B\<rparr>) = Ok () ((touch s)\<lparr>bufs := B\<rparr>)"
proof -
  note d = proc_ctxD [OF assms]
  show "acquire lk s = Ok () (acq lk s)" using d(2) by (rule acquire_free)
  have "release lk ((acq lk s)\<lparr>bufs := B\<rparr>) = Ok () (rel lk ((acq lk s)\<lparr>bufs := B\<rparr>))"
    using d(1) by (rule release_after) (simp add: hart_eq_def)
  then show "release lk ((acq lk s)\<lparr>bufs := B\<rparr>) = Ok () ((touch s)\<lparr>bufs := B\<rparr>)"
    using d by (simp add: lock_commute rel_acq)
qed

section \<open>Searching the list\<close>

lemma bget_cached_chain:
  assumes "chain (\<lambda>b. b_next (bufs s b)) a xs NBUF" "NBUF \<notin> set xs" "length xs < n"
  shows "bget_cached n dev bn (b_next (bufs s a)) s
    = Ok (find (\<lambda>b. b_dev (bufs s b) = dev \<and> b_blockno (bufs s b) = bn) xs) s"
  using assms
proof (induction xs arbitrary: a n)
  case Nil
  then show ?case by (cases n) (simp_all add: kM_simps)
next
  case (Cons x xs)
  then obtain m where m: "n = Suc m" by (cases n) auto
  have "bget_cached m dev bn (b_next (bufs s x)) s
      = Ok (find (\<lambda>b. b_dev (bufs s b) = dev \<and> b_blockno (bufs s b) = bn) xs) s"
    using Cons.prems m by (intro Cons.IH) auto
  then show ?case using Cons.prems m by (auto simp: kM_simps)
qed

lemma bget_unused_chain:
  assumes "chain (\<lambda>b. b_prev (bufs s b)) a xs NBUF" "NBUF \<notin> set xs" "length xs < n"
  shows "bget_unused n (b_prev (bufs s a)) s = Ok (find (\<lambda>b. b_refcnt (bufs s b) = 0) xs) s"
  using assms
proof (induction xs arbitrary: a n)
  case Nil
  then show ?case by (cases n) (simp_all add: kM_simps)
next
  case (Cons x xs)
  then obtain m where m: "n = Suc m" by (cases n) auto
  have "bget_unused m (b_prev (bufs s x)) s = Ok (find (\<lambda>b. b_refcnt (bufs s b) = 0) xs) s"
    using Cons.prems m by (intro Cons.IH) auto
  then show ?case using Cons.prems m by (auto simp: kM_simps)
qed

declare bget_cached.simps [simp del] bget_unused.simps [simp del]

lemma dllD:
  assumes "dll B xs"
  shows "NBUF \<notin> set xs" "length xs = NBUF" "set xs = {..<NBUF}" "distinct xs"
    "chain (\<lambda>b. b_next (B b)) NBUF xs NBUF" "chain (\<lambda>b. b_prev (B b)) NBUF (rev xs) NBUF"
proof -
  show st: "set xs = {..<NBUF}" and d: "distinct xs" using assms by (simp_all add: dll_def)
  then show "NBUF \<notin> set xs" by simp
  show "length xs = NBUF" using distinct_card [OF d] st by simp
qed (use assms in \<open>simp_all add: dll_def\<close>)

lemma dll_cong:
  assumes "dll B xs" "\<And>b. b \<le> NBUF \<Longrightarrow> b_next (C b) = b_next (B b)" "\<And>b. b \<le> NBUF \<Longrightarrow> b_prev (C b) = b_prev (B b)"
  shows "dll C xs"
proof -
  have st: "set xs = {..<NBUF}" using assms(1) by (simp add: dll_def)
  have "chain (\<lambda>b. b_next (C b)) NBUF xs NBUF = chain (\<lambda>b. b_next (B b)) NBUF xs NBUF"
    "chain (\<lambda>b. b_prev (C b)) NBUF (rev xs) NBUF = chain (\<lambda>b. b_prev (B b)) NBUF (rev xs) NBUF"
    using assms(2,3) st by (intro chain_cong; auto)+
  then show ?thesis using assms(1) by (simp add: dll_def)
qed

lemma find_SomeD: "find P xs = Some x \<Longrightarrow> P x \<and> x \<in> set xs"
  by (auto simp: find_Some_iff)

lemma find_unique:
  assumes "P b" "b \<in> set xs" "\<And>c. c \<in> set xs \<Longrightarrow> P c \<Longrightarrow> c = b"
  shows "find P xs = Some b"
proof (cases "find P xs")
  case None
  then show ?thesis using assms(1,2) by (auto simp: find_None_iff)
next
  case (Some c)
  then have "P c" "c \<in> set xs" by (auto simp: find_Some_iff)
  then show ?thesis using assms(3) Some by simp
qed

section \<open>The cache as a store of blocks\<close>

definition caches :: "'a blk_state_scheme \<Rightarrow> u32 \<Rightarrow> nat \<Rightarrow> bool" where
  "caches s bn b \<longleftrightarrow> b_dev (bufs s b) = ROOTDEV \<and> b_blockno (bufs s b) = bn"

definition find_buf :: "'a blk_state_scheme \<Rightarrow> u32 \<Rightarrow> nat option" where
  "find_buf s bn = find (caches s bn) [0..<NBUF]"

definition view :: "'a blk_state_scheme \<Rightarrow> u32 \<Rightarrow> u8 list" where
  "view s bn = (case find_buf s bn of Some b \<Rightarrow> b_data (bufs s b) | None \<Rightarrow> disk s bn)"

definition refs :: "'a blk_state_scheme \<Rightarrow> u32 \<Rightarrow> nat" where
  "refs s bn = (case find_buf s bn of Some b \<Rightarrow> unat (b_refcnt (bufs s b)) | None \<Rightarrow> 0)"

definition bcache_inv :: "'a blk_state_scheme \<Rightarrow> bool" where
  "bcache_inv s \<longleftrightarrow> (\<exists>xs. dll (bufs s) xs) \<and>
     (\<forall>b < NBUF. \<forall>c < NBUF. b_dev (bufs s b) = ROOTDEV \<longrightarrow> b_dev (bufs s c) = ROOTDEV \<longrightarrow>
        b_blockno (bufs s b) = b_blockno (bufs s c) \<longrightarrow> b = c) \<and>
     (\<forall>b < NBUF. b_dev (bufs s b) = ROOTDEV \<longrightarrow> b_valid (bufs s b)) \<and>
     (\<forall>b < NBUF. b_dev (bufs s b) = ROOTDEV \<longrightarrow> b_refcnt (bufs s b) = 0 \<longrightarrow>
        b_data (bufs s b) = disk s (b_blockno (bufs s b))) \<and>
     (\<forall>b < NBUF. b_refcnt (bufs s b) \<noteq> 0 \<longrightarrow> b_dev (bufs s b) = ROOTDEV) \<and>
     (\<forall>b < NBUF. sl_locked (sleeplocks s (BufLock b)) \<longrightarrow> b_refcnt (bufs s b) \<noteq> 0)"

text \<open>\<open>H bn = Some b\<close>: the calling process holds the lock of buffer \<open>b\<close>, which caches block \<open>bn\<close>.\<close>

definition bc :: "nat \<Rightarrow> (u32 \<Rightarrow> nat option) \<Rightarrow> (u32 \<Rightarrow> u8 list) \<Rightarrow> (u32 \<Rightarrow> nat) \<Rightarrow> 'a blk_state_scheme \<Rightarrow> bool" where
  "bc p H V R s \<longleftrightarrow> proc_ctx p s \<and> bcache_inv s \<and> view s = V \<and> refs s = R \<and>
     (\<forall>bn b. H bn = Some b \<longrightarrow> find_buf s bn = Some b \<and> sl_pid (sleeplocks s (BufLock b)) = p_pid (procs s ! p)) \<and>
     (\<forall>b < NBUF. sl_locked (sleeplocks s (BufLock b)) \<longleftrightarrow> b \<in> ran H)"

lemma find_buf_Some:
  assumes "bcache_inv s"
  shows "find_buf s bn = Some b \<longleftrightarrow> b < NBUF \<and> caches s bn b"
proof
  assume "find_buf s bn = Some b"
  then show "b < NBUF \<and> caches s bn b" by (auto simp: find_buf_def find_Some_iff)
next
  assume "b < NBUF \<and> caches s bn b"
  then show "find_buf s bn = Some b"
    unfolding find_buf_def using assms by (intro find_unique) (auto simp: bcache_inv_def caches_def)
qed

lemma find_buf_dll:
  assumes "bcache_inv s" "dll (bufs s) xs"
  shows "find (\<lambda>b. b_dev (bufs s b) = ROOTDEV \<and> b_blockno (bufs s b) = bn) xs = find_buf s bn"
proof (cases "find_buf s bn")
  case None
  then have "\<forall>b \<in> set xs. \<not> caches s bn b"
    using dllD(3) [OF assms(2)] by (auto simp: find_buf_def find_None_iff)
  then show ?thesis using None by (auto simp: find_None_iff caches_def)
next
  case (Some b)
  then have b: "b < NBUF" "caches s bn b" using find_buf_Some [OF assms(1)] by auto
  have "find (\<lambda>b. b_dev (bufs s b) = ROOTDEV \<and> b_blockno (bufs s b) = bn) xs = Some b"
    using b assms(1) dllD(3) [OF assms(2)]
    by (intro find_unique) (auto simp: caches_def bcache_inv_def)
  then show ?thesis using Some by simp
qed


section \<open>Frame\<close>

definition procs_frame :: "nat \<Rightarrow> proc list \<Rightarrow> proc list \<Rightarrow> bool" where
  "procs_frame p ps qs \<longleftrightarrow> length qs = length ps \<and> qs ! p = ps ! p \<and>
     (\<forall>i < length ps. qs ! i = ps ! i \<or> qs ! i = (ps ! i)\<lparr>p_state := RUNNABLE\<rparr>)"

text \<open>What the operations of the cache leave alone.\<close>

definition bframe :: "nat \<Rightarrow> 'a blk_state_scheme \<Rightarrow> 'a blk_state_scheme \<Rightarrow> bool" where
  "bframe p s t \<longleftrightarrow> (\<exists>u sl ps D T B. (u = s \<or> u = touch s) \<and>
     t = u\<lparr>sleeplocks := sl, procs := ps, disk := D, dtrace := T, bufs := B\<rparr> \<and>
     (\<forall>i. sl (InodeLock i) = sleeplocks s (InodeLock i)) \<and> procs_frame p (procs s) ps)"

lemma procs_frame_refl: "procs_frame p ps ps"
  by (simp add: procs_frame_def)

lemma procs_frame_trans:
  assumes "procs_frame p ps qs" "procs_frame p qs rs"
  shows "procs_frame p ps rs"
  unfolding procs_frame_def
proof (intro conjI allI impI)
  fix i assume i: "i < length ps"
  then have "qs ! i = ps ! i \<or> qs ! i = (ps ! i)\<lparr>p_state := RUNNABLE\<rparr>"
      "rs ! i = qs ! i \<or> rs ! i = (qs ! i)\<lparr>p_state := RUNNABLE\<rparr>"
    using assms by (simp_all add: procs_frame_def)
  then show "rs ! i = ps ! i \<or> rs ! i = (ps ! i)\<lparr>p_state := RUNNABLE\<rparr>" by auto
qed (use assms in \<open>simp_all add: procs_frame_def\<close>)

lemma procs_frame_woken: "p < length ps \<Longrightarrow> procs_frame p ps (woken (Some p) c ps)"
  by (auto simp: procs_frame_def woken1_def)

lemma bframe_refl: "bframe p s s"
  unfolding bframe_def
  by (intro exI [of _ s] exI [of _ "sleeplocks s"] exI [of _ "procs s"] exI [of _ "disk s"] exI [of _ "dtrace s"]
      exI [of _ "bufs s"]) (simp add: procs_frame_refl)

lemma bframeI:
  assumes "\<And>i. sl (InodeLock i) = sleeplocks s (InodeLock i)" "procs_frame p (procs s) ps" "u = s \<or> u = touch s"
  shows "bframe p s (u\<lparr>sleeplocks := sl, procs := ps, disk := D, dtrace := T, bufs := B\<rparr>)"
  unfolding bframe_def using assms by blast

lemma bframe_trans [trans]:
  assumes "bframe p s t" "bframe p t w"
  shows "bframe p s w"
proof -
  obtain u sl ps D T B where u: "u = s \<or> u = touch s"
      "t = u\<lparr>sleeplocks := sl, procs := ps, disk := D, dtrace := T, bufs := B\<rparr>"
      "\<And>i. sl (InodeLock i) = sleeplocks s (InodeLock i)" "procs_frame p (procs s) ps"
    using assms(1) unfolding bframe_def by blast
  obtain v sl' ps' D' T' B' where v: "v = t \<or> v = touch t"
      "w = v\<lparr>sleeplocks := sl', procs := ps', disk := D', dtrace := T', bufs := B'\<rparr>"
      "\<And>i. sl' (InodeLock i) = sleeplocks t (InodeLock i)" "procs_frame p (procs t) ps'"
    using assms(2) unfolding bframe_def by blast
  define u' where "u' = (if v = t then u else touch u)"
  have "w = u'\<lparr>sleeplocks := sl', procs := ps', disk := D', dtrace := T', bufs := B'\<rparr>"
    unfolding v(2) u'_def using v(1) u(2) by (auto simp: lock_commute)
  moreover have "u' = s \<or> u' = touch s" using u(1) by (auto simp: u'_def)
  moreover have "procs_frame p (procs s) ps'" using procs_frame_trans [OF u(4)] v(4) u(2) by simp
  moreover have "sl' (InodeLock i) = sleeplocks s (InodeLock i)" for i using v(3) u(2,3) by simp
  ultimately show ?thesis unfolding bframe_def by blast
qed

lemma bframeD:
  assumes "bframe p s t"
  shows "mem t = mem s" "tp t = tp s" "procs t ! p = procs s ! p" "length (procs t) = length (procs s)"
    "initproc t = initproc s" "nextpid t = nextpid s" "ticks t = ticks s" "fuel t = fuel s"
    "sleeplocks t (InodeLock i) = sleeplocks s (InodeLock i)" "kend t = kend s" "freelist t = freelist s"
  using assms unfolding bframe_def procs_frame_def by auto

section \<open>The operations on the store of blocks\<close>

lemma bc_heldD:
  assumes "bc p H V R s" "H bn = Some b"
  shows "b < NBUF" "caches s bn b" "find_buf s bn = Some b" "b_data (bufs s b) = V bn" "b_blockno (bufs s b) = bn"
    "unat (b_refcnt (bufs s b)) = R bn" "sl_locked (sleeplocks s (BufLock b))" "b_refcnt (bufs s b) \<noteq> 0"
    "sl_pid (sleeplocks s (BufLock b)) = p_pid (procs s ! p)" "0 < R bn"
proof -
  show f: "find_buf s bn = Some b" and "sl_pid (sleeplocks s (BufLock b)) = p_pid (procs s ! p)"
    using assms by (simp_all add: bc_def)
  then show b: "b < NBUF" "caches s bn b" using assms(1) find_buf_Some by (auto simp: bc_def)
  then show "b_blockno (bufs s b) = bn" by (simp add: caches_def)
  show "b_data (bufs s b) = V bn" and r: "unat (b_refcnt (bufs s b)) = R bn"
    using assms(1) f by (auto simp: bc_def view_def refs_def)
  show l: "sl_locked (sleeplocks s (BufLock b))" using assms b(1) by (auto simp: bc_def ran_def)
  then show "b_refcnt (bufs s b) \<noteq> 0" using assms(1) b(1) by (auto simp: bc_def bcache_inv_def)
  then show "0 < R bn" using r by (metis gr0I unat_eq_zero)
qed

text \<open>Changing the data or the count of one buffer.\<close>

lemma bc_update:
  assumes bc: "bc p H V R s" and b: "b < NBUF" "caches s bn b"
    and same: "b_dev x = ROOTDEV" "b_blockno x = bn" "b_valid x" "b_next x = b_next (bufs s b)" "b_prev x = b_prev (bufs s b)"
    and sl: "sl = (sleeplocks s)(BufLock b := l)" and H': "sl_locked l \<longleftrightarrow> H' bn = Some b" "H' = H(bn := H' bn)"
      "H' bn = None \<or> H' bn = Some b" "sl_locked l \<Longrightarrow> sl_pid l = p_pid (procs s ! p) \<and> b_refcnt x \<noteq> 0"
    and coh: "b_refcnt x = 0 \<Longrightarrow> b_data x = disk s bn"
    and ps: "length ps = length (procs s)" "ps ! p = procs s ! p" and u: "u = s \<or> u = touch s"
  shows "bc p H' (V(bn := b_data x)) (R(bn := unat (b_refcnt x)))
    (u\<lparr>sleeplocks := sl, procs := ps, bufs := (bufs s)(b := x)\<rparr>)"
proof -
  let ?t = "u\<lparr>sleeplocks := sl, procs := ps, bufs := (bufs s)(b := x)\<rparr>"
  have ctx: "proc_ctx p ?t" using bc ps(1) u by (auto simp: bc_def)
  have inv: "bcache_inv s" using bc by (simp add: bc_def)
  have ue: "disk u = disk s" using u by auto
  have fb: "find_buf ?t = find_buf s"
    using b same by (auto simp: find_buf_def caches_def fun_eq_iff intro!: arg_cong [where f = "\<lambda>P. find P _"])
  have fbn: "find_buf s bn = Some b" using b find_buf_Some [OF inv] by simp
  have other: "find_buf s k \<noteq> Some b" if "k \<noteq> bn" for k
    using that b(2) find_buf_Some [OF inv, of k b] by (auto simp: caches_def)
  obtain xs where xs: "dll (bufs s) xs" using inv by (auto simp: bcache_inv_def)
  have dll': "dll (bufs ?t) xs" using same by (intro dll_cong [OF xs]) auto
  have "bcache_inv ?t"
    unfolding bcache_inv_def
  proof (intro conjI)
    show "\<exists>xs. dll (bufs ?t) xs" using dll' by blast
    show "\<forall>c<NBUF. sl_locked (sleeplocks ?t (BufLock c)) \<longrightarrow> b_refcnt (bufs ?t c) \<noteq> 0"
      using inv H'(4) by (auto simp: bcache_inv_def sl)
  qed (use inv b same coh ue in \<open>auto simp: bcache_inv_def caches_def\<close>)
  moreover have "view ?t = V(bn := b_data x)"
  proof
    fix k
    show "view ?t k = (V(bn := b_data x)) k"
      using bc fbn other [of k] ue
      by (cases "k = bn"; cases "find_buf s k") (auto simp: view_def fb bc_def)
  qed
  moreover have "refs ?t = R(bn := unat (b_refcnt x))"
  proof
    fix k
    show "refs ?t k = (R(bn := unat (b_refcnt x))) k"
      using bc fbn other [of k] by (cases "k = bn"; cases "find_buf s k") (auto simp: refs_def fb bc_def)
  qed
  moreover have "find_buf ?t k = Some c \<and> sl_pid (sleeplocks ?t (BufLock c)) = p_pid (procs ?t ! p)"
    if "H' k = Some c" for k c
  proof (cases "k = bn")
    case True
    then have "c = b" "sl_locked l" using that H'(1,3) by auto
    then show ?thesis using True fbn fb H'(4) ps(2) by (simp add: sl)
  next
    case False
    then have "H k = Some c" using that H'(2) by (metis fun_upd_other)
    then have k: "find_buf s k = Some c" "sl_pid (sleeplocks s (BufLock c)) = p_pid (procs s ! p)"
      using bc by (auto simp: bc_def)
    then have "c \<noteq> b" using other [OF False] by auto
    then show ?thesis using k fb ps(2) by (simp add: sl)
  qed
  moreover have "sl_locked (sleeplocks ?t (BufLock c)) \<longleftrightarrow> c \<in> ran H'" if "c < NBUF" for c
  proof (cases "c = b")
    case True
    have "b \<in> ran H' \<longleftrightarrow> H' bn = Some b"
    proof
      assume "b \<in> ran H'"
      then obtain k where k: "H' k = Some b" by (auto simp: ran_def)
      show "H' bn = Some b"
      proof (rule ccontr)
        assume "H' bn \<noteq> Some b"
        then have "k \<noteq> bn" using k by auto
        then have "H k = Some b" using k H'(2) by (metis fun_upd_other)
        then have "find_buf s k = Some b" using bc by (auto simp: bc_def)
        then show False using other [OF \<open>k \<noteq> bn\<close>] by simp
      qed
    qed (auto simp: ran_def)
    then show ?thesis using True H'(1) by (simp add: sl)
  next
    case False
    have "H' k = Some c \<longleftrightarrow> H k = Some c" for k
    proof (cases "k = bn")
      case True
      have "H bn \<noteq> Some c" using bc fbn False by (auto simp: bc_def)
      then show ?thesis using True False H'(3) by auto
    next
      case False
      then show ?thesis using H'(2) by (metis fun_upd_other)
    qed
    then have "c \<in> ran H' \<longleftrightarrow> c \<in> ran H" by (auto simp: ran_def)
    then show ?thesis using False bc that by (auto simp: bc_def sl)
  qed
  ultimately show ?thesis unfolding bc_def using ctx by blast
qed


lemma state_eq: "u\<lparr>sleeplocks := sl, procs := ps, bufs := B\<rparr>
    = u\<lparr>sleeplocks := sl, procs := ps, disk := disk u, dtrace := dtrace u, bufs := B\<rparr>"
  by simp

lemma bframe_bufs:
  assumes "\<And>i. sl (InodeLock i) = sleeplocks s (InodeLock i)" "procs_frame p (procs s) ps" "u = s \<or> u = touch s"
  shows "bframe p s (u\<lparr>sleeplocks := sl, procs := ps, bufs := B\<rparr>)"
  unfolding state_eq by (rule bframeI) (use assms in auto)

text \<open>An operation that changes the data or the count of a locked buffer.\<close>

lemma bc_held_update:
  assumes "bc p H V R s" "H bn = Some b" and x: "x = (bufs s b)\<lparr>b_data := d, b_refcnt := n\<rparr>" "n \<noteq> 0"
    and u: "u = s \<or> u = touch s"
  shows "bc p H (V(bn := d)) (R(bn := unat n)) (u\<lparr>bufs := (bufs s)(b := x)\<rparr>)"
    and "bframe p s (u\<lparr>bufs := (bufs s)(b := x)\<rparr>)"
proof -
  note h = bc_heldD [OF assms(1,2)]
  have v: "b_valid (bufs s b)" using assms(1) h(1,2) by (auto simp: bc_def bcache_inv_def caches_def)
  have *: "(u\<lparr>bufs := (bufs s)(b := x)\<rparr>)
      = u\<lparr>sleeplocks := sleeplocks s, procs := procs s, bufs := (bufs s)(b := x)\<rparr>"
    using u by (elim disjE) (simp_all add: touch_def Let_def)
  have "bc p H (V(bn := b_data x)) (R(bn := unat (b_refcnt x)))
      (u\<lparr>sleeplocks := sleeplocks s, procs := procs s, bufs := (bufs s)(b := x)\<rparr>)"
  proof (rule bc_update [OF assms(1) h(1,2), where l = "sleeplocks s (BufLock b)"])
    show "H = H(bn := H bn)" by simp
  qed (use h v x u assms(2) in \<open>simp_all add: caches_def\<close>)
  then show "bc p H (V(bn := d)) (R(bn := unat n)) (u\<lparr>bufs := (bufs s)(b := x)\<rparr>)"
    unfolding * using x(1) by simp
  show "bframe p s (u\<lparr>bufs := (bufs s)(b := x)\<rparr>)"
    unfolding * by (rule bframe_bufs) (use u in \<open>auto simp: procs_frame_refl\<close>)
qed

lemma set_bdata_spec:
  assumes "bc p H V R s" "H bn = Some b"
  shows "\<exists>t. set_bdata b d s = Ok () t \<and> bc p H (V(bn := d)) R t \<and> disk t = disk s \<and> dtrace t = dtrace s \<and> bframe p s t"
proof -
  note h = bc_heldD [OF assms]
  let ?x = "(bufs s b)\<lparr>b_data := d, b_refcnt := b_refcnt (bufs s b)\<rparr>"
  have "set_bdata b d s = Ok () (s\<lparr>bufs := (bufs s)(b := ?x)\<rparr>)"
    by (simp add: set_bdata_def kM_simps)
  moreover have "R(bn := unat (b_refcnt (bufs s b))) = R" using h(6) by auto
  ultimately show ?thesis
    using bc_held_update [OF assms refl h(8), of s d] by simp
qed

lemma bdata_run: "bc p H V R s \<Longrightarrow> H bn = Some b \<Longrightarrow> bdata b s = Ok (V bn) s"
  by (simp add: bdata_def bc_heldD)

lemma bpin_run:
  assumes "cpu_inv s" "lock_free BcacheLock s"
  shows "bpin b s = Ok () ((touch s)\<lparr>bufs := (bufs s)(b := (bufs s b)\<lparr>b_refcnt := b_refcnt (bufs s b) + 1\<rparr>)\<rparr>)"
proof -
  have "release BcacheLock ((acq BcacheLock s)\<lparr>bufs := B\<rparr>) = Ok () (rel BcacheLock ((acq BcacheLock s)\<lparr>bufs := B\<rparr>))" for B
    using assms(1) by (rule release_after) (simp add: hart_eq_def)
  then show ?thesis using assms by (simp add: bpin_def kM_simps acquire_free lock_commute rel_acq)
qed

lemma bpin_spec:
  assumes "bc p H V R s" "H bn = Some b" "R bn < 2 ^ 32 - 1"
  shows "\<exists>t. bpin b s = Ok () t \<and> bc p H V (R(bn := R bn + 1)) t \<and> disk t = disk s \<and> dtrace t = dtrace s \<and> bframe p s t"
proof -
  note h = bc_heldD [OF assms(1,2)]
  have ctx: "proc_ctx p s" using assms(1) by (simp add: bc_def)
  let ?x = "(bufs s b)\<lparr>b_data := V bn, b_refcnt := b_refcnt (bufs s b) + 1\<rparr>"
  have x: "(bufs s b)\<lparr>b_refcnt := b_refcnt (bufs s b) + 1\<rparr> = ?x" using h(4) by simp
  have "bpin b s = Ok () ((touch s)\<lparr>bufs := (bufs s)(b := ?x)\<rparr>)"
    by (simp add: bpin_def kM_simps bcache_section [OF ctx] x)
  moreover have n: "unat (b_refcnt (bufs s b) + 1) = R bn + 1"
    using h(6) assms(3) by (simp add: unat_word_ariths)
  moreover from this have "b_refcnt (bufs s b) + 1 \<noteq> 0" by (metis Suc_eq_plus1 nat.distinct(1) unat_0)
  ultimately show ?thesis
    using bc_held_update [OF assms(1,2) refl, of "b_refcnt (bufs s b) + 1" "touch s" "V bn"] by simp
qed

lemma bunpin_spec:
  assumes "bc p H V R s" "H bn = Some b" "1 < R bn"
  shows "\<exists>t. bunpin b s = Ok () t \<and> bc p H V (R(bn := R bn - 1)) t \<and> disk t = disk s \<and> dtrace t = dtrace s \<and> bframe p s t"
proof -
  note h = bc_heldD [OF assms(1,2)]
  have ctx: "proc_ctx p s" using assms(1) by (simp add: bc_def)
  let ?x = "(bufs s b)\<lparr>b_data := V bn, b_refcnt := b_refcnt (bufs s b) - 1\<rparr>"
  have x: "(bufs s b)\<lparr>b_refcnt := b_refcnt (bufs s b) - 1\<rparr> = ?x" using h(4) by simp
  have "bunpin b s = Ok () ((touch s)\<lparr>bufs := (bufs s)(b := ?x)\<rparr>)"
    by (simp add: bunpin_def kM_simps bcache_section [OF ctx] x)
  moreover have n: "unat (b_refcnt (bufs s b) - 1) = R bn - 1"
    using h(6,8) by (simp add: unat_minus_one)
  moreover from this have "b_refcnt (bufs s b) - 1 \<noteq> 0" using assms(3) by (metis diff_is_0_eq' leD nat_less_le unat_0 zero_less_diff)
  ultimately show ?thesis
    using bc_held_update [OF assms(1,2) refl, of "b_refcnt (bufs s b) - 1" "touch s" "V bn"] by simp
qed

lemma find_buf_cong: "bufs t = bufs s \<Longrightarrow> find_buf t = find_buf s"
  by (simp add: find_buf_def caches_def [abs_def] fun_eq_iff)

lemma caches_touch [simp]: "caches (touch s) = caches s"
  by (simp add: caches_def fun_eq_iff)

lemma view_touch [simp]: "find_buf (touch s) = find_buf s" "view (touch s) = view s" "refs (touch s) = refs s"
  by (simp_all add: find_buf_def view_def refs_def fun_eq_iff split: option.split)

lemma bc_touch: "bc p H V R (touch s) = bc p H V R s"
  by (simp add: bc_def bcache_inv_def)

lemma holdingsleep_held:
  assumes "bc p H V R s" "H bn = Some b"
  shows "holdingsleep (BufLock b) s = Ok True (touch s)"
  using holdingsleep_run [of p s "BufLock b"] bc_heldD [OF assms] assms(1) by (simp add: bc_def)

lemma bwrite_spec:
  assumes "bc p H V R s" "H bn = Some b"
  shows "\<exists>t. bwrite b s = Ok () t \<and> bc p H V R t \<and> disk t = (disk s)(bn := V bn) \<and>
    dtrace t = dtrace s @ [(bn, V bn)] \<and> bframe p s t"
proof -
  note h = bc_heldD [OF assms]
  let ?t = "(touch s)\<lparr>disk := (disk s)(bn := V bn), dtrace := dtrace s @ [(bn, V bn)]\<rparr>"
  have "bwrite b s = Ok () ?t"
    using h(4,5) by (simp add: bwrite_def kM_simps holdingsleep_held [OF assms] disk_rw_def)
  moreover have "bc p H V R ?t"
  proof -
    have inv: "bcache_inv s" using assms(1) by (simp add: bc_def)
    have "bcache_inv ?t"
      using inv h(1,2,8) unfolding bcache_inv_def caches_def by auto
    moreover have fb: "find_buf ?t = find_buf s" by (rule find_buf_cong) simp
    moreover have "view ?t = view s"
    proof
      fix k show "view ?t k = view s k"
        using h(3) by (cases "k = bn"; cases "find_buf s k") (auto simp: view_def fb)
    qed
    moreover have "refs ?t = refs s" by (simp add: refs_def fb fun_eq_iff split: option.split)
    ultimately show ?thesis using assms(1) by (simp add: bc_def)
  qed
  moreover have "bframe p s ?t"
    using bframeI [where sl = "sleeplocks s" and s = s and p = p and ps = "procs s" and u = "touch s"
        and D = "(disk s)(bn := V bn)" and T = "dtrace s @ [(bn, V bn)]" and B = "bufs s"]
    by (simp add: procs_frame_refl touch_def Let_def)
  ultimately show ?thesis by simp
qed


text \<open>Moving a buffer to the front of the list changes nothing that the abstraction sees.\<close>

lemma link_upd_other:
  "b_valid ((B(y := (B y)\<lparr>b_next := v\<rparr>)) x) = b_valid (B x)" "b_valid ((B(y := (B y)\<lparr>b_prev := v\<rparr>)) x) = b_valid (B x)"
  "b_dev ((B(y := (B y)\<lparr>b_next := v\<rparr>)) x) = b_dev (B x)" "b_dev ((B(y := (B y)\<lparr>b_prev := v\<rparr>)) x) = b_dev (B x)"
  "b_blockno ((B(y := (B y)\<lparr>b_next := v\<rparr>)) x) = b_blockno (B x)"
  "b_blockno ((B(y := (B y)\<lparr>b_prev := v\<rparr>)) x) = b_blockno (B x)"
  "b_refcnt ((B(y := (B y)\<lparr>b_next := v\<rparr>)) x) = b_refcnt (B x)"
  "b_refcnt ((B(y := (B y)\<lparr>b_prev := v\<rparr>)) x) = b_refcnt (B x)"
  "b_data ((B(y := (B y)\<lparr>b_next := v\<rparr>)) x) = b_data (B x)" "b_data ((B(y := (B y)\<lparr>b_prev := v\<rparr>)) x) = b_data (B x)"
  by simp_all

lemma relink_fields:
  "b_valid (relink b B x) = b_valid (B x)" "b_dev (relink b B x) = b_dev (B x)"
  "b_blockno (relink b B x) = b_blockno (B x)" "b_refcnt (relink b B x) = b_refcnt (B x)"
  "b_data (relink b B x) = b_data (B x)"
  unfolding relink_def Let_def link_upd_other by (rule refl)+

lemma bc_relink:
  assumes "bc p H V R s" "b < NBUF"
  shows "bc p H V R (s\<lparr>bufs := relink b (bufs s)\<rparr>)"
proof -
  let ?t = "s\<lparr>bufs := relink b (bufs s)\<rparr>"
  have c: "caches ?t = caches s" by (simp add: caches_def relink_fields fun_eq_iff)
  have fb: "find_buf ?t = find_buf s" unfolding find_buf_def c by (rule refl)
  have v: "view ?t = view s" "refs ?t = refs s"
    by (simp_all add: view_def refs_def fb relink_fields fun_eq_iff split: option.split)
  obtain xs where xs: "dll (bufs s) xs" using assms(1) by (auto simp: bc_def bcache_inv_def)
  then have "b \<in> set xs" using dllD(3) assms(2) by auto
  then obtain ys zs where "xs = ys @ b # zs" by (meson split_list)
  then have "dll (relink b (bufs s)) (b # ys @ zs)" using dll_relink xs by blast
  then have "bcache_inv ?t" using assms(1) by (auto simp: bc_def bcache_inv_def relink_fields)
  then show ?thesis using assms(1) by (simp add: bc_def fb v)
qed

definition unlock_sl :: "sleeplock \<Rightarrow> sleeplock" where
  "unlock_sl l = l\<lparr>sl_locked := False, sl_pid := 0\<rparr>"

lemma unlock_sl_free [simp]: "\<not> sl_locked (unlock_sl l)"
  by (simp add: unlock_sl_def)

lemma brelse_run:
  assumes "bc p H V R s" "H bn = Some b"
  defines "B \<equiv> (bufs s)(b := (bufs s b)\<lparr>b_refcnt := b_refcnt (bufs s b) - 1\<rparr>)"
  shows "brelse b s = Ok () ((touch s)\<lparr>sleeplocks := (sleeplocks s)(BufLock b := unlock_sl (sleeplocks s (BufLock b))),
      procs := woken (Some p) (ChanSleep (BufLock b)) (procs s),
      bufs := (if b_refcnt (bufs s b) = 1 then relink b B else B)\<rparr>)"
proof -
  have ctx: "proc_ctx p s" using assms(1) by (simp add: bc_def)
  note d = proc_ctxD [OF ctx]
  let ?u = "(touch s)\<lparr>sleeplocks := (sleeplocks s)(BufLock b := unlock_sl (sleeplocks s (BufLock b))),
      procs := woken (Some p) (ChanSleep (BufLock b)) (procs s)\<rparr>"
  have ctxu: "proc_ctx p ?u" using ctx by simp
  have "releasesleep (BufLock b) (touch s) = Ok () ?u"
    using releasesleep_run [of p "touch s" "BufLock b"] ctx by (simp add: unlock_sl_def)
  moreover have "b_refcnt (bufs s b) - 1 = 0 \<longleftrightarrow> b_refcnt (bufs s b) = 1" by (metis eq_iff_diff_eq_0)
  moreover have "touch ?u = ?u" by (simp add: lock_commute)
  ultimately show ?thesis
    by (simp add: brelse_def kM_simps holdingsleep_held [OF assms(1,2)] bcache_section [OF ctxu] B_def relink_def Let_def)
qed

lemma brelse_spec:
  assumes "bc p H V R s" "H bn = Some b" "1 < R bn \<or> V bn = disk s bn"
  shows "\<exists>t. brelse b s = Ok () t \<and> bc p (H(bn := None)) V (R(bn := R bn - 1)) t \<and> disk t = disk s \<and>
    dtrace t = dtrace s \<and> bframe p s t"
proof -
  note h = bc_heldD [OF assms(1,2)]
  have ctx: "proc_ctx p s" using assms(1) by (simp add: bc_def)
  note c = proc_ctxD [OF ctx]
  let ?x = "(bufs s b)\<lparr>b_refcnt := b_refcnt (bufs s b) - 1\<rparr>" and ?l = "unlock_sl (sleeplocks s (BufLock b))"
  let ?sl = "(sleeplocks s)(BufLock b := ?l)" and ?ps = "woken (Some p) (ChanSleep (BufLock b)) (procs s)"
  let ?u = "(touch s)\<lparr>sleeplocks := ?sl, procs := ?ps, bufs := (bufs s)(b := ?x)\<rparr>"
  let ?t = "(touch s)\<lparr>sleeplocks := ?sl, procs := ?ps,
      bufs := (if b_refcnt (bufs s b) = 1 then relink b ((bufs s)(b := ?x)) else (bufs s)(b := ?x))\<rparr>"
  have n: "unat (b_refcnt (bufs s b) - 1) = R bn - 1" using h(6,8) by (simp add: unat_minus_one)
  have v: "b_valid (bufs s b)" using assms(1) h(1,2) by (auto simp: bc_def bcache_inv_def caches_def)
  have ps: "procs_frame p (procs s) ?ps" using c by (intro procs_frame_woken) simp
  have "bc p (H(bn := None)) (V(bn := b_data ?x)) (R(bn := unat (b_refcnt ?x))) ?u"
  proof (rule bc_update [OF assms(1) h(1,2), where l = ?l])
    show "b_data ?x = disk s bn" if "b_refcnt ?x = 0"
      using that n h(4) assms(3) by (auto simp: unat_eq_zero)
  qed (use h v ps in \<open>simp_all add: caches_def procs_frame_def\<close>)
  then have u: "bc p (H(bn := None)) V (R(bn := R bn - 1)) ?u" using h(4) n by simp
  have "?t = (if b_refcnt (bufs s b) = 1 then ?u\<lparr>bufs := relink b (bufs ?u)\<rparr> else ?u)" by simp
  then have "bc p (H(bn := None)) V (R(bn := R bn - 1)) ?t" using u bc_relink [OF u h(1)] by presburger
  moreover have "bframe p s ?t" by (rule bframe_bufs) (use ps in auto)
  ultimately show ?thesis using brelse_run [OF assms(1,2)] by simp
qed

section \<open>Reading a block\<close>

lemma acquiresleep_buf:
  assumes "proc_ctx p s" "\<not> sl_locked (sleeplocks s (BufLock b))"
  shows "acquiresleep (BufLock b) ((touch s)\<lparr>bufs := B\<rparr>) = Ok () ((touch s)\<lparr>sleeplocks := (sleeplocks s)(BufLock b :=
     (sleeplocks s (BufLock b))\<lparr>sl_locked := True, sl_pid := p_pid (procs s ! p)\<rparr>), bufs := B\<rparr>)"
  using acquiresleep_free [of p "(touch s)\<lparr>bufs := B\<rparr>" "BufLock b"] assms by (simp add: lock_commute)

lemma bget_hit:
  assumes "bc p H V R s" "find_buf s bn = Some b" "H bn = None"
  shows "bget ROOTDEV bn s = Ok b ((touch s)\<lparr>sleeplocks := (sleeplocks s)(BufLock b :=
      (sleeplocks s (BufLock b))\<lparr>sl_locked := True, sl_pid := p_pid (procs s ! p)\<rparr>),
      bufs := (bufs s)(b := (bufs s b)\<lparr>b_refcnt := b_refcnt (bufs s b) + 1\<rparr>)\<rparr>)"
    and "b < NBUF" "caches s bn b"
proof -
  have ctx: "proc_ctx p s" and inv: "bcache_inv s" using assms(1) by (simp_all add: bc_def)
  show b: "b < NBUF" "caches s bn b" using find_buf_Some [OF inv] assms(2) by auto
  obtain xs where xs: "dll (bufs s) xs" using inv by (auto simp: bcache_inv_def)
  let ?a = "acq BcacheLock s"
  have "bget_cached (Suc NBUF) ROOTDEV bn (b_next (bufs ?a NBUF)) ?a = Ok (Some b) ?a"
    using bget_cached_chain [of ?a NBUF xs "Suc NBUF" ROOTDEV bn] dllD [OF xs] find_buf_dll [OF inv xs] assms(2) by simp
  moreover have "b \<notin> ran H"
  proof
    assume "b \<in> ran H"
    then obtain k where "H k = Some b" by (auto simp: ran_def)
    then have "caches s k b" "H k = Some b" using bc_heldD [OF assms(1)] by auto
    then show False using b(2) assms(3) by (auto simp: caches_def)
  qed
  then have "\<not> sl_locked (sleeplocks s (BufLock b))" using assms(1) b(1) by (auto simp: bc_def)
  ultimately show "bget ROOTDEV bn s = Ok b ((touch s)\<lparr>sleeplocks := (sleeplocks s)(BufLock b :=
      (sleeplocks s (BufLock b))\<lparr>sl_locked := True, sl_pid := p_pid (procs s ! p)\<rparr>),
      bufs := (bufs s)(b := (bufs s b)\<lparr>b_refcnt := b_refcnt (bufs s b) + 1\<rparr>)\<rparr>)"
    by (simp add: bget_def kM_simps bcache_section [OF ctx] acquiresleep_buf [OF ctx])
qed

lemma bc_room:
  assumes "bc p H V R s" "card {bn. R bn \<noteq> 0} < NBUF"
  shows "\<exists>b < NBUF. b_refcnt (bufs s b) = 0"
proof (rule ccontr)
  assume "\<not> ?thesis"
  then have all: "b_refcnt (bufs s b) \<noteq> 0" if "b < NBUF" for b using that by blast
  have inv: "bcache_inv s" and R: "refs s = R" using assms(1) by (simp_all add: bc_def)
  let ?f = "\<lambda>b. b_blockno (bufs s b)"
  have "inj_on ?f {..<NBUF}" using inv all by (auto simp: bcache_inv_def inj_on_def)
  moreover have sub: "?f ` {..<NBUF} \<subseteq> {bn. R bn \<noteq> 0}"
  proof
    fix bn assume "bn \<in> ?f ` {..<NBUF}"
    then obtain b where b: "b < NBUF" "bn = ?f b" by auto
    then have "caches s bn b" using inv all by (auto simp: bcache_inv_def caches_def)
    then have "find_buf s bn = Some b" using find_buf_Some [OF inv] b(1) by simp
    then show "bn \<in> {bn. R bn \<noteq> 0}" using all [OF b(1)] by (auto simp: R [symmetric] refs_def unat_gt_0)
  qed
  ultimately have "NBUF \<le> card {bn. R bn \<noteq> 0}"
    using card_mono [OF _ sub] card_image [of ?f "{..<NBUF}"] finite by simp
  then show False using assms(2) by simp
qed

lemma bget_miss:
  assumes "bc p H V R s" "find_buf s bn = None" "card {bn. R bn \<noteq> 0} < NBUF"
  shows "\<exists>b < NBUF. b_refcnt (bufs s b) = 0 \<and> bget ROOTDEV bn s = Ok b ((touch s)\<lparr>sleeplocks := (sleeplocks s)(BufLock b :=
      (sleeplocks s (BufLock b))\<lparr>sl_locked := True, sl_pid := p_pid (procs s ! p)\<rparr>),
      bufs := (bufs s)(b := (bufs s b)\<lparr>b_dev := ROOTDEV, b_blockno := bn, b_valid := False, b_refcnt := 1\<rparr>)\<rparr>)"
proof -
  have ctx: "proc_ctx p s" and inv: "bcache_inv s" using assms(1) by (simp_all add: bc_def)
  obtain xs where xs: "dll (bufs s) xs" using inv by (auto simp: bcache_inv_def)
  let ?a = "acq BcacheLock s"
  have 1: "bget_cached (Suc NBUF) ROOTDEV bn (b_next (bufs ?a NBUF)) ?a = Ok None ?a"
    using bget_cached_chain [of ?a NBUF xs "Suc NBUF" ROOTDEV bn] dllD [OF xs] find_buf_dll [OF inv xs] assms(2) by simp
  have "find (\<lambda>b. b_refcnt (bufs s b) = 0) (rev xs) \<noteq> None"
    using bc_room [OF assms(1,3)] dllD(3) [OF xs] by (auto simp: find_None_iff)
  then obtain b where f: "find (\<lambda>b. b_refcnt (bufs s b) = 0) (rev xs) = Some b" by blast
  have b: "b < NBUF" "b_refcnt (bufs s b) = 0"
    using find_SomeD [OF f] dllD(3) [OF xs] by simp_all
  have 2: "bget_unused (Suc NBUF) (b_prev (bufs ?a NBUF)) ?a = Ok (Some b) ?a"
    using bget_unused_chain [of ?a NBUF "rev xs" "Suc NBUF"] dllD [OF xs] f by simp
  have "\<not> sl_locked (sleeplocks s (BufLock b))" using inv b by (auto simp: bcache_inv_def)
  then have "bget ROOTDEV bn s = Ok b ((touch s)\<lparr>sleeplocks := (sleeplocks s)(BufLock b :=
      (sleeplocks s (BufLock b))\<lparr>sl_locked := True, sl_pid := p_pid (procs s ! p)\<rparr>),
      bufs := (bufs s)(b := (bufs s b)\<lparr>b_dev := ROOTDEV, b_blockno := bn, b_valid := False, b_refcnt := 1\<rparr>)\<rparr>)"
    using 1 2 by (simp add: bget_def kM_simps bcache_section [OF ctx] acquiresleep_buf [OF ctx])
  then show ?thesis using b by blast
qed


text \<open>Replacing an unused buffer by one that caches a block not cached before.\<close>

lemma bc_recycle:
  assumes bc: "bc p H V R s" and bn: "find_buf s bn = None" and b: "b < NBUF" "b_refcnt (bufs s b) = 0"
    and x: "x = (bufs s b)\<lparr>b_dev := ROOTDEV, b_blockno := bn, b_refcnt := 1, b_data := disk s bn, b_valid := True\<rparr>"
    and l: "sl_locked l" "sl_pid l = p_pid (procs s ! p)"
  shows "bc p (H(bn \<mapsto> b)) V (R(bn := 1)) ((touch s)\<lparr>sleeplocks := (sleeplocks s)(BufLock b := l), bufs := (bufs s)(b := x)\<rparr>)"
proof -
  let ?t = "(touch s)\<lparr>sleeplocks := (sleeplocks s)(BufLock b := l), bufs := (bufs s)(b := x)\<rparr>"
  have inv: "bcache_inv s" and ctx: "proc_ctx p s" using bc by (simp_all add: bc_def)
  have none: "\<not> caches s bn c" if "c < NBUF" for c using bn that by (auto simp: find_buf_def find_None_iff)
  obtain xs where "dll (bufs s) xs" using inv by (auto simp: bcache_inv_def)
  then have "dll (bufs ?t) xs" by (rule dll_cong) (auto simp: x)
  then have inv': "bcache_inv ?t"
    unfolding bcache_inv_def using inv none b by (auto simp: bcache_inv_def caches_def x)
  have fb: "find_buf ?t k = (if k = bn then Some b else if find_buf s k = Some b then None else find_buf s k)" for k
  proof -
    have c: "caches ?t k c \<longleftrightarrow> (if c = b then k = bn else caches s k c)" for c by (auto simp: caches_def x)
    show ?thesis
    proof (cases "find_buf ?t k")
      case None
      then have no: "\<not> caches ?t k c" if "c < NBUF" for c using that by (auto simp: find_buf_def find_None_iff)
      then have "k \<noteq> bn" using c [of b] b(1) by auto
      moreover have "find_buf s k = Some b \<or> find_buf s k = None"
        using no c find_buf_Some [OF inv, of k] by (metis not_Some_eq)
      ultimately show ?thesis using None by auto
    next
      case (Some c)
      then have c': "c < NBUF" "caches ?t k c" using find_buf_Some [OF inv'] by auto
      then show ?thesis
        using Some c [of c] none [of c] find_buf_Some [OF inv, of k c] by (cases "c = b") auto
    qed
  qed
  have out: "find_buf s k = Some b \<Longrightarrow> b_data (bufs s b) = disk s k" for k
    using inv b find_buf_Some [OF inv, of k b] by (auto simp: bcache_inv_def caches_def)
  have other: "c \<noteq> b" if "H k = Some c" for k c
    using bc_heldD(8) [OF bc that] b(2) by auto
  have bx: "bufs ?t c = (if c = b then x else bufs s c)" for c by simp
  have vr: "view ?t k = view s k \<and> refs ?t k = (if k = bn then 1 else refs s k)" for k
  proof (cases "k = bn \<or> find_buf s k = Some b")
    case True
    then show ?thesis
      using fb [of k] bn out [of k] b(2) unfolding view_def refs_def bx by (cases "k = bn") (auto simp: x)
  next
    case False
    then have "find_buf ?t k = find_buf s k" using fb [of k] by simp
    then show ?thesis using False unfolding view_def refs_def bx by (cases "find_buf s k") auto
  qed
  have "view ?t = V" "refs ?t = R(bn := 1)" using bc by (auto simp: bc_def vr)
  moreover have "find_buf ?t k = Some c \<and> sl_pid (sleeplocks ?t (BufLock c)) = p_pid (procs ?t ! p)"
    if "(H(bn \<mapsto> b)) k = Some c" for k c
  proof (cases "k = bn")
    case False
    then have k: "H k = Some c" using that by simp
    then have "find_buf s k = Some c" "sl_pid (sleeplocks s (BufLock c)) = p_pid (procs s ! p)" using bc by (auto simp: bc_def)
    then show ?thesis using False other [OF k] fb [of k] by simp
  qed (use that l fb [of bn] in simp)
  moreover have "sl_locked (sleeplocks ?t (BufLock c)) \<longleftrightarrow> c \<in> ran (H(bn \<mapsto> b))" if "c < NBUF" for c
  proof (cases "c = b")
    case False
    have "H bn \<noteq> Some c" using bc bn by (auto simp: bc_def)
    then have "c \<in> ran (H(bn \<mapsto> b)) \<longleftrightarrow> c \<in> ran H" using False by (auto simp: ran_def)
    then show ?thesis using False bc that by (auto simp: bc_def)
  qed (use l in \<open>auto simp: ran_def\<close>)
  ultimately show ?thesis unfolding bc_def using ctx inv' by simp
qed

lemma bread_spec:
  assumes "bc p H V R s" "H bn = None" "R bn < 2 ^ 32 - 1" "R bn \<noteq> 0 \<or> card {bn. R bn \<noteq> 0} < NBUF"
  shows "\<exists>b t. bread ROOTDEV bn s = Ok b t \<and> bc p (H(bn \<mapsto> b)) V (R(bn := R bn + 1)) t \<and> disk t = disk s \<and>
    dtrace t = dtrace s \<and> bframe p s t"
proof (cases "find_buf s bn")
  case (Some b)
  note g = bget_hit [OF assms(1) Some assms(2)]
  let ?x = "(bufs s b)\<lparr>b_refcnt := b_refcnt (bufs s b) + 1\<rparr>"
  let ?l = "(sleeplocks s (BufLock b))\<lparr>sl_locked := True, sl_pid := p_pid (procs s ! p)\<rparr>"
  let ?t = "(touch s)\<lparr>sleeplocks := (sleeplocks s)(BufLock b := ?l), bufs := (bufs s)(b := ?x)\<rparr>"
  have v: "b_valid (bufs s b)" using assms(1) g(2,3) by (auto simp: bc_def bcache_inv_def caches_def)
  have dr: "V bn = b_data (bufs s b)" "R bn = unat (b_refcnt (bufs s b))"
    using assms(1) Some by (auto simp: bc_def view_def refs_def)
  have n: "unat (b_refcnt (bufs s b) + 1) = R bn + 1" using dr(2) assms(3) by (simp add: unat_word_ariths)
  then have n0: "b_refcnt (bufs s b) + 1 \<noteq> 0" by (metis Suc_eq_plus1 nat.distinct(1) unat_0)
  have e: "?t = (touch s)\<lparr>sleeplocks := (sleeplocks s)(BufLock b := ?l), procs := procs s, bufs := (bufs s)(b := ?x)\<rparr>"
    by (simp add: touch_def Let_def)
  have "bc p (H(bn \<mapsto> b)) (V(bn := b_data ?x)) (R(bn := unat (b_refcnt ?x))) ?t"
    unfolding e
    by (rule bc_update [OF assms(1) g(2,3), where l = ?l]) (use v g(3) n0 assms(2) in \<open>auto simp: caches_def\<close>)
  moreover have "V(bn := b_data (bufs s b)) = V" using dr(1) by auto
  moreover have "bframe p s ?t" unfolding e by (rule bframe_bufs) (auto simp: procs_frame_refl)
  moreover have "bread ROOTDEV bn s = Ok b ?t" using v by (simp add: bread_def kM_simps g(1))
  ultimately show ?thesis using n by simp
next
  case None
  then have R0: "R bn = 0" using assms(1) by (auto simp: bc_def refs_def)
  obtain b where b: "b < NBUF" "b_refcnt (bufs s b) = 0" and g: "bget ROOTDEV bn s = Ok b ((touch s)\<lparr>sleeplocks := (sleeplocks s)(BufLock b :=
      (sleeplocks s (BufLock b))\<lparr>sl_locked := True, sl_pid := p_pid (procs s ! p)\<rparr>),
      bufs := (bufs s)(b := (bufs s b)\<lparr>b_dev := ROOTDEV, b_blockno := bn, b_valid := False, b_refcnt := 1\<rparr>)\<rparr>)"
    using bget_miss [OF assms(1) None] assms(4) R0 by blast
  let ?x = "(bufs s b)\<lparr>b_dev := ROOTDEV, b_blockno := bn, b_refcnt := 1, b_data := disk s bn, b_valid := True\<rparr>"
  let ?l = "(sleeplocks s (BufLock b))\<lparr>sl_locked := True, sl_pid := p_pid (procs s ! p)\<rparr>"
  let ?t = "(touch s)\<lparr>sleeplocks := (sleeplocks s)(BufLock b := ?l), bufs := (bufs s)(b := ?x)\<rparr>"
  have e: "?t = (touch s)\<lparr>sleeplocks := (sleeplocks s)(BufLock b := ?l), procs := procs s, bufs := (bufs s)(b := ?x)\<rparr>"
    by (simp add: touch_def Let_def)
  have "bread ROOTDEV bn s = Ok b ?t" by (simp add: bread_def kM_simps g disk_rw_def)
  moreover have "bc p (H(bn \<mapsto> b)) V (R(bn := 1)) ?t" by (rule bc_recycle [OF assms(1) None b refl]) auto
  moreover have "bframe p s ?t" unfolding e by (rule bframe_bufs) (auto simp: procs_frame_refl)
  ultimately show ?thesis using R0 by simp
qed


lemma bc_clean:
  assumes "bc p H V R s" "R bn = 0"
  shows "V bn = disk s bn"
proof (cases "find_buf s bn")
  case (Some b)
  have inv: "bcache_inv s" using assms(1) by (simp add: bc_def)
  have b: "b < NBUF" "caches s bn b" using Some find_buf_Some [OF inv] by auto
  have "b_refcnt (bufs s b) = 0" using assms Some by (auto simp: bc_def refs_def unat_eq_zero)
  then have "b_data (bufs s b) = disk s bn" using inv b by (auto simp: bcache_inv_def caches_def)
  then show ?thesis using assms(1) Some by (auto simp: bc_def view_def)
qed (use assms(1) in \<open>auto simp: bc_def view_def\<close>)

section \<open>Initialization\<close>

text \<open>After \<open>i\<close> iterations of \<^verbatim>\<open>binit\<close>: the buffers below \<open>i\<close> are linked, the last one first.\<close>

definition inited :: "nat \<Rightarrow> 'a blk_state_scheme \<Rightarrow> 'a blk_state_scheme \<Rightarrow> bool" where
  "inited i s t \<longleftrightarrow> (\<exists>lk sl B. t = s\<lparr>locks := lk, sleeplocks := sl, bufs := B\<rparr> \<and>
     (\<forall>l. lock_free l s \<longrightarrow> lock_free l t) \<and>
     (\<forall>b < i. \<not> sl_locked (sl (BufLock b)) \<and> b_next (B b) = (if b = 0 then NBUF else b - 1) \<and>
        b_prev (B b) = (if Suc b = i then NBUF else Suc b)) \<and>
     b_next (B NBUF) = (if i = 0 then NBUF else i - 1) \<and> b_prev (B NBUF) = (if i = 0 then NBUF else 0) \<and>
     (\<forall>b. b_dev (B b) = b_dev (bufs s b) \<and> b_refcnt (B b) = b_refcnt (bufs s b)))"

lemma inited_step:
  assumes i: "i < NBUF" and Q: "inited i s t"
  shows "\<exists>u. (bindK (getsK (\<lambda>s. b_next (bufs s NBUF))) (\<lambda>nx.
       thenK (modbuf i (b_next_update (\<lambda>_. nx))) (
       thenK (modbuf i (b_prev_update (\<lambda>_. NBUF))) (
       thenK (initsleeplock (BufLock i) ''buffer'') (
       thenK (modbuf nx (b_prev_update (\<lambda>_. i))) (
       modbuf NBUF (b_next_update (\<lambda>_. i)))))))) t = Ok () u \<and> inited (Suc i) s u"
proof -
  obtain lk sl B where t: "t = s\<lparr>locks := lk, sleeplocks := sl, bufs := B\<rparr>" and lf: "\<forall>l. lock_free l s \<longrightarrow> lock_free l t"
    and b: "\<And>b. b < i \<Longrightarrow> \<not> sl_locked (sl (BufLock b)) \<and> b_next (B b) = (if b = 0 then NBUF else b - 1) \<and>
        b_prev (B b) = (if Suc b = i then NBUF else Suc b)"
    and h: "b_next (B NBUF) = (if i = 0 then NBUF else i - 1)" "b_prev (B NBUF) = (if i = 0 then NBUF else 0)"
    and r: "\<And>b. b_dev (B b) = b_dev (bufs s b) \<and> b_refcnt (B b) = b_refcnt (bufs s b)"
    using Q unfolding inited_def by blast
  let ?nx = "b_next (B NBUF)"
  define B1 where "B1 = B(i := (B i)\<lparr>b_next := ?nx, b_prev := NBUF\<rparr>)"
  define B2 where "B2 = B1(?nx := (B1 ?nx)\<lparr>b_prev := i\<rparr>)"
  define B3 where "B3 = B2(NBUF := (B2 NBUF)\<lparr>b_next := i\<rparr>)"
  define lk' where "lk' = lk(SleepLk (BufLock i) := \<lparr>lk_locked = False, lk_name = ''sleep lock'', lk_cpu = None\<rparr>)"
  define sl' where "sl' = sl(BufLock i := \<lparr>sl_locked = False, sl_name = ''buffer'', sl_pid = 0\<rparr>)"
  have run: "(bindK (getsK (\<lambda>s. b_next (bufs s NBUF))) (\<lambda>nx.
       thenK (modbuf i (b_next_update (\<lambda>_. nx))) (
       thenK (modbuf i (b_prev_update (\<lambda>_. NBUF))) (
       thenK (initsleeplock (BufLock i) ''buffer'') (
       thenK (modbuf nx (b_prev_update (\<lambda>_. i))) (
       modbuf NBUF (b_next_update (\<lambda>_. i)))))))) t = Ok () (s\<lparr>locks := lk', sleeplocks := sl', bufs := B3\<rparr>)"
    by (simp add: kM_simps modbuf_def initsleeplock_def initlock_def t B1_def B2_def B3_def lk'_def sl'_def)
  have nx: "?nx = (if i = 0 then NBUF else i - 1)" by (rule h)
  have B3: "b_next (B3 b) = (if b = NBUF then i else if b = i then ?nx else b_next (B b))"
      "b_prev (B3 b) = (if b = ?nx then i else if b = i then NBUF else b_prev (B b))"
      "b_dev (B3 b) = b_dev (bufs s b)" "b_refcnt (B3 b) = b_refcnt (bufs s b)" for b
    using i r [of b] by (auto simp: B3_def B2_def B1_def nx)
  have "\<not> sl_locked (sl' (BufLock b))" if "b < Suc i" for b using that b [of b] by (auto simp: sl'_def less_Suc_eq)
  moreover have "lock_free l (s\<lparr>locks := lk', sleeplocks := sl', bufs := B3\<rparr>)" if "lock_free l s" for l
    using lf that by (auto simp: lock_free_def lk'_def t)
  moreover have "b_next (B3 b) = (if b = 0 then NBUF else b - 1)" "b_prev (B3 b) = (if Suc b = Suc i then NBUF else Suc b)"
    if "b < Suc i" for b
    using that i b [of b] by (auto simp: B3 nx less_Suc_eq)
  moreover have "b_next (B3 NBUF) = i" "b_prev (B3 NBUF) = 0" using i h by (auto simp: B3 nx)
  ultimately have "inited (Suc i) s (s\<lparr>locks := lk', sleeplocks := sl', bufs := B3\<rparr>)"
    unfolding inited_def by (intro exI [of _ lk'] exI [of _ sl'] exI [of _ B3]) (simp add: B3(3,4))
  then show ?thesis using run by blast
qed

lemma chain_down: "(\<And>b. b < n \<Longrightarrow> f b = (if b = 0 then z else b - 1)) \<Longrightarrow> f a = (if n = 0 then z else n - 1) \<Longrightarrow> chain f a (rev [0..<n]) z"
  by (induction n arbitrary: a) auto

lemma chain_up:
  assumes "\<And>b. b < n \<Longrightarrow> f b = (if Suc b = n then z else Suc b)" "f a = (if n = 0 then z else 0)"
  shows "chain f a [0..<n] z"
proof (cases n)
  case (Suc m)
  have "chain f i [Suc i..<n] z" if "i < n" for i
    using that
  proof (induction "n - Suc i" arbitrary: i)
    case 0
    then show ?case using assms(1) [of i] by auto
  next
    case (Suc k)
    then have "Suc i < n" by simp
    then show ?case using Suc.hyps(1) [of "Suc i"] Suc.hyps(2) Suc.prems assms(1) [of i] by (simp add: upt_conv_Cons)
  qed
  from this [of 0] show ?thesis using assms(2) Suc by (simp add: upt_conv_Cons del: upt_Suc)
qed (use assms in simp)

lemma binit_spec:
  assumes "\<And>b. b < NBUF \<Longrightarrow> b_dev (bufs s b) \<noteq> ROOTDEV \<and> b_refcnt (bufs s b) = 0"
  shows "\<exists>t. binit s = Ok () t \<and> bcache_inv t \<and> view t = disk s \<and> refs t = (\<lambda>_. 0) \<and> inited NBUF s t"
proof -
  define s1 where "s1 = s\<lparr>locks := (locks s)(BcacheLock := \<lparr>lk_locked = False, lk_name = ''bcache'', lk_cpu = None\<rparr>),
    bufs := (bufs s)(NBUF := (bufs s NBUF)\<lparr>b_prev := NBUF, b_next := NBUF\<rparr>)\<rparr>"
  have 0: "inited 0 s s1" unfolding inited_def
    by (intro exI [of _ "locks s1"] exI [of _ "sleeplocks s"] exI [of _ "bufs s1"]) (auto simp: s1_def lock_free_def)
  have "\<exists>t. forK [0..<NBUF] (\<lambda>i. bindK (getsK (\<lambda>s. b_next (bufs s NBUF))) (\<lambda>nx.
       thenK (modbuf i (b_next_update (\<lambda>_. nx))) (
       thenK (modbuf i (b_prev_update (\<lambda>_. NBUF))) (
       thenK (initsleeplock (BufLock i) ''buffer'') (
       thenK (modbuf nx (b_prev_update (\<lambda>_. i))) (
       modbuf NBUF (b_next_update (\<lambda>_. i)))))))) s1 = Ok () t \<and> inited NBUF s t"
    by (rule forK_upt [where I = "\<lambda>i. inited i s", OF 0]) (rule inited_step)
  then obtain t where t: "forK [0..<NBUF] (\<lambda>i. bindK (getsK (\<lambda>s. b_next (bufs s NBUF))) (\<lambda>nx.
       thenK (modbuf i (b_next_update (\<lambda>_. nx))) (
       thenK (modbuf i (b_prev_update (\<lambda>_. NBUF))) (
       thenK (initsleeplock (BufLock i) ''buffer'') (
       thenK (modbuf nx (b_prev_update (\<lambda>_. i))) (
       modbuf NBUF (b_next_update (\<lambda>_. i)))))))) s1 = Ok () t" "inited NBUF s t" by blast
  obtain lk sl B where e: "t = s\<lparr>locks := lk, sleeplocks := sl, bufs := B\<rparr>" 
    and b: "\<And>b. b < NBUF \<Longrightarrow> \<not> sl_locked (sl (BufLock b)) \<and> b_next (B b) = (if b = 0 then NBUF else b - 1) \<and>
        b_prev (B b) = (if Suc b = NBUF then NBUF else Suc b)"
    and h: "b_next (B NBUF) = (if NBUF = 0 then NBUF else NBUF - 1)" "b_prev (B NBUF) = (if NBUF = 0 then NBUF else 0)"
    and r: "\<And>b. b_dev (B b) = b_dev (bufs s b) \<and> b_refcnt (B b) = b_refcnt (bufs s b)"
    using t(2) unfolding inited_def by blast
  have "dll B (rev [0..<NBUF])" using b h by (auto simp: dll_def intro!: chain_down chain_up)
  then have inv: "bcache_inv t" using assms b r by (auto simp: bcache_inv_def e)
  have "find_buf t bn = None" for bn using assms r by (auto simp: find_buf_def find_None_iff caches_def e)
  then have "view t = disk s" "refs t = (\<lambda>_. 0)" by (simp_all add: view_def refs_def fun_eq_iff e)
  moreover have "binit s = Ok () t" using t(1) by (simp add: binit_def kM_simps modbuf_def initlock_def s1_def)
  ultimately show ?thesis using inv t(2) by blast
qed

lemma binit_bc:
  assumes "\<And>b. b < NBUF \<Longrightarrow> b_dev (bufs s b) \<noteq> ROOTDEV \<and> b_refcnt (bufs s b) = 0" and "proc_ctx p s"
  shows "\<exists>t. binit s = Ok () t \<and> bc p Map.empty (disk s) (\<lambda>_. 0) t \<and> disk t = disk s \<and> dtrace t = dtrace s \<and> inited NBUF s t"
proof -
  obtain t where t: "binit s = Ok () t" "bcache_inv t" "view t = disk s" "refs t = (\<lambda>_. 0)" "inited NBUF s t"
    using binit_spec [OF assms(1)] by blast
  have f: "disk t = disk s" "dtrace t = dtrace s" "\<And>b. b < NBUF \<Longrightarrow> \<not> sl_locked (sleeplocks t (BufLock b))" "proc_ctx p t"
    using t(5) assms(2) by (auto simp: inited_def proc_ctx_def cpu_inv_def sie_def)
  show ?thesis by (rule exI [of _ t]) (use t f in \<open>simp add: bc_def\<close>)
qed

section \<open>The contract of the buffer cache\<close>

text \<open>A disk after a sequence of block writes.\<close>

definition apply_writes :: "(u32 \<Rightarrow> u8 list) \<Rightarrow> (u32 \<times> u8 list) list \<Rightarrow> u32 \<Rightarrow> u8 list" where
  "apply_writes d ws = foldl (\<lambda>d (bn, x). d(bn := x)) d ws"

lemma apply_writes_simps [simp]:
  "apply_writes d [] = d" "apply_writes d (ws @ [(bn, x)]) = (apply_writes d ws)(bn := x)"
  "apply_writes d ((bn, x) # ws) = apply_writes (d(bn := x)) ws"
  by (simp_all add: apply_writes_def)

text \<open>
  What \<^verbatim>\<open>log.c\<close> and \<^verbatim>\<open>fs.c\<close> rely on: a store of blocks with contents \<open>V\<close> and reference counts \<open>R\<close>, of which the
  blocks \<open>H\<close> are locked by the caller; \<open>cap\<close> blocks can be referenced at a time. A block that is not referenced
  agrees with the disk. \<open>frame\<close> is what no operation changes.
\<close>

locale block_cache =
  fixes inv :: "nat \<Rightarrow> (u32 \<Rightarrow> nat option) \<Rightarrow> (u32 \<Rightarrow> u8 list) \<Rightarrow> (u32 \<Rightarrow> nat) \<Rightarrow> 's \<Rightarrow> bool"
    and frame :: "nat \<Rightarrow> 's \<Rightarrow> 's \<Rightarrow> bool"
    and dsk :: "'s \<Rightarrow> u32 \<Rightarrow> u8 list" and trc :: "'s \<Rightarrow> (u32 \<times> u8 list) list"
    and rd :: "u32 \<Rightarrow> ('s, nat) kM" and wr rls pin unpin :: "nat \<Rightarrow> ('s, unit) kM"
    and getd :: "nat \<Rightarrow> ('s, u8 list) kM" and setd :: "nat \<Rightarrow> u8 list \<Rightarrow> ('s, unit) kM"
    and cap :: nat
  assumes rd_law: "inv p H V R s \<Longrightarrow> H bn = None \<Longrightarrow> R bn < 2 ^ 32 - 1 \<Longrightarrow> R bn \<noteq> 0 \<or> card {bn. R bn \<noteq> 0} < cap \<Longrightarrow>
      \<exists>b t. rd bn s = Ok b t \<and> inv p (H(bn \<mapsto> b)) V (R(bn := R bn + 1)) t \<and> dsk t = dsk s \<and> trc t = trc s \<and> frame p s t"
    and getd_law: "inv p H V R s \<Longrightarrow> H bn = Some b \<Longrightarrow> getd b s = Ok (V bn) s"
    and setd_law: "inv p H V R s \<Longrightarrow> H bn = Some b \<Longrightarrow>
      \<exists>t. setd b d s = Ok () t \<and> inv p H (V(bn := d)) R t \<and> dsk t = dsk s \<and> trc t = trc s \<and> frame p s t"
    and wr_law: "inv p H V R s \<Longrightarrow> H bn = Some b \<Longrightarrow>
      \<exists>t. wr b s = Ok () t \<and> inv p H V R t \<and> dsk t = (dsk s)(bn := V bn) \<and> trc t = trc s @ [(bn, V bn)] \<and> frame p s t"
    and rls_law: "inv p H V R s \<Longrightarrow> H bn = Some b \<Longrightarrow> 1 < R bn \<or> V bn = dsk s bn \<Longrightarrow>
      \<exists>t. rls b s = Ok () t \<and> inv p (H(bn := None)) V (R(bn := R bn - 1)) t \<and> dsk t = dsk s \<and> trc t = trc s \<and> frame p s t"
    and pin_law: "inv p H V R s \<Longrightarrow> H bn = Some b \<Longrightarrow> R bn < 2 ^ 32 - 1 \<Longrightarrow>
      \<exists>t. pin b s = Ok () t \<and> inv p H V (R(bn := R bn + 1)) t \<and> dsk t = dsk s \<and> trc t = trc s \<and> frame p s t"
    and unpin_law: "inv p H V R s \<Longrightarrow> H bn = Some b \<Longrightarrow> 1 < R bn \<Longrightarrow>
      \<exists>t. unpin b s = Ok () t \<and> inv p H V (R(bn := R bn - 1)) t \<and> dsk t = dsk s \<and> trc t = trc s \<and> frame p s t"
    and held_law: "inv p H V R s \<Longrightarrow> H bn = Some b \<Longrightarrow> 0 < R bn"
    and clean_law: "inv p H V R s \<Longrightarrow> R bn = 0 \<Longrightarrow> V bn = dsk s bn"
    and frame_refl: "frame p s s"
    and frame_trans: "frame p s t \<Longrightarrow> frame p t u \<Longrightarrow> frame p s u"
begin

text \<open>The state of the store and what has happened to the disk since \<open>s\<^sub>0\<close>.\<close>

definition stored :: "nat \<Rightarrow> 's \<Rightarrow> (u32 \<Rightarrow> nat option) \<Rightarrow> (u32 \<Rightarrow> u8 list) \<Rightarrow> (u32 \<Rightarrow> nat) \<Rightarrow> (u32 \<times> u8 list) list \<Rightarrow> 's \<Rightarrow> bool" where
  "stored p s0 H V R ws s \<longleftrightarrow> inv p H V R s \<and> frame p s0 s \<and>
     dsk s = apply_writes (dsk s0) ws \<and> trc s = trc s0 @ ws"

lemma stored_init: "inv p H V R s \<Longrightarrow> stored p s H V R [] s"
  by (simp add: stored_def frame_refl)

lemma stored_rd:
  assumes "stored p s0 H V R ws s" "H bn = None" "R bn < 2 ^ 32 - 1" "R bn \<noteq> 0 \<or> card {bn. R bn \<noteq> 0} < cap"
  shows "\<exists>b t. rd bn s = Ok b t \<and> stored p s0 (H(bn \<mapsto> b)) V (R(bn := R bn + 1)) ws t"
  using rd_law [of p H V R s bn] assms frame_trans [of p s0 s] by (fastforce simp: stored_def)

lemma stored_setd:
  assumes "stored p s0 H V R ws s" "H bn = Some b"
  shows "\<exists>t. setd b d s = Ok () t \<and> stored p s0 H (V(bn := d)) R ws t"
  using setd_law [of p H V R s bn b d] assms frame_trans [of p s0 s] by (fastforce simp: stored_def)

lemma stored_getd: "stored p s0 H V R ws s \<Longrightarrow> H bn = Some b \<Longrightarrow> getd b s = Ok (V bn) s"
  using getd_law unfolding stored_def by blast

lemma stored_wr:
  assumes "stored p s0 H V R ws s" "H bn = Some b"
  shows "\<exists>t. wr b s = Ok () t \<and> stored p s0 H V R (ws @ [(bn, V bn)]) t"
proof -
  have i: "inv p H V R s" and f: "frame p s0 s" using assms(1) by (simp_all add: stored_def)
  obtain t where "wr b s = Ok () t" "inv p H V R t" "dsk t = (dsk s)(bn := V bn)" "trc t = trc s @ [(bn, V bn)]" "frame p s t"
    using wr_law [OF i assms(2)] by blast
  then show ?thesis using assms(1) frame_trans [OF f] by (auto simp: stored_def)
qed

lemma stored_rls:
  assumes "stored p s0 H V R ws s" "H bn = Some b" "1 < R bn \<or> V bn = dsk s bn"
  shows "\<exists>t. rls b s = Ok () t \<and> stored p s0 (H(bn := None)) V (R(bn := R bn - 1)) ws t"
  using rls_law [of p H V R s bn b] assms frame_trans [of p s0 s] by (fastforce simp: stored_def)

lemma stored_pin:
  assumes "stored p s0 H V R ws s" "H bn = Some b" "R bn < 2 ^ 32 - 1"
  shows "\<exists>t. pin b s = Ok () t \<and> stored p s0 H V (R(bn := R bn + 1)) ws t"
  using pin_law [of p H V R s bn b] assms frame_trans [of p s0 s] by (fastforce simp: stored_def)

lemma stored_unpin:
  assumes "stored p s0 H V R ws s" "H bn = Some b" "1 < R bn"
  shows "\<exists>t. unpin b s = Ok () t \<and> stored p s0 H V (R(bn := R bn - 1)) ws t"
  using unpin_law [of p H V R s bn b] assms frame_trans [of p s0 s] by (fastforce simp: stored_def)

lemma stored_dsk: "stored p s0 H V R ws s \<Longrightarrow> dsk s = apply_writes (dsk s0) ws"
  by (simp add: stored_def)

lemma stored_clean: "stored p s0 H V R ws s \<Longrightarrow> R bn = 0 \<Longrightarrow> V bn = dsk s bn"
  using clean_law unfolding stored_def by blast

text \<open>
  Copying one block over another: the source is read second and stays referenced, as in \<^verbatim>\<open>write_log\<close>; or it is
  read first, as in \<^verbatim>\<open>install_trans\<close>, where the destination may be unpinned.
\<close>

lemma copy_second:
  assumes st: "stored p s0 H V R ws s" and H: "H a = None" "H b = None" "a \<noteq> b"
    and R: "R b \<noteq> 0" "\<And>x. R x < 2 ^ 32 - 1" "card {bn. R bn \<noteq> 0} < cap"
    and g: "\<And>t. frame p s0 t \<Longrightarrow> g t = b"
  shows "\<exists>t. bindK (rd a) (\<lambda>x. bindK (bindK (getsK g) rd) (\<lambda>y. thenK (bindK (getd y) (setd x)) (thenK (wr x) (
      thenK (rls y) (rls x))))) s = Ok () t \<and> stored p s0 H (V(a := V b)) R (ws @ [(a, V b)]) t"
proof -
  obtain x s1 where 1: "rd a s = Ok x s1" "stored p s0 (H(a \<mapsto> x)) V (R(a := R a + 1)) ws s1"
    using stored_rd [OF st H(1) R(2)] R(3) by blast
  obtain y s2 where 2: "rd b s1 = Ok y s2" "stored p s0 (H(a \<mapsto> x, b \<mapsto> y)) V (R(a := R a + 1, b := R b + 1)) ws s2"
    using stored_rd [OF 1(2), of b] H R(1) R(2) [of b] by auto
  obtain s3 where 3: "setd x (V b) s2 = Ok () s3"
      "stored p s0 (H(a \<mapsto> x, b \<mapsto> y)) (V(a := V b)) (R(a := R a + 1, b := R b + 1)) ws s3"
    using stored_setd [OF 2(2), of a x "V b"] H(3) by auto
  obtain s4 where 4: "wr x s3 = Ok () s4"
      "stored p s0 (H(a \<mapsto> x, b \<mapsto> y)) (V(a := V b)) (R(a := R a + 1, b := R b + 1)) (ws @ [(a, V b)]) s4"
    using stored_wr [OF 3(2), of a x] H(3) by auto
  obtain s5 where 5: "rls y s4 = Ok () s5"
      "stored p s0 ((H(a \<mapsto> x, b \<mapsto> y))(b := None)) (V(a := V b)) ((R(a := R a + 1, b := R b + 1))(b := R b)) (ws @ [(a, V b)]) s5"
    using stored_rls [OF 4(2), of b y] R(1) H(3) by auto
  obtain s6 where 6: "rls x s5 = Ok () s6"
      "stored p s0 ((H(a \<mapsto> x, b \<mapsto> y))(b := None, a := None)) (V(a := V b))
        ((R(a := R a + 1, b := R b + 1))(b := R b, a := R a)) (ws @ [(a, V b)]) s6"
    using stored_rls [OF 5(2), of a x] stored_dsk [OF 5(2)] H(3) by auto
  have "(H(a \<mapsto> x, b \<mapsto> y))(b := None, a := None) = H" "(R(a := R a + 1, b := R b + 1))(b := R b, a := R a) = R"
    using H by auto
  moreover have "g s1 = b" using g 1(2) by (simp add: stored_def)
  ultimately show ?thesis
    using 1(1) 2(1) 3(1) 4(1) 5(1) 6 stored_getd [OF 2(2), of b y] by (simp add: kM_simps)
qed

lemma open_copy:
  assumes st: "stored p s0 H V R ws s" and H: "H a = None" "H b = None" "a \<noteq> b"
    and R: "\<And>x. R x < 2 ^ 32 - 1" "R b \<noteq> 0 \<or> card {bn. R bn \<noteq> 0} + 1 < cap" "card {bn. R bn \<noteq> 0} < cap"
  shows "\<exists>x y t1 t2 t3 t4. rd a s = Ok x t1 \<and> frame p s0 t1 \<and> rd b t1 = Ok y t2 \<and> getd x t2 = Ok (V a) t2 \<and> setd y (V a) t2 = Ok () t3 \<and>
      wr y t3 = Ok () t4 \<and> stored p s0 (H(a \<mapsto> x, b \<mapsto> y)) (V(b := V a)) (R(a := R a + 1, b := R b + 1)) (ws @ [(b, V a)]) t4"
proof -
  obtain x s1 where 1: "rd a s = Ok x s1" "stored p s0 (H(a \<mapsto> x)) V (R(a := R a + 1)) ws s1"
    using stored_rd [OF st H(1) R(1)] R(3) by blast
  have "{bn. (R(a := R a + 1)) bn \<noteq> 0} \<subseteq> insert a {bn. R bn \<noteq> 0}" by auto
  then have "card {bn. (R(a := R a + 1)) bn \<noteq> 0} \<le> card (insert a {bn. R bn \<noteq> 0})" by (rule card_mono [rotated]) simp
  also have "\<dots> \<le> card {bn. R bn \<noteq> 0} + 1" by (simp add: card_insert_if)
  finally have le: "card {bn. (R(a := R a + 1)) bn \<noteq> 0} \<le> card {bn. R bn \<noteq> 0} + 1" .
  have "(R(a := R a + 1)) b = R b" using H(3) by simp
  then have room: "(R(a := R a + 1)) b \<noteq> 0 \<or> card {bn. (R(a := R a + 1)) bn \<noteq> 0} < cap"
    using R(2) le by linarith
  obtain y s2 where 2: "rd b s1 = Ok y s2" "stored p s0 (H(a \<mapsto> x, b \<mapsto> y)) V (R(a := R a + 1, b := R b + 1)) ws s2"
    using stored_rd [OF 1(2), of b] room H R(1) [of b] by auto
  obtain s3 where 3: "setd y (V a) s2 = Ok () s3"
      "stored p s0 (H(a \<mapsto> x, b \<mapsto> y)) (V(b := V a)) (R(a := R a + 1, b := R b + 1)) ws s3"
    using stored_setd [OF 2(2), of b y "V a"] by auto
  obtain s4 where 4: "wr y s3 = Ok () s4"
      "stored p s0 (H(a \<mapsto> x, b \<mapsto> y)) (V(b := V a)) (R(a := R a + 1, b := R b + 1)) (ws @ [(b, V a)]) s4"
    using stored_wr [OF 3(2), of b y] by auto
  have "frame p s0 s1" using 1(2) by (simp add: stored_def)
  then show ?thesis using 1(1) 2 3(1) 4 stored_getd [OF 2(2), of a x] H(3) by auto
qed

lemma close_copy:
  assumes st: "stored p s0 (H(a \<mapsto> x, b \<mapsto> y)) V (R(a := R a + 1, b := R' + 1)) ws s" and H: "H a = None" "H b = None" "a \<noteq> b"
    and cl: "0 < R a \<or> V a = dsk s a" "V b = dsk s b"
  shows "\<exists>t. thenK (rls x) (rls y) s = Ok () t \<and> stored p s0 H V (R(b := R')) ws t"
proof -
  obtain s1 where 1: "rls x s = Ok () s1"
      "stored p s0 ((H(a \<mapsto> x, b \<mapsto> y))(a := None)) V ((R(a := R a + 1, b := R' + 1))(a := R a)) ws s1"
    using stored_rls [OF st, of a x] H(3) cl(1) by auto
  obtain s2 where 2: "rls y s1 = Ok () s2"
      "stored p s0 ((H(a \<mapsto> x, b \<mapsto> y))(a := None, b := None)) V ((R(a := R a + 1, b := R' + 1))(a := R a, b := R')) ws s2"
    using stored_rls [OF 1(2), of b y] stored_dsk [OF 1(2)] stored_dsk [OF st] H(3) cl(2) by auto
  have "(H(a \<mapsto> x, b \<mapsto> y))(a := None, b := None) = H" "(R(a := R a + 1, b := R' + 1))(a := R a, b := R') = R(b := R')"
    using H by auto
  then show ?thesis using 1(1) 2 by (simp add: kM_simps)
qed

lemma install_one:
  assumes st: "stored p s0 H V R ws s" and H: "H a = None" "H b = None" "a \<noteq> b"
    and R: "\<And>x. R x < 2 ^ 32 - 1" "R b \<noteq> 0 \<or> card {bn. R bn \<noteq> 0} + 1 < cap" "card {bn. R bn \<noteq> 0} < cap"
    and g: "\<And>t. frame p s0 t \<Longrightarrow> g t = b" and up: "up \<Longrightarrow> R b \<noteq> 0"
  shows "\<exists>t. bindK (rd a) (\<lambda>x. bindK (bindK (getsK g) rd) (\<lambda>y. thenK (bindK (getd x) (setd y)) (thenK (wr y) (
      thenK (whenK up (unpin y)) (thenK (rls x) (rls y)))))) s = Ok () t \<and>
    stored p s0 H (V(b := V a)) (R(b := if up then R b - 1 else R b)) (ws @ [(b, V a)]) t"
proof -
  obtain x y t1 t2 t3 t4 where o: "rd a s = Ok x t1" "frame p s0 t1" "rd b t1 = Ok y t2" "getd x t2 = Ok (V a) t2"
      "setd y (V a) t2 = Ok () t3" "wr y t3 = Ok () t4"
      "stored p s0 (H(a \<mapsto> x, b \<mapsto> y)) (V(b := V a)) (R(a := R a + 1, b := R b + 1)) (ws @ [(b, V a)]) t4"
    using open_copy [OF st H R] by blast
  define n where "n = (if up then R b - 1 else R b)"
  obtain t5 where 5: "whenK up (unpin y) t4 = Ok () t5"
      "stored p s0 (H(a \<mapsto> x, b \<mapsto> y)) (V(b := V a)) (R(a := R a + 1, b := n + 1)) (ws @ [(b, V a)]) t5"
  proof (cases up)
    case True
    then have "R b \<noteq> 0" by (rule up)
    then show ?thesis using stored_unpin [OF o(7), of b y] True that by (auto simp: n_def kM_simps)
  next
    case False
    then show ?thesis using o(7) that by (simp add: n_def kM_simps)
  qed
  have a: "0 < R a \<or> V a = dsk s a" using stored_clean [OF st, of a] by blast
  obtain t where "thenK (rls x) (rls y) t5 = Ok () t" "stored p s0 H (V(b := V a)) (R(b := n)) (ws @ [(b, V a)]) t"
    using close_copy [OF 5(2) H] stored_dsk [OF 5(2)] stored_dsk [OF st] a H(3) by auto
  then show ?thesis using o(1,3-6) 5(1) g [OF o(2)] by (auto simp: kM_simps n_def)
qed

end

interpretation bio: block_cache bc bframe disk dtrace "bread ROOTDEV" bwrite brelse bpin bunpin bdata set_bdata NBUF
proof unfold_locales
  fix p H V R bn b and s :: "'a blk_state_scheme"
  assume "bc p H V R s" "H bn = Some b"
  then show "bdata b s = Ok (V bn) s" by (rule bdata_run)
qed (fact bread_spec set_bdata_spec bwrite_spec brelse_spec bpin_spec bunpin_spec bc_clean bframe_refl bframe_trans bc_heldD(10))+

end
