(* ===== verification/Virtio.thy ===== *)
theory Virtio
  imports Bio
begin

text \<open>
  \<^verbatim>\<open>kernel/virtio_disk.c\<close>: the driver of the virtio block device. The queue structures of
  \<^verbatim>\<open>kernel/virtio.h\<close> are typed: a DMA address is the object it is the address of, and the three pages
  that \<^verbatim>\<open>virtio_disk_init\<close> allocates are fields of the state beside their addresses. The device is not
  modelled: it acts while a process sleeps in \<^verbatim>\<open>virtio_disk_rw\<close>, and the theorems say which of its
  actions they suppose.
\<close>

section \<open>State (virtio.h)\<close>

definition NUM :: nat where "NUM = 8"

definition VIRTIO_MMIO_MAGIC_VALUE :: u64 where "VIRTIO_MMIO_MAGIC_VALUE = 0x000"
definition VIRTIO_MMIO_VERSION :: u64 where "VIRTIO_MMIO_VERSION = 0x004"
definition VIRTIO_MMIO_DEVICE_ID :: u64 where "VIRTIO_MMIO_DEVICE_ID = 0x008"
definition VIRTIO_MMIO_VENDOR_ID :: u64 where "VIRTIO_MMIO_VENDOR_ID = 0x00c"
definition VIRTIO_MMIO_DEVICE_FEATURES :: u64 where "VIRTIO_MMIO_DEVICE_FEATURES = 0x010"
definition VIRTIO_MMIO_DRIVER_FEATURES :: u64 where "VIRTIO_MMIO_DRIVER_FEATURES = 0x020"
definition VIRTIO_MMIO_QUEUE_SEL :: u64 where "VIRTIO_MMIO_QUEUE_SEL = 0x030"
definition VIRTIO_MMIO_QUEUE_NUM_MAX :: u64 where "VIRTIO_MMIO_QUEUE_NUM_MAX = 0x034"
definition VIRTIO_MMIO_QUEUE_NUM :: u64 where "VIRTIO_MMIO_QUEUE_NUM = 0x038"
definition VIRTIO_MMIO_QUEUE_READY :: u64 where "VIRTIO_MMIO_QUEUE_READY = 0x044"
definition VIRTIO_MMIO_QUEUE_NOTIFY :: u64 where "VIRTIO_MMIO_QUEUE_NOTIFY = 0x050"
definition VIRTIO_MMIO_INTERRUPT_STATUS :: u64 where "VIRTIO_MMIO_INTERRUPT_STATUS = 0x060"
definition VIRTIO_MMIO_INTERRUPT_ACK :: u64 where "VIRTIO_MMIO_INTERRUPT_ACK = 0x064"
definition VIRTIO_MMIO_STATUS :: u64 where "VIRTIO_MMIO_STATUS = 0x070"
definition VIRTIO_MMIO_QUEUE_DESC_LOW :: u64 where "VIRTIO_MMIO_QUEUE_DESC_LOW = 0x080"
definition VIRTIO_MMIO_QUEUE_DESC_HIGH :: u64 where "VIRTIO_MMIO_QUEUE_DESC_HIGH = 0x084"
definition VIRTIO_MMIO_DRIVER_DESC_LOW :: u64 where "VIRTIO_MMIO_DRIVER_DESC_LOW = 0x090"
definition VIRTIO_MMIO_DRIVER_DESC_HIGH :: u64 where "VIRTIO_MMIO_DRIVER_DESC_HIGH = 0x094"
definition VIRTIO_MMIO_DEVICE_DESC_LOW :: u64 where "VIRTIO_MMIO_DEVICE_DESC_LOW = 0x0a0"
definition VIRTIO_MMIO_DEVICE_DESC_HIGH :: u64 where "VIRTIO_MMIO_DEVICE_DESC_HIGH = 0x0a4"

definition VIRTIO_CONFIG_S_ACKNOWLEDGE :: u32 where "VIRTIO_CONFIG_S_ACKNOWLEDGE = 1"
definition VIRTIO_CONFIG_S_DRIVER :: u32 where "VIRTIO_CONFIG_S_DRIVER = 2"
definition VIRTIO_CONFIG_S_DRIVER_OK :: u32 where "VIRTIO_CONFIG_S_DRIVER_OK = 4"
definition VIRTIO_CONFIG_S_FEATURES_OK :: u32 where "VIRTIO_CONFIG_S_FEATURES_OK = 8"

definition VIRTIO_BLK_F_RO :: nat where "VIRTIO_BLK_F_RO = 5"
definition VIRTIO_BLK_F_SCSI :: nat where "VIRTIO_BLK_F_SCSI = 7"
definition VIRTIO_BLK_F_CONFIG_WCE :: nat where "VIRTIO_BLK_F_CONFIG_WCE = 11"
definition VIRTIO_BLK_F_MQ :: nat where "VIRTIO_BLK_F_MQ = 12"
definition VIRTIO_F_ANY_LAYOUT :: nat where "VIRTIO_F_ANY_LAYOUT = 27"
definition VIRTIO_RING_F_INDIRECT_DESC :: nat where "VIRTIO_RING_F_INDIRECT_DESC = 28"
definition VIRTIO_RING_F_EVENT_IDX :: nat where "VIRTIO_RING_F_EVENT_IDX = 29"

definition VRING_DESC_F_NEXT :: u16 where "VRING_DESC_F_NEXT = 1"
definition VRING_DESC_F_WRITE :: u16 where "VRING_DESC_F_WRITE = 2"
definition VIRTIO_BLK_T_IN :: u32 where "VIRTIO_BLK_T_IN = 0"
definition VIRTIO_BLK_T_OUT :: u32 where "VIRTIO_BLK_T_OUT = 1"

text \<open>\<^verbatim>\<open>&disk.ops[i]\<close>, \<^verbatim>\<open>b->data\<close>, \<^verbatim>\<open>&disk.info[i].status\<close>\<close>

datatype dmaptr = DmaNull | DmaOp nat | DmaData nat | DmaStatus nat

record virtq_desc =
  vq_addr :: dmaptr
  vq_len :: u32
  vq_flags :: u16
  vq_next :: u16

record virtio_blk_req =
  rq_type :: u32
  rq_reserved :: u32
  rq_sector :: u64

definition desc0 :: virtq_desc where
  "desc0 = \<lparr>vq_addr = DmaNull, vq_len = 0, vq_flags = 0, vq_next = 0\<rparr>"

text \<open>\<^verbatim>\<open>struct disk\<close>; the entries of the used ring are represented by their \<^verbatim>\<open>id\<close>.\<close>

record vio_state = blk_state +
  vd_desc_pa :: u64
  vd_avail_pa :: u64
  vd_used_pa :: u64
  vd_desc :: "virtq_desc list"
  vd_avail_idx :: u16
  vd_avail_ring :: "u16 list"
  vd_ring_idx :: u16             \<comment> \<open>\<^verbatim>\<open>disk.used->idx\<close>, written by the device\<close>
  vd_ring :: "u32 list"          \<comment> \<open>\<^verbatim>\<open>disk.used->ring[].id\<close>, written by the device\<close>
  vd_free :: "bool list"
  vd_used_idx :: u16             \<comment> \<open>\<^verbatim>\<open>disk.used_idx\<close>\<close>
  vd_info_b :: "nat option list"
  vd_info_status :: "u8 list"
  vd_ops :: "virtio_blk_req list"

definition R_read :: "u64 \<Rightarrow> ('a con_state_scheme, u32) kM" where
  "R_read r = mmio_read (VIRTIO0 + r)"

definition R_write :: "u64 \<Rightarrow> u32 \<Rightarrow> ('a con_state_scheme, unit) kM" where
  "R_write r v = mmio_write (VIRTIO0 + r) v"

section \<open>Initialisation\<close>

text \<open>\<^verbatim>\<open>features &= ~(1 << k)\<close>\<close>

definition drop_features :: "u64 \<Rightarrow> u64" where
  "drop_features f =
     foldl (\<lambda>f k. f AND NOT (push_bit k 1)) f
       [VIRTIO_BLK_F_RO, VIRTIO_BLK_F_SCSI, VIRTIO_BLK_F_CONFIG_WCE, VIRTIO_BLK_F_MQ, VIRTIO_F_ANY_LAYOUT,
        VIRTIO_RING_F_EVENT_IDX, VIRTIO_RING_F_INDIRECT_DESC]"

definition virtio_queue_init :: "('a vio_state_scheme, unit) kM" where
  "virtio_queue_init =
     bindK kalloc (\<lambda>d.
     thenK (modifyK (\<lambda>s. s\<lparr>vd_desc_pa := d\<rparr>)) (
     bindK kalloc (\<lambda>av.
     thenK (modifyK (\<lambda>s. s\<lparr>vd_avail_pa := av\<rparr>)) (
     bindK kalloc (\<lambda>us.
     thenK (modifyK (\<lambda>s. s\<lparr>vd_used_pa := us\<rparr>)) (
     if d = 0 \<or> av = 0 \<or> us = 0 then panicK ''virtio disk kalloc'' else
     thenK (thenK (memsetK d 0 PGSIZE) (modifyK (\<lambda>s. s\<lparr>vd_desc := replicate NUM desc0\<rparr>))) (
     thenK (thenK (memsetK av 0 PGSIZE) (modifyK (\<lambda>s. s\<lparr>vd_avail_idx := 0, vd_avail_ring := replicate NUM 0\<rparr>))) (
     thenK (thenK (memsetK us 0 PGSIZE) (modifyK (\<lambda>s. s\<lparr>vd_ring_idx := 0, vd_ring := replicate NUM 0\<rparr>))) (
     thenK (R_write VIRTIO_MMIO_QUEUE_NUM (of_nat NUM)) (
     thenK (R_write VIRTIO_MMIO_QUEUE_DESC_LOW (ucast d)) (
     thenK (R_write VIRTIO_MMIO_QUEUE_DESC_HIGH (ucast (drop_bit 32 d))) (
     thenK (R_write VIRTIO_MMIO_DRIVER_DESC_LOW (ucast av)) (
     thenK (R_write VIRTIO_MMIO_DRIVER_DESC_HIGH (ucast (drop_bit 32 av))) (
     thenK (R_write VIRTIO_MMIO_DEVICE_DESC_LOW (ucast us)) (
     thenK (R_write VIRTIO_MMIO_DEVICE_DESC_HIGH (ucast (drop_bit 32 us))) (
     R_write VIRTIO_MMIO_QUEUE_READY 1))))))))))))))))"

definition virtio_disk_init :: "('a vio_state_scheme, unit) kM" where
  "virtio_disk_init =
     thenK (initlock VdiskLock ''virtio_disk'') (
     bindK (R_read VIRTIO_MMIO_MAGIC_VALUE) (\<lambda>magic.
     if magic \<noteq> 0x74726976 then panicK ''could not find virtio disk'' else
     bindK (R_read VIRTIO_MMIO_VERSION) (\<lambda>version.
     if version \<noteq> 2 then panicK ''could not find virtio disk'' else
     bindK (R_read VIRTIO_MMIO_DEVICE_ID) (\<lambda>device.
     if device \<noteq> 2 then panicK ''could not find virtio disk'' else
     bindK (R_read VIRTIO_MMIO_VENDOR_ID) (\<lambda>vendor.
     if vendor \<noteq> 0x554d4551 then panicK ''could not find virtio disk'' else
     thenK (R_write VIRTIO_MMIO_STATUS 0) (
     let status = VIRTIO_CONFIG_S_ACKNOWLEDGE in
     thenK (R_write VIRTIO_MMIO_STATUS status) (
     let status = status OR VIRTIO_CONFIG_S_DRIVER in
     thenK (R_write VIRTIO_MMIO_STATUS status) (
     bindK (R_read VIRTIO_MMIO_DEVICE_FEATURES) (\<lambda>features.
     thenK (R_write VIRTIO_MMIO_DRIVER_FEATURES (ucast (drop_features (ucast features)))) (
     let status = status OR VIRTIO_CONFIG_S_FEATURES_OK in
     thenK (R_write VIRTIO_MMIO_STATUS status) (
     bindK (R_read VIRTIO_MMIO_STATUS) (\<lambda>status.
     if status AND VIRTIO_CONFIG_S_FEATURES_OK = 0 then panicK ''virtio disk FEATURES_OK unset'' else
     thenK (R_write VIRTIO_MMIO_QUEUE_SEL 0) (
     bindK (R_read VIRTIO_MMIO_QUEUE_READY) (\<lambda>ready.
     if ready \<noteq> 0 then panicK ''virtio disk should not be ready'' else
     bindK (R_read VIRTIO_MMIO_QUEUE_NUM_MAX) (\<lambda>mx.
     if mx = 0 then panicK ''virtio disk has no queue 0'' else
     if mx < of_nat NUM then panicK ''virtio disk max queue too short'' else
     thenK virtio_queue_init (
     thenK (modifyK (\<lambda>s. s\<lparr>vd_free := replicate NUM True\<rparr>)) (
     R_write VIRTIO_MMIO_STATUS (status OR VIRTIO_CONFIG_S_DRIVER_OK))))))))))))))))))"

section \<open>Descriptors\<close>

fun alloc_desc_loop :: "nat list \<Rightarrow> ('a vio_state_scheme, nat option) kM" where
  "alloc_desc_loop [] = returnK None"
| "alloc_desc_loop (i # is) =
     bindK (getsK (\<lambda>s. vd_free s ! i)) (\<lambda>fr.
     if fr then thenK (modifyK (\<lambda>s. s\<lparr>vd_free := (vd_free s)[i := False]\<rparr>)) (returnK (Some i))
     else alloc_desc_loop is)"

text \<open>\<open>None\<close> is the return value \<open>-1\<close>.\<close>

definition alloc_desc :: "('a vio_state_scheme, nat option) kM" where
  "alloc_desc = alloc_desc_loop [0..<NUM]"

definition free_desc :: "nat \<Rightarrow> ('a vio_state_scheme, unit) kM" where
  "free_desc i =
     (if NUM \<le> i then panicK ''free_desc 1'' else
      bindK (getsK (\<lambda>s. vd_free s ! i)) (\<lambda>fr.
      if fr then panicK ''free_desc 2'' else
      thenK (modifyK (\<lambda>s. s\<lparr>vd_desc := (vd_desc s)[i := desc0]\<rparr>)) (
      thenK (modifyK (\<lambda>s. s\<lparr>vd_free := (vd_free s)[i := True]\<rparr>)) (
      wakeup ChanDiskFree))))"

text \<open>\<open>n\<close> bounds the length of the chain; freeing a descriptor twice panics, so a chain has at most \<open>NUM\<close>.\<close>

fun free_chain_loop :: "nat \<Rightarrow> nat \<Rightarrow> ('a vio_state_scheme, unit) kM" where
  "free_chain_loop 0 i = spinK"
| "free_chain_loop (Suc n) i =
     bindK (getsK (\<lambda>s. vd_desc s ! i)) (\<lambda>d.
     thenK (free_desc i) (
     if vq_flags d AND VRING_DESC_F_NEXT \<noteq> 0 then free_chain_loop n (unat (vq_next d)) else returnK ()))"

definition free_chain :: "nat \<Rightarrow> ('a vio_state_scheme, unit) kM" where
  "free_chain i = free_chain_loop (Suc NUM) i"

fun alloc3_desc_loop :: "nat \<Rightarrow> nat list \<Rightarrow> ('a vio_state_scheme, nat list option) kM" where
  "alloc3_desc_loop 0 idx = returnK (Some idx)"
| "alloc3_desc_loop (Suc n) idx =
     bindK alloc_desc (\<lambda>r.
     case r of Some i \<Rightarrow> alloc3_desc_loop n (idx @ [i])
     | None \<Rightarrow> thenK (forK idx free_desc) (returnK None))"

definition alloc3_desc :: "('a vio_state_scheme, nat list option) kM" where
  "alloc3_desc = alloc3_desc_loop 3 []"

section \<open>Requests\<close>

fun virtio_rw_alloc :: "nat \<Rightarrow> ('a vio_state_scheme, nat list) kM" where
  "virtio_rw_alloc 0 = spinK"
| "virtio_rw_alloc (Suc n) =
     bindK alloc3_desc (\<lambda>r.
     case r of Some idx \<Rightarrow> returnK idx
     | None \<Rightarrow> thenK (sleep ChanDiskFree VdiskLock) (virtio_rw_alloc n))"

fun virtio_rw_wait :: "nat \<Rightarrow> nat \<Rightarrow> ('a vio_state_scheme, unit) kM" where
  "virtio_rw_wait 0 b = spinK"
| "virtio_rw_wait (Suc n) b =
     bindK (getsK (\<lambda>s. b_disk (bufs s b))) (\<lambda>busy.
     if busy then thenK (sleep (ChanBuf b) VdiskLock) (virtio_rw_wait n b) else returnK ())"

definition virtio_rw_post :: "nat \<Rightarrow> bool \<Rightarrow> u64 \<Rightarrow> nat list \<Rightarrow> ('a vio_state_scheme, unit) kM" where
  "virtio_rw_post b write sector idx =
     thenK (modifyK (\<lambda>s. s\<lparr>vd_ops := (vd_ops s)[idx ! 0 :=
       \<lparr>rq_type = (if write then VIRTIO_BLK_T_OUT else VIRTIO_BLK_T_IN), rq_reserved = 0, rq_sector = sector\<rparr>]\<rparr>)) (
     thenK (modifyK (\<lambda>s. s\<lparr>vd_desc := (vd_desc s)[idx ! 0 :=
       \<lparr>vq_addr = DmaOp (idx ! 0), vq_len = 16, vq_flags = VRING_DESC_F_NEXT, vq_next = of_nat (idx ! 1)\<rparr>]\<rparr>)) (
     thenK (modifyK (\<lambda>s. s\<lparr>vd_desc := (vd_desc s)[idx ! 1 :=
       \<lparr>vq_addr = DmaData b, vq_len = of_nat BSIZE,
        vq_flags = (if write then 0 else VRING_DESC_F_WRITE) OR VRING_DESC_F_NEXT, vq_next = of_nat (idx ! 2)\<rparr>]\<rparr>)) (
     thenK (modifyK (\<lambda>s. s\<lparr>vd_info_status := (vd_info_status s)[idx ! 0 := 0xff]\<rparr>)) (
     thenK (modifyK (\<lambda>s. s\<lparr>vd_desc := (vd_desc s)[idx ! 2 :=
       \<lparr>vq_addr = DmaStatus (idx ! 0), vq_len = 1, vq_flags = VRING_DESC_F_WRITE, vq_next = 0\<rparr>]\<rparr>)) (
     thenK (modbuf b (b_disk_update (\<lambda>_. True))) (
     thenK (modifyK (\<lambda>s. s\<lparr>vd_info_b := (vd_info_b s)[idx ! 0 := Some b]\<rparr>)) (
     thenK (modifyK (\<lambda>s. s\<lparr>vd_avail_ring := (vd_avail_ring s)[unat (vd_avail_idx s) mod NUM := of_nat (idx ! 0)]\<rparr>)) (
     thenK (modifyK (\<lambda>s. s\<lparr>vd_avail_idx := vd_avail_idx s + 1\<rparr>)) (
     R_write VIRTIO_MMIO_QUEUE_NOTIFY 0)))))))))"

definition virtio_disk_rw :: "nat \<Rightarrow> bool \<Rightarrow> ('a vio_state_scheme, unit) kM" where
  "virtio_disk_rw b write =
     bindK (getsK (\<lambda>s. ucast (b_blockno (bufs s b) * of_nat (BSIZE div 512)))) (\<lambda>sector.
     thenK (acquire VdiskLock) (
     bindK (bindK (getsK fuel) (\<lambda>n. virtio_rw_alloc (Suc n))) (\<lambda>idx.
     thenK (virtio_rw_post b write sector idx) (
     thenK (bindK (getsK fuel) (\<lambda>n. virtio_rw_wait (Suc n) b)) (
     thenK (modifyK (\<lambda>s. s\<lparr>vd_info_b := (vd_info_b s)[idx ! 0 := None]\<rparr>)) (
     thenK (free_chain (idx ! 0)) (
     release VdiskLock)))))))"

text \<open>The number of used-ring entries not yet looked at bounds the loop of the handler.\<close>

fun virtio_intr_loop :: "nat \<Rightarrow> ('a vio_state_scheme, unit) kM" where
  "virtio_intr_loop 0 = returnK ()"
| "virtio_intr_loop (Suc n) =
     bindK (getsK (\<lambda>s. unat (vd_ring s ! (unat (vd_used_idx s) mod NUM)))) (\<lambda>id.
     bindK (getsK (\<lambda>s. vd_info_status s ! id)) (\<lambda>status.
     if status \<noteq> 0 then panicK ''virtio_disk_intr status'' else
     bindK (getsK (\<lambda>s. vd_info_b s ! id)) (\<lambda>b.
     case b of None \<Rightarrow> panicK ''kerneltrap''
     | Some b \<Rightarrow>
       thenK (modbuf b (b_disk_update (\<lambda>_. False))) (
       thenK (wakeup (ChanBuf b)) (
       thenK (modifyK (\<lambda>s. s\<lparr>vd_used_idx := vd_used_idx s + 1\<rparr>)) (
       virtio_intr_loop n))))))"

definition virtio_disk_intr :: "('a vio_state_scheme, unit) kM" where
  "virtio_disk_intr =
     thenK (acquire VdiskLock) (
     thenK (bindK (R_read VIRTIO_MMIO_INTERRUPT_STATUS) (\<lambda>st. R_write VIRTIO_MMIO_INTERRUPT_ACK (st AND 3))) (
     thenK (bindK (getsK (\<lambda>s. unat (vd_ring_idx s - vd_used_idx s))) virtio_intr_loop) (
     release VdiskLock)))"

end
