(* ===== verification/Log.thy ===== *)
theory Log
  imports Virtio
begin

text \<open>
  \<^verbatim>\<open>kernel/log.c\<close>: the write-ahead log. Block contents are lists of \<open>BSIZE\<close> bytes; integers inside a block
  are little-endian. A header on disk with a count larger than \<open>LOGSIZE\<close> would make \<^verbatim>\<open>read_head\<close> write outside
  of its array; the model ends in a panic there.
\<close>

section \<open>Structures inside a block\<close>

definition put_at :: "nat \<Rightarrow> u8 list \<Rightarrow> u8 list \<Rightarrow> u8 list" where
  "put_at off bs d = take off d @ bs @ drop (off + length bs) d"

definition get32 :: "nat \<Rightarrow> u8 list \<Rightarrow> u32" where
  "get32 off d = le_word (take 4 (drop off d))"

definition put32 :: "nat \<Rightarrow> u32 \<Rightarrow> u8 list \<Rightarrow> u8 list" where
  "put32 off v d = put_at off (le_bytes 4 v) d"

record superblock =
  sb_magic :: u32
  sb_size :: u32
  sb_nblocks :: u32
  sb_ninodes :: u32
  sb_nlog :: u32
  sb_logstart :: u32
  sb_inodestart :: u32
  sb_bmapstart :: u32

text \<open>\<^verbatim>\<open>struct log\<close> with its \<^verbatim>\<open>struct logheader\<close>\<close>

record log_state = vio_state +
  log_start :: u32
  log_size :: u32
  log_outstanding :: int
  log_committing :: bool
  log_dev :: u32
  lh_n :: int
  lh_block :: "u32 list"

definition sizeof_logheader :: nat where "sizeof_logheader = 4 + 4 * LOGSIZE"

section \<open>Commit and recovery\<close>

definition install_trans :: "bool \<Rightarrow> ('a log_state_scheme, unit) kM" where
  "install_trans recovering =
     bindK (getsK (\<lambda>s. nat (lh_n s))) (\<lambda>n.
     forK [0..<n] (\<lambda>tail.
       bindK (getsK log_dev) (\<lambda>dev.
       bindK (bindK (getsK log_start) (\<lambda>st. bread dev (st + of_nat tail + 1))) (\<lambda>lbuf.
       bindK (bindK (getsK (\<lambda>s. lh_block s ! tail)) (bread dev)) (\<lambda>dbuf.
       thenK (bindK (bdata lbuf) (set_bdata dbuf)) (
       thenK (bwrite dbuf) (
       thenK (whenK (\<not> recovering) (bunpin dbuf)) (
       thenK (brelse lbuf) (
       brelse dbuf)))))))))"

definition read_head :: "('a log_state_scheme, unit) kM" where
  "read_head =
     bindK (getsK log_dev) (\<lambda>dev.
     bindK (bindK (getsK log_start) (bread dev)) (\<lambda>buf.
     bindK (bdata buf) (\<lambda>lh.
     thenK (modifyK (\<lambda>s. s\<lparr>lh_n := sint (get32 0 lh)\<rparr>)) (
     thenK (bindK (getsK (\<lambda>s. nat (lh_n s))) (\<lambda>n.
       forK [0..<n] (\<lambda>i.
         if LOGSIZE \<le> i then panicK ''read_head: out of bounds'' else
         modifyK (\<lambda>s. s\<lparr>lh_block := (lh_block s)[i := get32 (4 + 4 * i) lh]\<rparr>)))) (
     brelse buf)))))"

definition write_head :: "('a log_state_scheme, unit) kM" where
  "write_head =
     bindK (getsK log_dev) (\<lambda>dev.
     bindK (bindK (getsK log_start) (bread dev)) (\<lambda>buf.
     thenK (bindK (getsK (\<lambda>s. of_int (lh_n s))) (\<lambda>n. bindK (bdata buf) (\<lambda>hb. set_bdata buf (put32 0 n hb)))) (
     thenK (bindK (getsK (\<lambda>s. nat (lh_n s))) (\<lambda>n.
       forK [0..<n] (\<lambda>i.
         bindK (getsK (\<lambda>s. lh_block s ! i)) (\<lambda>bn.
         bindK (bdata buf) (\<lambda>hb.
         set_bdata buf (put32 (4 + 4 * i) bn hb)))))) (
     thenK (bwrite buf) (
     brelse buf)))))"

definition recover_from_log :: "('a log_state_scheme, unit) kM" where
  "recover_from_log =
     thenK read_head (
     thenK (install_trans True) (
     thenK (modifyK (\<lambda>s. s\<lparr>lh_n := 0\<rparr>))
     write_head))"

definition initlog :: "u32 \<Rightarrow> superblock \<Rightarrow> ('a log_state_scheme, unit) kM" where
  "initlog dev sb =
     (if BSIZE \<le> sizeof_logheader then panicK ''initlog: too big logheader'' else
      thenK (initlock LogLock ''log'') (
      thenK (modifyK (\<lambda>s. s\<lparr>log_start := sb_logstart sb\<rparr>)) (
      thenK (modifyK (\<lambda>s. s\<lparr>log_size := sb_nlog sb\<rparr>)) (
      thenK (modifyK (\<lambda>s. s\<lparr>log_dev := dev\<rparr>))
      recover_from_log))))"

definition write_log :: "('a log_state_scheme, unit) kM" where
  "write_log =
     bindK (getsK (\<lambda>s. nat (lh_n s))) (\<lambda>n.
     forK [0..<n] (\<lambda>tail.
       bindK (getsK log_dev) (\<lambda>dev.
       bindK (bindK (getsK log_start) (\<lambda>st. bread dev (st + of_nat tail + 1))) (\<lambda>to.
       bindK (bindK (getsK (\<lambda>s. lh_block s ! tail)) (bread dev)) (\<lambda>from.
       thenK (bindK (bdata from) (set_bdata to)) (
       thenK (bwrite to) (
       thenK (brelse from) (
       brelse to))))))))"

definition commit :: "('a log_state_scheme, unit) kM" where
  "commit =
     bindK (getsK (\<lambda>s. 0 < lh_n s)) (\<lambda>some.
     whenK some (
       thenK write_log (
       thenK write_head (
       thenK (install_trans False) (
       thenK (modifyK (\<lambda>s. s\<lparr>lh_n := 0\<rparr>))
       write_head)))))"

section \<open>Transactions\<close>

fun begin_op_loop :: "nat \<Rightarrow> ('a log_state_scheme, unit) kM" where
  "begin_op_loop 0 = spinK"
| "begin_op_loop (Suc n) =
     bindK (getsK log_committing) (\<lambda>com.
     if com then thenK (sleep ChanLog LogLock) (begin_op_loop n) else
     bindK (getsK (\<lambda>s. lh_n s + (log_outstanding s + 1) * int MAXOPBLOCKS > int LOGSIZE)) (\<lambda>full.
     if full then thenK (sleep ChanLog LogLock) (begin_op_loop n) else
     thenK (modifyK (\<lambda>s. s\<lparr>log_outstanding := log_outstanding s + 1\<rparr>)) (
     release LogLock)))"

definition begin_op :: "('a log_state_scheme, unit) kM" where
  "begin_op =
     thenK (acquire LogLock) (
     bindK (getsK fuel) (\<lambda>n. begin_op_loop (Suc n)))"

definition end_op :: "('a log_state_scheme, unit) kM" where
  "end_op =
     thenK (acquire LogLock) (
     thenK (modifyK (\<lambda>s. s\<lparr>log_outstanding := log_outstanding s - 1\<rparr>)) (
     bindK (getsK log_committing) (\<lambda>com.
     if com then panicK ''log.committing'' else
     bindK (getsK (\<lambda>s. log_outstanding s = 0)) (\<lambda>do_commit.
     thenK (if do_commit then modifyK (\<lambda>s. s\<lparr>log_committing := True\<rparr>) else wakeup ChanLog) (
     thenK (release LogLock) (
     whenK do_commit (
       thenK commit (
       thenK (acquire LogLock) (
       thenK (modifyK (\<lambda>s. s\<lparr>log_committing := False\<rparr>)) (
       thenK (wakeup ChanLog) (
       release LogLock)))))))))))"

text \<open>The search of \<^verbatim>\<open>log_write\<close>: the first index below \<open>n\<close> with the block, else \<open>n\<close>.\<close>

definition log_find :: "u32 list \<Rightarrow> nat \<Rightarrow> u32 \<Rightarrow> nat" where
  "log_find bl n bn = length (takeWhile (\<lambda>x. x \<noteq> bn) (take n bl))"

definition log_write :: "nat \<Rightarrow> ('a log_state_scheme, unit) kM" where
  "log_write b =
     thenK (acquire LogLock) (
     bindK (getsK (\<lambda>s. int LOGSIZE \<le> lh_n s \<or> sint (log_size s) - 1 \<le> lh_n s)) (\<lambda>big.
     if big then panicK ''too big a transaction'' else
     bindK (getsK (\<lambda>s. log_outstanding s < 1)) (\<lambda>none.
     if none then panicK ''log_write outside of trans'' else
     bindK (getsK (\<lambda>s. log_find (lh_block s) (nat (lh_n s)) (b_blockno (bufs s b)))) (\<lambda>i.
     thenK (modifyK (\<lambda>s. s\<lparr>lh_block := (lh_block s)[i := b_blockno (bufs s b)]\<rparr>)) (
     thenK (bindK (getsK (\<lambda>s. int i = lh_n s)) (\<lambda>add.
       whenK add (
         thenK (bpin b) (
         modifyK (\<lambda>s. s\<lparr>lh_n := lh_n s + 1\<rparr>))))) (
     release LogLock))))))"


section \<open>The log in a process context\<close>

lemma log_frame [simp]:
  "log_start (acq lk s) = log_start s" "log_start (rel lk s) = log_start s" "log_start (touch s) = log_start s"
  "log_size (acq lk s) = log_size s" "log_size (rel lk s) = log_size s" "log_size (touch s) = log_size s"
  "log_outstanding (acq lk s) = log_outstanding s" "log_outstanding (rel lk s) = log_outstanding s"
  "log_outstanding (touch s) = log_outstanding s" "log_committing (acq lk s) = log_committing s"
  "log_committing (rel lk s) = log_committing s" "log_committing (touch s) = log_committing s"
  "log_dev (acq lk s) = log_dev s" "log_dev (rel lk s) = log_dev s" "log_dev (touch s) = log_dev s"
  "lh_n (acq lk s) = lh_n s" "lh_n (rel lk s) = lh_n s" "lh_n (touch s) = lh_n s"
  "lh_block (acq lk s) = lh_block s" "lh_block (rel lk s) = lh_block s" "lh_block (touch s) = lh_block s"
  by (simp_all add: acq_def rel_def pushed_def popped_def touch_def Let_def)

lemma log_commute [lock_commute]:
  "rel lk (s\<lparr>log_start := v0\<rparr>) = (rel lk s)\<lparr>log_start := v0\<rparr>" "acq lk (s\<lparr>log_start := v0\<rparr>) = (acq lk s)\<lparr>log_start := v0\<rparr>"
  "touch (s\<lparr>log_start := v0\<rparr>) = (touch s)\<lparr>log_start := v0\<rparr>"
  "rel lk (s\<lparr>log_size := v1\<rparr>) = (rel lk s)\<lparr>log_size := v1\<rparr>" "acq lk (s\<lparr>log_size := v1\<rparr>) = (acq lk s)\<lparr>log_size := v1\<rparr>"
  "touch (s\<lparr>log_size := v1\<rparr>) = (touch s)\<lparr>log_size := v1\<rparr>"
  "rel lk (s\<lparr>log_outstanding := v2\<rparr>) = (rel lk s)\<lparr>log_outstanding := v2\<rparr>" "acq lk (s\<lparr>log_outstanding := v2\<rparr>) = (acq lk s)\<lparr>log_outstanding := v2\<rparr>"
  "touch (s\<lparr>log_outstanding := v2\<rparr>) = (touch s)\<lparr>log_outstanding := v2\<rparr>"
  "rel lk (s\<lparr>log_committing := v3\<rparr>) = (rel lk s)\<lparr>log_committing := v3\<rparr>" "acq lk (s\<lparr>log_committing := v3\<rparr>) = (acq lk s)\<lparr>log_committing := v3\<rparr>"
  "touch (s\<lparr>log_committing := v3\<rparr>) = (touch s)\<lparr>log_committing := v3\<rparr>"
  "rel lk (s\<lparr>log_dev := v4\<rparr>) = (rel lk s)\<lparr>log_dev := v4\<rparr>" "acq lk (s\<lparr>log_dev := v4\<rparr>) = (acq lk s)\<lparr>log_dev := v4\<rparr>"
  "touch (s\<lparr>log_dev := v4\<rparr>) = (touch s)\<lparr>log_dev := v4\<rparr>"
  "rel lk (s\<lparr>lh_n := v5\<rparr>) = (rel lk s)\<lparr>lh_n := v5\<rparr>" "acq lk (s\<lparr>lh_n := v5\<rparr>) = (acq lk s)\<lparr>lh_n := v5\<rparr>"
  "touch (s\<lparr>lh_n := v5\<rparr>) = (touch s)\<lparr>lh_n := v5\<rparr>"
  "rel lk (s\<lparr>lh_block := v6\<rparr>) = (rel lk s)\<lparr>lh_block := v6\<rparr>" "acq lk (s\<lparr>lh_block := v6\<rparr>) = (acq lk s)\<lparr>lh_block := v6\<rparr>"
  "touch (s\<lparr>lh_block := v6\<rparr>) = (touch s)\<lparr>lh_block := v6\<rparr>"
  by (simp_all add: rel_def popped_def acq_def pushed_def touch_def Let_def sie_def)

lemma log_upd [simp]:
  "cpu_inv (s\<lparr>log_start := v0\<rparr>) = cpu_inv s" "lock_free lk (s\<lparr>log_start := v0\<rparr>) = lock_free lk s"
  "cpu_inv (s\<lparr>log_size := v1\<rparr>) = cpu_inv s" "lock_free lk (s\<lparr>log_size := v1\<rparr>) = lock_free lk s"
  "cpu_inv (s\<lparr>log_outstanding := v2\<rparr>) = cpu_inv s" "lock_free lk (s\<lparr>log_outstanding := v2\<rparr>) = lock_free lk s"
  "cpu_inv (s\<lparr>log_committing := v3\<rparr>) = cpu_inv s" "lock_free lk (s\<lparr>log_committing := v3\<rparr>) = lock_free lk s"
  "cpu_inv (s\<lparr>log_dev := v4\<rparr>) = cpu_inv s" "lock_free lk (s\<lparr>log_dev := v4\<rparr>) = lock_free lk s"
  "cpu_inv (s\<lparr>lh_n := v5\<rparr>) = cpu_inv s" "lock_free lk (s\<lparr>lh_n := v5\<rparr>) = lock_free lk s"
  "cpu_inv (s\<lparr>lh_block := v6\<rparr>) = cpu_inv s" "lock_free lk (s\<lparr>lh_block := v6\<rparr>) = lock_free lk s"
  by (simp_all add: cpu_inv_def sie_def lock_free_def)

lemma bframe_log:
  assumes "bframe p s t"
  shows "log_start t = log_start s" "log_size t = log_size s" "log_outstanding t = log_outstanding s"
    "log_committing t = log_committing s" "log_dev t = log_dev s" "lh_n t = lh_n s" "lh_block t = lh_block s"
  using assms unfolding bframe_def by auto

text \<open>\<open>L\<close> is the list of the blocks in the header in memory, \<open>ls\<close> the block of the header on disk.\<close>

definition log_hdr :: "u32 \<Rightarrow> u32 list \<Rightarrow> 'a log_state_scheme \<Rightarrow> bool" where
  "log_hdr ls L s \<longleftrightarrow> log_dev s = ROOTDEV \<and> log_start s = ls \<and> lh_n s = int (length L) \<and>
     take (length L) (lh_block s) = L \<and> length (lh_block s) = LOGSIZE \<and> length L \<le> LOGSIZE"

lemma log_hdr_bframe: "bframe p s t \<Longrightarrow> log_hdr ls L t = log_hdr ls L s"
  by (simp add: log_hdr_def bframe_log)

lemma log_hdrD:
  assumes "log_hdr ls L s"
  shows "log_dev s = ROOTDEV" "log_start s = ls" "nat (lh_n s) = length L" "i < length L \<Longrightarrow> lh_block s ! i = L ! i"
    "i < length L \<Longrightarrow> i < LOGSIZE"
proof -
  assume "i < length L"
  then show "lh_block s ! i = L ! i" using assms unfolding log_hdr_def by (metis nth_take)
qed (use assms in \<open>auto simp: log_hdr_def\<close>)

definition log_blk :: "u32 \<Rightarrow> nat \<Rightarrow> u32" where
  "log_blk ls i = ls + of_nat i + 1"

definition in_log :: "u32 \<Rightarrow> u32 \<Rightarrow> bool" where
  "in_log ls bn \<longleftrightarrow> bn = ls \<or> (\<exists>i < LOGSIZE. bn = log_blk ls i)"

lemma log_blk_inj: "i < LOGSIZE \<Longrightarrow> j < LOGSIZE \<Longrightarrow> log_blk ls i = log_blk ls j \<longleftrightarrow> i = j"
proof -
  assume b: "i < LOGSIZE" "j < LOGSIZE"
  have "log_blk ls i = log_blk ls j \<longleftrightarrow> (of_nat i :: u32) = of_nat j" by (simp add: log_blk_def)
  also have "\<dots> \<longleftrightarrow> unat (of_nat i :: u32) = unat (of_nat j :: u32)" by (simp add: word_unat_eq_iff)
  also have "\<dots> \<longleftrightarrow> i = j" using b by (simp add: unat_of_nat LOGSIZE_def MAXOPBLOCKS_def)
  finally show ?thesis .
qed

lemma log_blk_ls: "i < LOGSIZE \<Longrightarrow> log_blk ls i \<noteq> ls"
proof
  assume "i < LOGSIZE" "log_blk ls i = ls"
  then have "(of_nat (i + 1) :: u32) = 0" by (simp add: log_blk_def add.assoc add.commute)
  then have "unat (of_nat (i + 1) :: u32) = 0" by simp
  then show False using \<open>i < LOGSIZE\<close> by (simp add: unat_of_nat LOGSIZE_def MAXOPBLOCKS_def del: of_nat_Suc of_nat_add)
qed

section \<open>Writing the log\<close>

definition log_writes :: "u32 \<Rightarrow> u32 list \<Rightarrow> (u32 \<Rightarrow> u8 list) \<Rightarrow> nat \<Rightarrow> (u32 \<times> u8 list) list" where
  "log_writes ls L V n = map (\<lambda>i. (log_blk ls i, V (L ! i))) [0..<n]"

lemma apply_append: "apply_writes d (xs @ ys) = apply_writes (apply_writes d xs) ys"
  by (simp add: apply_writes_def)

lemma apply_outside: "bn \<notin> fst ` set ws \<Longrightarrow> apply_writes d ws bn = d bn"
  by (induction ws arbitrary: d) auto

lemma log_writes_outside: "n \<le> LOGSIZE \<Longrightarrow> \<not> in_log ls bn \<Longrightarrow> apply_writes V (log_writes ls L W n) bn = V bn"
proof (rule apply_outside)
  assume *: "n \<le> LOGSIZE" "\<not> in_log ls bn"
  show "bn \<notin> fst ` set (log_writes ls L W n)"
  proof
    assume "bn \<in> fst ` set (log_writes ls L W n)"
    then obtain i where "i < n" "bn = log_blk ls i" by (auto simp: log_writes_def)
    moreover from this(1) have "i < LOGSIZE" using * by simp
    ultimately show False using * unfolding in_log_def by blast
  qed
qed

lemma log_writes_Suc: "log_writes ls L V (Suc n) = log_writes ls L V n @ [(log_blk ls n, V (L ! n))]"
  by (simp add: log_writes_def)

lemma write_log_spec:
  assumes st: "bio.stored p s0 Map.empty V R ws s" and hd: "log_hdr ls L s"
    and R: "\<And>x. R x < 2 ^ 32 - 1" "\<And>x. x \<in> set L \<Longrightarrow> R x \<noteq> 0" "card {bn. R bn \<noteq> 0} < NBUF"
    and L: "\<And>x. x \<in> set L \<Longrightarrow> \<not> in_log ls x"
  shows "\<exists>t. write_log s = Ok () t \<and>
    bio.stored p s0 Map.empty (apply_writes V (log_writes ls L V (length L))) R (ws @ log_writes ls L V (length L)) t"
proof -
  have fr: "bframe p s0 s" using st by (simp add: bio.stored_def)
  have hdr: "log_hdr ls L t" if "bframe p s0 t" for t using hd log_hdr_bframe [OF fr] log_hdr_bframe [OF that] by simp
  define I where "I = (\<lambda>i. bio.stored p s0 Map.empty (apply_writes V (log_writes ls L V i)) R (ws @ log_writes ls L V i))"
  have "\<exists>t. forK [0..<length L] (\<lambda>tail.
       bindK (getsK log_dev) (\<lambda>dev.
       bindK (bindK (getsK log_start) (\<lambda>st. bread dev (st + of_nat tail + 1))) (\<lambda>to.
       bindK (bindK (getsK (\<lambda>s. lh_block s ! tail)) (bread dev)) (\<lambda>from.
       thenK (bindK (bdata from) (set_bdata to)) (
       thenK (bwrite to) (
       thenK (brelse from) (
       brelse to))))))) s = Ok () t \<and> I (length L) t"
  proof (rule forK_upt)
    show "I 0 s" using st by (simp add: I_def log_writes_def)
  next
    fix i t assume i: "i < length L" and It: "I i t"
    then have "bframe p s0 t" by (simp add: I_def bio.stored_def)
    note ht = log_hdrD [OF hdr [OF this]]
    have Li: "L ! i \<in> set L" "\<not> in_log ls (L ! i)" using i L by auto
    then have ne: "log_blk ls i \<noteq> L ! i" using ht(5) [OF i] by (auto simp: in_log_def)
    have V: "apply_writes V (log_writes ls L V i) (L ! i) = V (L ! i)"
      using Li(2) ht(5) [OF i] by (intro log_writes_outside) auto
    have g: "lh_block t ! i = L ! i" if "bframe p s0 t" for t using log_hdrD(4) [OF hdr [OF that] i] .
    show "\<exists>u. (bindK (getsK log_dev) (\<lambda>dev.
       bindK (bindK (getsK log_start) (\<lambda>st. bread dev (st + of_nat i + 1))) (\<lambda>to.
       bindK (bindK (getsK (\<lambda>s. lh_block s ! i)) (bread dev)) (\<lambda>from.
       thenK (bindK (bdata from) (set_bdata to)) (
       thenK (bwrite to) (
       thenK (brelse from) (
       brelse to))))))) t = Ok () u \<and> I (Suc i) u"
      using bio.copy_second [where a = "log_blk ls i" and b = "L ! i", OF It [unfolded I_def] _ _ ne R(2) [OF Li(1)] R(1) R(3) g]
      by (simp add: kM_simps ht(1,2) log_blk_def [symmetric] I_def log_writes_Suc V)
  qed
  moreover have "nat (lh_n s) = length L" using log_hdrD(3) [OF hdr [OF fr]] .
  ultimately show ?thesis by (simp add: write_log_def kM_simps I_def)
qed


section \<open>The header block\<close>

lemma length_put_at [simp]: "off + length bs \<le> length d \<Longrightarrow> length (put_at off bs d) = length d"
  by (simp add: put_at_def)

lemma nth_put_at:
  assumes "off + length bs \<le> length d" "i < length d"
  shows "put_at off bs d ! i = (if off \<le> i \<and> i < off + length bs then bs ! (i - off) else d ! i)"
  using assms by (auto simp: put_at_def nth_append)

lemma take_put_at: "off + length bs \<le> length d \<Longrightarrow> n = length bs \<Longrightarrow> take n (drop off (put_at off bs d)) = bs"
  by (simp add: put_at_def)

lemma take_put_other:
  assumes "off + length bs \<le> length d" "k + n \<le> off \<or> off + length bs \<le> k"
  shows "take n (drop k (put_at off bs d)) = take n (drop k d)"
proof (rule nth_equalityI)
  show "length (take n (drop k (put_at off bs d))) = length (take n (drop k d))" using assms(1) by simp
  fix i assume "i < length (take n (drop k (put_at off bs d)))"
  then have "i < n" "k + i < length d" using assms(1) by auto
  then show "take n (drop k (put_at off bs d)) ! i = take n (drop k d) ! i"
    using assms by (auto simp: nth_put_at)
qed

lemma get32_put32 [simp]: "off + 4 \<le> length d \<Longrightarrow> get32 off (put32 off v d) = v"
  by (simp add: get32_def put32_def take_put_at le_word_le_bytes)

lemma get32_put32_other:
  "off + 4 \<le> length d \<Longrightarrow> k + 4 \<le> off \<or> off + 4 \<le> k \<Longrightarrow> get32 k (put32 off v d) = get32 k d"
  by (simp add: get32_def put32_def take_put_other)

lemma length_put32 [simp]: "off + 4 \<le> length d \<Longrightarrow> length (put32 off v d) = length d"
  by (simp add: put32_def)

fun hdr_put :: "u32 list \<Rightarrow> nat \<Rightarrow> u8 list \<Rightarrow> u8 list" where
  "hdr_put L 0 hb = put32 0 (of_nat (length L)) hb"
| "hdr_put L (Suc i) hb = put32 (4 + 4 * i) (L ! i) (hdr_put L i hb)"

lemma length_hdr_put [simp]: "4 + 4 * i \<le> length hb \<Longrightarrow> length (hdr_put L i hb) = length hb"
  by (induction i) simp_all

lemma hdr_put_n: "4 + 4 * i \<le> length hb \<Longrightarrow> get32 0 (hdr_put L i hb) = of_nat (length L)"
  by (induction i) (simp_all add: get32_put32_other)

lemma hdr_put_block: "4 + 4 * i \<le> length hb \<Longrightarrow> j < i \<Longrightarrow> get32 (4 + 4 * j) (hdr_put L i hb) = L ! j"
proof (induction i)
  case (Suc i)
  then show ?case by (cases "j = i") (simp_all add: get32_put32_other)
qed simp

lemma sint_of_nat_small: "n < 2 ^ 31 \<Longrightarrow> sint (of_nat n :: u32) = int n"
  by transfer (simp add: signed_take_bit_int_eq_self)

text \<open>The header block that \<^verbatim>\<open>write_head\<close> makes of an old one, and what a header block says.\<close>

definition hdr_bytes :: "u32 list \<Rightarrow> u8 list \<Rightarrow> u8 list" where
  "hdr_bytes L hb = hdr_put L (length L) hb"

definition hdr_n :: "u8 list \<Rightarrow> int" where
  "hdr_n hb = sint (get32 0 hb)"

definition hdr_blocks :: "u8 list \<Rightarrow> u32 list" where
  "hdr_blocks hb = map (\<lambda>i. get32 (4 + 4 * i) hb) [0..<nat (hdr_n hb)]"

lemma hdr_roundtrip:
  assumes "length hb = BSIZE" "length L \<le> LOGSIZE"
  shows "hdr_n (hdr_bytes L hb) = int (length L)" "hdr_blocks (hdr_bytes L hb) = L" "length (hdr_bytes L hb) = BSIZE"
proof -
  have b: "4 + 4 * length L \<le> length hb" using assms by (simp add: BSIZE_def LOGSIZE_def MAXOPBLOCKS_def)
  then show "length (hdr_bytes L hb) = BSIZE" using assms(1) by (simp add: hdr_bytes_def)
  have "sint (of_nat (length L) :: u32) = int (length L)"
    using assms(2) by (intro sint_of_nat_small) (simp add: LOGSIZE_def MAXOPBLOCKS_def)
  then show n: "hdr_n (hdr_bytes L hb) = int (length L)" by (simp add: hdr_n_def hdr_bytes_def hdr_put_n [OF b])
  show "hdr_blocks (hdr_bytes L hb) = L"
    by (rule nth_equalityI) (simp_all add: hdr_blocks_def n, simp add: hdr_bytes_def hdr_put_block [OF b])
qed

lemma write_head_spec:
  assumes st: "bio.stored p s0 Map.empty V R ws s" and hd: "log_hdr ls L s"
    and R: "R ls < 2 ^ 32 - 1" "card {bn. R bn \<noteq> 0} < NBUF"
  shows "\<exists>t. write_head s = Ok () t \<and>
    bio.stored p s0 Map.empty (V(ls := hdr_bytes L (V ls))) R (ws @ [(ls, hdr_bytes L (V ls))]) t"
proof -
  have fr0: "bframe p s0 s" using st by (simp add: bio.stored_def)
  have hdr: "log_hdr ls L t" if "bframe p s0 t" for t using hd log_hdr_bframe [OF fr0] log_hdr_bframe [OF that] by simp
  obtain b s1 where 1: "bread ROOTDEV ls s = Ok b s1" "bio.stored p s0 [ls \<mapsto> b] V (R(ls := R ls + 1)) ws s1"
    using bio.stored_rd [OF st, of ls] R by auto
  obtain s2 where 2: "set_bdata b (put32 0 (of_nat (length L)) (V ls)) s1 = Ok () s2"
      "bio.stored p s0 [ls \<mapsto> b] (V(ls := hdr_put L 0 (V ls))) (R(ls := R ls + 1)) ws s2"
    using bio.stored_setd [OF 1(2), of ls b "put32 0 (of_nat (length L)) (V ls)"] by auto
  define I where "I = (\<lambda>i. bio.stored p s0 [ls \<mapsto> b] (V(ls := hdr_put L i (V ls))) (R(ls := R ls + 1)) ws)"
  have "\<exists>t. forK [0..<length L] (\<lambda>i.
         bindK (getsK (\<lambda>s. lh_block s ! i)) (\<lambda>bn.
         bindK (bdata b) (\<lambda>hb.
         set_bdata b (put32 (4 + 4 * i) bn hb)))) s2 = Ok () t \<and> I (length L) t"
  proof (rule forK_upt)
    show "I 0 s2" using 2(2) by (simp add: I_def)
  next
    fix i t assume i: "i < length L" and It: "I i t"
    then have "bframe p s0 t" by (simp add: I_def bio.stored_def)
    note ht = log_hdrD(4) [OF hdr [OF this] i]
    show "\<exists>u. (bindK (getsK (\<lambda>s. lh_block s ! i)) (\<lambda>bn. bindK (bdata b) (\<lambda>hb.
         set_bdata b (put32 (4 + 4 * i) bn hb)))) t = Ok () u \<and> I (Suc i) u"
      using bio.stored_setd [OF It [unfolded I_def], of ls b] bio.stored_getd [OF It [unfolded I_def], of ls b]
      by (simp add: kM_simps ht I_def)
  qed
  then obtain s3 where 3: "forK [0..<length L] (\<lambda>i. bindK (getsK (\<lambda>s. lh_block s ! i)) (\<lambda>bn. bindK (bdata b) (\<lambda>hb.
         set_bdata b (put32 (4 + 4 * i) bn hb)))) s2 = Ok () s3"
      "bio.stored p s0 [ls \<mapsto> b] (V(ls := hdr_bytes L (V ls))) (R(ls := R ls + 1)) ws s3"
    by (auto simp: I_def hdr_bytes_def)
  obtain s4 where 4: "bwrite b s3 = Ok () s4"
      "bio.stored p s0 [ls \<mapsto> b] (V(ls := hdr_bytes L (V ls))) (R(ls := R ls + 1)) (ws @ [(ls, hdr_bytes L (V ls))]) s4"
    using bio.stored_wr [OF 3(2), of ls b] by auto
  obtain s5 where 5: "brelse b s4 = Ok () s5"
      "bio.stored p s0 Map.empty (V(ls := hdr_bytes L (V ls))) R (ws @ [(ls, hdr_bytes L (V ls))]) s5"
    using bio.stored_rls [OF 4(2), of ls b] bio.stored_dsk [OF 4(2)] by auto
  have fr: "bframe p s0 s" "bframe p s0 s1" "bframe p s0 s2" using st 1(2) 2(2) by (simp_all add: bio.stored_def)
  have "lh_n s1 = int (length L)" "nat (lh_n s2) = length L" using hdr [OF fr(2)] hdr [OF fr(3)] by (simp_all add: log_hdr_def)
  then show ?thesis
    using 1(1) 2(1) 3(1) 4(1) 5 log_hdrD(1,2) [OF hdr [OF fr(1)]] bio.stored_getd [OF 1(2), of ls b]
    by (simp add: write_head_def kM_simps)
qed

section \<open>Installing the log\<close>

definition home_writes :: "u32 \<Rightarrow> u32 list \<Rightarrow> (u32 \<Rightarrow> u8 list) \<Rightarrow> nat \<Rightarrow> (u32 \<times> u8 list) list" where
  "home_writes ls L V n = map (\<lambda>i. (L ! i, V (log_blk ls i))) [0..<n]"

lemma home_writes_Suc: "home_writes ls L V (Suc n) = home_writes ls L V n @ [(L ! n, V (log_blk ls n))]"
  by (simp add: home_writes_def)

lemma home_writes_outside: "n \<le> length L \<Longrightarrow> bn \<notin> set (take n L) \<Longrightarrow> apply_writes V (home_writes ls L W n) bn = V bn"
  by (rule apply_outside) (auto simp: home_writes_def in_set_conv_nth)

definition unpinned :: "u32 list \<Rightarrow> nat \<Rightarrow> (u32 \<Rightarrow> nat) \<Rightarrow> u32 \<Rightarrow> nat" where
  "unpinned L n R bn = (if bn \<in> set (take n L) then R bn - 1 else R bn)"

lemma unpinned_0 [simp]: "unpinned L 0 R = R"
  by (auto simp: unpinned_def)

lemma unpinned_Suc: "distinct L \<Longrightarrow> n < length L \<Longrightarrow>
  unpinned L (Suc n) R = (unpinned L n R)(L ! n := unpinned L n R (L ! n) - 1)"
  by (auto simp: unpinned_def take_Suc_conv_app_nth fun_eq_iff distinct_conv_nth in_set_conv_nth)

lemma card_unpinned: "finite {bn. R bn \<noteq> 0} \<Longrightarrow> card {bn. unpinned L n R bn \<noteq> 0} \<le> card {bn. R bn \<noteq> 0}"
  by (rule card_mono) (auto simp: unpinned_def)

lemma install_trans_spec:
  assumes st: "bio.stored p s0 Map.empty V R ws s" and hd: "log_hdr ls L s"
    and R: "\<And>x. R x < 2 ^ 32 - 1" "\<And>x. x \<in> set L \<Longrightarrow> \<not> rec \<Longrightarrow> R x \<noteq> 0" "card {bn. R bn \<noteq> 0} < NBUF"
      "rec \<Longrightarrow> card {bn. R bn \<noteq> 0} + 1 < NBUF"
    and L: "\<And>x. x \<in> set L \<Longrightarrow> \<not> in_log ls x" "\<not> rec \<Longrightarrow> distinct L"
  defines "R' \<equiv> if rec then R else unpinned L (length L) R"
  shows "\<exists>t. install_trans rec s = Ok () t \<and>
    bio.stored p s0 Map.empty (apply_writes V (home_writes ls L V (length L))) R' (ws @ home_writes ls L V (length L)) t"
proof -
  have fr: "bframe p s0 s" using st by (simp add: bio.stored_def)
  have hdr: "log_hdr ls L t" if "bframe p s0 t" for t using hd log_hdr_bframe [OF fr] log_hdr_bframe [OF that] by simp
  define Ri where "Ri = (\<lambda>i. if rec then R else unpinned L i R)"
  define I where "I = (\<lambda>i. bio.stored p s0 Map.empty (apply_writes V (home_writes ls L V i)) (Ri i) (ws @ home_writes ls L V i))"
  have Rb: "Ri i x < 2 ^ 32 - 1" "card {bn. Ri i bn \<noteq> 0} \<le> card {bn. R bn \<noteq> 0}" for i x
    using R(1) [of x] card_unpinned [of R L i] by (auto simp: Ri_def unpinned_def)
  have "\<exists>t. forK [0..<length L] (\<lambda>tail.
       bindK (getsK log_dev) (\<lambda>dev.
       bindK (bindK (getsK log_start) (\<lambda>st. bread dev (st + of_nat tail + 1))) (\<lambda>lbuf.
       bindK (bindK (getsK (\<lambda>s. lh_block s ! tail)) (bread dev)) (\<lambda>dbuf.
       thenK (bindK (bdata lbuf) (set_bdata dbuf)) (
       thenK (bwrite dbuf) (
       thenK (whenK (\<not> rec) (bunpin dbuf)) (
       thenK (brelse lbuf) (
       brelse dbuf)))))))) s = Ok () t \<and> I (length L) t"
  proof (rule forK_upt)
    show "I 0 s" using st by (simp add: I_def home_writes_def Ri_def)
  next
    fix i t assume i: "i < length L" and It: "I i t"
    then have "bframe p s0 t" by (simp add: I_def bio.stored_def)
    note ht = log_hdrD [OF hdr [OF this]]
    have Li: "L ! i \<in> set L" "\<not> in_log ls (L ! i)" using i L by auto
    then have ne: "log_blk ls i \<noteq> L ! i" using ht(5) [OF i] by (auto simp: in_log_def)
    have "log_blk ls i \<notin> set (take i L)" using L(1) ht(5) [OF i] set_take_subset [of i L] unfolding in_log_def by blast
    then have V: "apply_writes V (home_writes ls L V i) (log_blk ls i) = V (log_blk ls i)"
      using i by (intro home_writes_outside) auto
    have g: "lh_block t ! i = L ! i" if "bframe p s0 t" for t using log_hdrD(4) [OF hdr [OF that] i] .
    have up: "Ri i (L ! i) \<noteq> 0" if "\<not> rec"
      using that L(2) R(2) [OF Li(1)] i by (auto simp: Ri_def unpinned_def distinct_conv_nth in_set_conv_nth)
    have room: "Ri i (L ! i) \<noteq> 0 \<or> card {bn. Ri i bn \<noteq> 0} + 1 < NBUF" "card {bn. Ri i bn \<noteq> 0} < NBUF"
      using up R(3,4) Rb(2) [of i] by linarith+
    have Rs: "(Ri i)(L ! i := if \<not> rec then Ri i (L ! i) - 1 else Ri i (L ! i)) = Ri (Suc i)"
      using L(2) i by (auto simp: Ri_def unpinned_Suc)
    show "\<exists>u. (bindK (getsK log_dev) (\<lambda>dev.
       bindK (bindK (getsK log_start) (\<lambda>st. bread dev (st + of_nat i + 1))) (\<lambda>lbuf.
       bindK (bindK (getsK (\<lambda>s. lh_block s ! i)) (bread dev)) (\<lambda>dbuf.
       thenK (bindK (bdata lbuf) (set_bdata dbuf)) (
       thenK (bwrite dbuf) (
       thenK (whenK (\<not> rec) (bunpin dbuf)) (
       thenK (brelse lbuf) (
       brelse dbuf)))))))) t = Ok () u \<and> I (Suc i) u"
      using bio.install_one [where a = "log_blk ls i" and b = "L ! i" and up = "\<not> rec", OF It [unfolded I_def] _ _ ne Rb(1) room g up]
      by (simp add: kM_simps ht(1,2) log_blk_def [symmetric] I_def home_writes_Suc V Rs apply_append)
  qed
  moreover have "nat (lh_n s) = length L" using log_hdrD(3) [OF hdr [OF fr]] .
  ultimately show ?thesis by (simp add: install_trans_def kM_simps I_def R'_def Ri_def)
qed

end
