(* ===== verification/Fs.thy ===== *)
theory Fs
  imports Log
begin

text \<open>
  \<^verbatim>\<open>kernel/fs.c\<close>: block allocation, inodes, file contents, directories and path names. The inode table is
  indexed by numbers below \<open>NINODE\<close>; a null inode pointer is \<open>None\<close>. Structures on disk are read from and
  written to the bytes of a block. A loop counter that C declares \<^verbatim>\<open>int\<close> or \<^verbatim>\<open>uint\<close> and only counts up to a
  bound is a natural number.
\<close>

section \<open>On-disk format (fs.h) and the inode table (file.h)\<close>

definition ROOTINO :: u32 where "ROOTINO = 1"
definition FSMAGIC :: u32 where "FSMAGIC = 0x10203040"
definition NDIRECT :: nat where "NDIRECT = 12"
definition NINDIRECT :: nat where "NINDIRECT = BSIZE div 4"
definition MAXFILE :: nat where "MAXFILE = NDIRECT + NINDIRECT"
definition IPB :: nat where "IPB = BSIZE div 64"
definition BPB :: nat where "BPB = BSIZE * 8"
definition DIRSIZ :: nat where "DIRSIZ = 14"
definition T_DIR :: u16 where "T_DIR = 1"
definition T_FILE :: u16 where "T_FILE = 2"
definition T_DEVICE :: u16 where "T_DEVICE = 3"

definition IBLOCK :: "u32 \<Rightarrow> superblock \<Rightarrow> u32" where
  "IBLOCK i sb = i div of_nat IPB + sb_inodestart sb"

definition BBLOCK :: "u32 \<Rightarrow> superblock \<Rightarrow> u32" where
  "BBLOCK b sb = b div of_nat BPB + sb_bmapstart sb"

record dinode =
  di_type :: u16
  di_major :: u16
  di_minor :: u16
  di_nlink :: u16
  di_size :: u32
  di_addrs :: "u32 list"

definition get16 :: "nat \<Rightarrow> u8 list \<Rightarrow> u16" where
  "get16 off d = le_word (take 2 (drop off d))"

definition get_dinode :: "nat \<Rightarrow> u8 list \<Rightarrow> dinode" where
  "get_dinode off d =
     \<lparr>di_type = get16 off d, di_major = get16 (off + 2) d, di_minor = get16 (off + 4) d,
      di_nlink = get16 (off + 6) d, di_size = get32 (off + 8) d,
      di_addrs = map (\<lambda>i. get32 (off + 12 + 4 * i) d) [0..<NDIRECT + 1]\<rparr>"

definition dinode_bytes :: "dinode \<Rightarrow> u8 list" where
  "dinode_bytes di =
     le_bytes 2 (di_type di) @ le_bytes 2 (di_major di) @ le_bytes 2 (di_minor di) @ le_bytes 2 (di_nlink di) @
     le_bytes 4 (di_size di) @ concat (map (le_bytes 4) (di_addrs di))"

record dirent =
  de_inum :: u16
  de_name :: "u8 list"

definition get_dirent :: "u8 list \<Rightarrow> dirent" where
  "get_dirent bs = \<lparr>de_inum = le_word (take 2 bs), de_name = take DIRSIZ (drop 2 bs)\<rparr>"

definition dirent_bytes :: "dirent \<Rightarrow> u8 list" where
  "dirent_bytes de = le_bytes 2 (de_inum de) @ de_name de"

definition sizeof_dirent :: nat where "sizeof_dirent = 16"

record inode =
  i_dev :: u32
  i_inum :: u32
  i_ref :: int
  i_valid :: bool
  i_type :: u16
  i_major :: u16
  i_minor :: u16
  i_nlink :: u16
  i_size :: u32
  i_addrs :: "u32 list"

record fs_state = log_state +
  sb :: superblock
  inodes :: "nat \<Rightarrow> inode"

definition modinode :: "nat \<Rightarrow> (inode \<Rightarrow> inode) \<Rightarrow> ('a fs_state_scheme, unit) kM" where
  "modinode ip f = modifyK (\<lambda>s. s\<lparr>inodes := (inodes s)(ip := f (inodes s ip))\<rparr>)"

definition getinode :: "nat \<Rightarrow> ('a fs_state_scheme, inode) kM" where
  "getinode ip = getsK (\<lambda>s. inodes s ip)"

text \<open>Following a null pointer faults in the kernel.\<close>

definition derefK :: "'p option \<Rightarrow> ('s, 'p) kM" where
  "derefK p = (case p of None \<Rightarrow> panicK ''kerneltrap'' | Some x \<Rightarrow> returnK x)"

section \<open>Blocks\<close>

definition get_superblock :: "u8 list \<Rightarrow> superblock" where
  "get_superblock d =
     \<lparr>sb_magic = get32 0 d, sb_size = get32 4 d, sb_nblocks = get32 8 d, sb_ninodes = get32 12 d,
      sb_nlog = get32 16 d, sb_logstart = get32 20 d, sb_inodestart = get32 24 d, sb_bmapstart = get32 28 d\<rparr>"

definition readsb :: "u32 \<Rightarrow> ('a fs_state_scheme, unit) kM" where
  "readsb dev =
     bindK (bread dev 1) (\<lambda>bp.
     thenK (bindK (bdata bp) (\<lambda>d. modifyK (\<lambda>s. s\<lparr>sb := get_superblock d\<rparr>))) (
     brelse bp))"

definition fsinit :: "u32 \<Rightarrow> ('a fs_state_scheme, unit) kM" where
  "fsinit dev =
     thenK (readsb dev) (
     bindK (getsK sb) (\<lambda>sb.
     if sb_magic sb \<noteq> FSMAGIC then panicK ''invalid file system'' else
     initlog dev sb))"

definition bzero :: "u32 \<Rightarrow> u32 \<Rightarrow> ('a log_state_scheme, unit) kM" where
  "bzero dev bno =
     bindK (bread dev bno) (\<lambda>bp.
     thenK (set_bdata bp (replicate BSIZE 0)) (
     thenK (log_write bp) (
     brelse bp)))"

text \<open>Bit \<open>bi\<close> of a bitmap block.\<close>

definition bmap_bit :: "u8 list \<Rightarrow> nat \<Rightarrow> bool" where
  "bmap_bit d bi \<longleftrightarrow> d ! (bi div 8) AND push_bit (bi mod 8) 1 \<noteq> 0"

definition bmap_set :: "u8 list \<Rightarrow> nat \<Rightarrow> u8 list" where
  "bmap_set d bi = d[bi div 8 := d ! (bi div 8) OR push_bit (bi mod 8) 1]"

definition bmap_clear :: "u8 list \<Rightarrow> nat \<Rightarrow> u8 list" where
  "bmap_clear d bi = d[bi div 8 := d ! (bi div 8) AND NOT (push_bit (bi mod 8) 1)]"

text \<open>The inner loop of \<^verbatim>\<open>balloc\<close>: \<open>k\<close> more bits to look at, starting with \<open>bi\<close>.\<close>

fun balloc_scan :: "u8 list \<Rightarrow> nat \<Rightarrow> nat \<Rightarrow> nat option" where
  "balloc_scan d bi 0 = None"
| "balloc_scan d bi (Suc k) = (if \<not> bmap_bit d bi then Some bi else balloc_scan d (bi + 1) k)"

fun balloc_loop :: "u32 \<Rightarrow> nat list \<Rightarrow> ('a fs_state_scheme, u32) kM" where
  "balloc_loop dev [] =
     thenK (printf (''balloc: out of blocks'' @ [CHR 0x0A]) []) (
     returnK 0)"
| "balloc_loop dev (b # bs) =
     bindK (getsK sb) (\<lambda>sb.
     bindK (bread dev (BBLOCK (of_nat b) sb)) (\<lambda>bp.
     bindK (bdata bp) (\<lambda>d.
     case balloc_scan d 0 (min BPB (unat (sb_size sb) - b)) of
       Some bi \<Rightarrow>
         thenK (set_bdata bp (bmap_set d bi)) (
         thenK (log_write bp) (
         thenK (brelse bp) (
         thenK (bzero dev (of_nat (b + bi))) (
         returnK (of_nat (b + bi))))))
     | None \<Rightarrow> thenK (brelse bp) (balloc_loop dev bs))))"

text \<open>The values of \<^verbatim>\<open>b\<close> in \<^verbatim>\<open>for(b = 0; b < sb.size; b += BPB)\<close>.\<close>

definition balloc_starts :: "u32 \<Rightarrow> nat list" where
  "balloc_starts sz = map (\<lambda>k. k * BPB) [0..<(unat sz + BPB - 1) div BPB]"

definition balloc :: "u32 \<Rightarrow> ('a fs_state_scheme, u32) kM" where
  "balloc dev = bindK (getsK (\<lambda>s. balloc_starts (sb_size (sb s)))) (balloc_loop dev)"

definition bfree :: "u32 \<Rightarrow> u32 \<Rightarrow> ('a fs_state_scheme, unit) kM" where
  "bfree dev b =
     bindK (getsK sb) (\<lambda>sb.
     bindK (bread dev (BBLOCK b sb)) (\<lambda>bp.
     let bi = unat b mod BPB in
     bindK (bdata bp) (\<lambda>d.
     if \<not> bmap_bit d bi then panicK ''freeing free block'' else
     thenK (set_bdata bp (bmap_clear d bi)) (
     thenK (log_write bp) (
     brelse bp)))))"

section \<open>Inodes\<close>

definition iinit :: "('a fs_state_scheme, unit) kM" where
  "iinit =
     thenK (initlock ItableLock ''itable'') (
     forK [0..<NINODE] (\<lambda>i. initsleeplock (InodeLock i) ''inode''))"

text \<open>The scan of \<^verbatim>\<open>iget\<close>: the entry with the inode, or else the first empty one.\<close>

fun iget_scan :: "(nat \<Rightarrow> inode) \<Rightarrow> u32 \<Rightarrow> u32 \<Rightarrow> nat list \<Rightarrow> nat option \<Rightarrow> nat option \<times> nat option" where
  "iget_scan tab dev inum [] emp = (None, emp)"
| "iget_scan tab dev inum (ip # ips) emp =
     (if i_ref (tab ip) > 0 \<and> i_dev (tab ip) = dev \<and> i_inum (tab ip) = inum then (Some ip, emp)
      else iget_scan tab dev inum ips (if emp = None \<and> i_ref (tab ip) = 0 then Some ip else emp))"

definition iget :: "u32 \<Rightarrow> u32 \<Rightarrow> ('a fs_state_scheme, nat) kM" where
  "iget dev inum =
     thenK (acquire ItableLock) (
     bindK (getsK (\<lambda>s. iget_scan (inodes s) dev inum [0..<NINODE] None)) (\<lambda>(found, emp).
     case found of
       Some ip \<Rightarrow>
         thenK (modinode ip (\<lambda>i. i\<lparr>i_ref := i_ref i + 1\<rparr>)) (
         thenK (release ItableLock) (
         returnK ip))
     | None \<Rightarrow>
        (case emp of
           None \<Rightarrow> panicK ''iget: no inodes''
         | Some ip \<Rightarrow>
             thenK (modinode ip (\<lambda>i. i\<lparr>i_dev := dev, i_inum := inum, i_ref := 1, i_valid := False\<rparr>)) (
             thenK (release ItableLock) (
             returnK ip)))))"

definition idup :: "nat \<Rightarrow> ('a fs_state_scheme, nat) kM" where
  "idup ip =
     thenK (acquire ItableLock) (
     thenK (modinode ip (\<lambda>i. i\<lparr>i_ref := i_ref i + 1\<rparr>)) (
     thenK (release ItableLock) (
     returnK ip)))"

definition dinode_off :: "u32 \<Rightarrow> nat" where
  "dinode_off inum = 64 * (unat inum mod IPB)"

fun ialloc_loop :: "u32 \<Rightarrow> u16 \<Rightarrow> nat list \<Rightarrow> ('a fs_state_scheme, nat option) kM" where
  "ialloc_loop dev ty [] =
     thenK (printf (''ialloc: no inodes'' @ [CHR 0x0A]) []) (
     returnK None)"
| "ialloc_loop dev ty (inum # inums) =
     bindK (getsK sb) (\<lambda>sb.
     bindK (bread dev (IBLOCK (of_nat inum) sb)) (\<lambda>bp.
     bindK (bdata bp) (\<lambda>d.
     let off = dinode_off (of_nat inum) in
     if di_type (get_dinode off d) = 0 then
       thenK (set_bdata bp (put_at off (le_bytes 2 ty) (put_at off (replicate 64 0) d))) (
       thenK (log_write bp) (
       thenK (brelse bp) (
       bindK (iget dev (of_nat inum)) (\<lambda>ip. returnK (Some ip)))))
     else thenK (brelse bp) (ialloc_loop dev ty inums))))"

definition ialloc :: "u32 \<Rightarrow> u16 \<Rightarrow> ('a fs_state_scheme, nat option) kM" where
  "ialloc dev ty = bindK (getsK (\<lambda>s. [1..<unat (sb_ninodes (sb s))])) (ialloc_loop dev ty)"

definition iupdate :: "nat \<Rightarrow> ('a fs_state_scheme, unit) kM" where
  "iupdate ip =
     bindK (getinode ip) (\<lambda>i.
     bindK (getsK sb) (\<lambda>sb.
     bindK (bread (i_dev i) (IBLOCK (i_inum i) sb)) (\<lambda>bp.
     bindK (getinode ip) (\<lambda>i.
     thenK (bindK (bdata bp) (\<lambda>d. set_bdata bp (put_at (dinode_off (i_inum i)) (dinode_bytes
       \<lparr>di_type = i_type i, di_major = i_major i, di_minor = i_minor i, di_nlink = i_nlink i,
        di_size = i_size i, di_addrs = i_addrs i\<rparr>) d))) (
     thenK (log_write bp) (
     brelse bp))))))"

definition ilock :: "nat option \<Rightarrow> ('a fs_state_scheme, unit) kM" where
  "ilock ipo =
     (case ipo of None \<Rightarrow> panicK ''ilock''
      | Some ip \<Rightarrow>
        bindK (getinode ip) (\<lambda>i.
        if i_ref i < 1 then panicK ''ilock'' else
        thenK (acquiresleep (InodeLock ip)) (
        bindK (getinode ip) (\<lambda>i.
        whenK (\<not> i_valid i) (
          bindK (getsK sb) (\<lambda>sb.
          bindK (bread (i_dev i) (IBLOCK (i_inum i) sb)) (\<lambda>bp.
          bindK (bdata bp) (\<lambda>d.
          let di = get_dinode (dinode_off (i_inum i)) d in
          thenK (modinode ip (\<lambda>i. i\<lparr>i_type := di_type di, i_major := di_major di, i_minor := di_minor di,
                                     i_nlink := di_nlink di, i_size := di_size di, i_addrs := di_addrs di\<rparr>)) (
          thenK (brelse bp) (
          thenK (modinode ip (i_valid_update (\<lambda>_. True))) (
          whenK (di_type di = 0) (panicK ''ilock: no type''))))))))))))"

definition iunlock :: "nat option \<Rightarrow> ('a fs_state_scheme, unit) kM" where
  "iunlock ipo =
     (case ipo of None \<Rightarrow> panicK ''iunlock''
      | Some ip \<Rightarrow>
        bindK (holdingsleep (InodeLock ip)) (\<lambda>h.
        bindK (getinode ip) (\<lambda>i.
        if \<not> h \<or> i_ref i < 1 then panicK ''iunlock'' else
        releasesleep (InodeLock ip))))"

definition itrunc :: "nat \<Rightarrow> ('a fs_state_scheme, unit) kM" where
  "itrunc ip =
     thenK (forK [0..<NDIRECT] (\<lambda>k.
       bindK (getinode ip) (\<lambda>i.
       whenK (i_addrs i ! k \<noteq> 0) (
         thenK (bfree (i_dev i) (i_addrs i ! k)) (
         modinode ip (\<lambda>i. i\<lparr>i_addrs := (i_addrs i)[k := 0]\<rparr>)))))) (
     thenK (
       bindK (getinode ip) (\<lambda>i.
       whenK (i_addrs i ! NDIRECT \<noteq> 0) (
         bindK (bread (i_dev i) (i_addrs i ! NDIRECT)) (\<lambda>bp.
         thenK (forK [0..<NINDIRECT] (\<lambda>j.
           bindK (bdata bp) (\<lambda>a.
           whenK (get32 (4 * j) a \<noteq> 0) (bfree (i_dev i) (get32 (4 * j) a))))) (
         thenK (brelse bp) (
         thenK (bfree (i_dev i) (i_addrs i ! NDIRECT)) (
         modinode ip (\<lambda>i. i\<lparr>i_addrs := (i_addrs i)[NDIRECT := 0]\<rparr>))))))) ) (
     thenK (modinode ip (i_size_update (\<lambda>_. 0))) (
     iupdate ip)))"

definition iput :: "nat \<Rightarrow> ('a fs_state_scheme, unit) kM" where
  "iput ip =
     thenK (acquire ItableLock) (
     bindK (getinode ip) (\<lambda>i.
     thenK (whenK (i_ref i = 1 \<and> i_valid i \<and> i_nlink i = 0) (
       thenK (acquiresleep (InodeLock ip)) (
       thenK (release ItableLock) (
       thenK (itrunc ip) (
       thenK (modinode ip (i_type_update (\<lambda>_. 0))) (
       thenK (iupdate ip) (
       thenK (modinode ip (i_valid_update (\<lambda>_. False))) (
       thenK (releasesleep (InodeLock ip)) (
       acquire ItableLock))))))))) (
     thenK (modinode ip (\<lambda>i. i\<lparr>i_ref := i_ref i - 1\<rparr>)) (
     release ItableLock))))"

definition iunlockput :: "nat \<Rightarrow> ('a fs_state_scheme, unit) kM" where
  "iunlockput ip = thenK (iunlock (Some ip)) (iput ip)"

section \<open>Inode content\<close>

definition bmap :: "nat \<Rightarrow> nat \<Rightarrow> ('a fs_state_scheme, u32) kM" where
  "bmap ip bn =
     bindK (getinode ip) (\<lambda>i.
     if bn < NDIRECT then
       (if i_addrs i ! bn = 0 then
          bindK (balloc (i_dev i)) (\<lambda>addr.
          if addr = 0 then returnK 0 else
          thenK (modinode ip (\<lambda>i. i\<lparr>i_addrs := (i_addrs i)[bn := addr]\<rparr>)) (
          returnK addr))
        else returnK (i_addrs i ! bn))
     else
     let bn = bn - NDIRECT in
     if bn < NINDIRECT then
       bindK (if i_addrs i ! NDIRECT = 0 then
          bindK (balloc (i_dev i)) (\<lambda>addr.
          if addr = 0 then returnK 0 else
          thenK (modinode ip (\<lambda>i. i\<lparr>i_addrs := (i_addrs i)[NDIRECT := addr]\<rparr>)) (
          returnK addr))
        else returnK (i_addrs i ! NDIRECT)) (\<lambda>addr.
       if addr = 0 then returnK 0 else
       bindK (bread (i_dev i) addr) (\<lambda>bp.
       bindK (bdata bp) (\<lambda>a.
       bindK (if get32 (4 * bn) a = 0 then
          bindK (balloc (i_dev i)) (\<lambda>addr.
          thenK (whenK (addr \<noteq> 0) (
            thenK (bindK (bdata bp) (\<lambda>a. set_bdata bp (put32 (4 * bn) addr a))) (
            log_write bp))) (
          returnK addr))
        else returnK (get32 (4 * bn) a)) (\<lambda>addr.
       thenK (brelse bp) (
       returnK addr)))))
     else panicK ''bmap: out of range'')"

record stat =
  st_dev :: u32
  st_ino :: u32
  st_type :: u16
  st_nlink :: u16
  st_size :: u64

definition stati :: "nat \<Rightarrow> ('a fs_state_scheme, stat) kM" where
  "stati ip =
     bindK (getinode ip) (\<lambda>i.
     returnK \<lparr>st_dev = i_dev i, st_ino = i_inum i, st_type = i_type i, st_nlink = i_nlink i,
              st_size = ucast (i_size i)\<rparr>)"

text \<open>
  The loop of \<^verbatim>\<open>readi\<close>; \<open>left\<close> is \<^verbatim>\<open>n - tot\<close>. The result is \<^verbatim>\<open>tot\<close> and the bytes copied.
\<close>

function readi_loop :: "nat \<Rightarrow> cdst \<Rightarrow> nat \<Rightarrow> nat \<Rightarrow> int \<Rightarrow> ('a fs_state_scheme, int \<times> u8 list) kM" where
  "readi_loop ip dst off left tot =
     (if left = 0 then returnK (tot, []) else
      bindK (bmap ip (off div BSIZE)) (\<lambda>addr.
      if addr = 0 then returnK (tot, []) else
      bindK (bindK (getinode ip) (\<lambda>i. bread (i_dev i) addr)) (\<lambda>bp.
      let m = min left (BSIZE - off mod BSIZE) in
      bindK (bdata bp) (\<lambda>d.
      let bs = take m (drop (off mod BSIZE) d) in
      bindK (either_copyout dst bs) (\<lambda>r.
      if r = -1 then thenK (brelse bp) (returnK (-1, [])) else
      thenK (brelse bp) (
      bindK (readi_loop ip (cdst_add dst m) (off + m) (left - m) (tot + int m)) (\<lambda>(t, rest).
      returnK (t, bs @ rest))))))))"
  by pat_completeness auto
termination
  by (relation "measure (\<lambda>(_, _, _, left, _). left)") (auto simp: BSIZE_def)

declare readi_loop.simps [simp del]

definition readi :: "nat \<Rightarrow> cdst \<Rightarrow> u32 \<Rightarrow> u32 \<Rightarrow> ('a fs_state_scheme, int \<times> u8 list) kM" where
  "readi ip dst off n =
     bindK (getinode ip) (\<lambda>i.
     if i_size i < off \<or> off + n < off then returnK (0, []) else
     let n = (if i_size i < off + n then i_size i - off else n) in
     readi_loop ip dst (unat off) (unat n) 0)"

text \<open>The loop of \<^verbatim>\<open>writei\<close> returns \<^verbatim>\<open>tot\<close> and the final \<^verbatim>\<open>off\<close>.\<close>

function writei_loop :: "nat \<Rightarrow> csrc \<Rightarrow> nat \<Rightarrow> nat \<Rightarrow> int \<Rightarrow> ('a fs_state_scheme, int \<times> nat) kM" where
  "writei_loop ip src off left tot =
     (if left = 0 then returnK (tot, off) else
      bindK (bmap ip (off div BSIZE)) (\<lambda>addr.
      if addr = 0 then returnK (tot, off) else
      bindK (bindK (getinode ip) (\<lambda>i. bread (i_dev i) addr)) (\<lambda>bp.
      let m = min left (BSIZE - off mod BSIZE) in
      bindK (either_copyin src m) (\<lambda>(r, bs).
      thenK (bindK (bdata bp) (\<lambda>d. set_bdata bp (put_at (off mod BSIZE) bs d))) (
      if r = -1 then thenK (brelse bp) (returnK (tot, off)) else
      thenK (log_write bp) (
      thenK (brelse bp) (
      writei_loop ip (csrc_add src m) (off + m) (left - m) (tot + int m))))))))"
  by pat_completeness auto
termination
  by (relation "measure (\<lambda>(_, _, _, left, _). left)") (auto simp: BSIZE_def)

declare writei_loop.simps [simp del]

definition writei :: "nat \<Rightarrow> csrc \<Rightarrow> u32 \<Rightarrow> u32 \<Rightarrow> ('a fs_state_scheme, int) kM" where
  "writei ip src off n =
     bindK (getinode ip) (\<lambda>i.
     if i_size i < off \<or> off + n < off then returnK (-1) else
     if MAXFILE * BSIZE < unat (off + n) then returnK (-1) else
     bindK (writei_loop ip src (unat off) (unat n) 0) (\<lambda>(tot, off).
     thenK (modinode ip (\<lambda>i. if unat (i_size i) < off then i\<lparr>i_size := of_nat off\<rparr> else i)) (
     thenK (iupdate ip) (
     returnK tot))))"

section \<open>Directories\<close>

text \<open>The bytes of a C string followed by NULs.\<close>

definition nthz :: "u8 list \<Rightarrow> nat \<Rightarrow> u8" where
  "nthz bs i = (if i < length bs then bs ! i else 0)"

definition namecmp :: "u8 list \<Rightarrow> u8 list \<Rightarrow> int" where
  "namecmp s t = strncmp (nthz s) (nthz t) DIRSIZ"

text \<open>The loop of \<^verbatim>\<open>dirlookup\<close>; with the inode it returns the value of \<^verbatim>\<open>*poff\<close>.\<close>

function dirlookup_loop :: "nat \<Rightarrow> u8 list \<Rightarrow> nat \<Rightarrow> nat \<Rightarrow> ('a fs_state_scheme, (nat \<times> nat) option) kM" where
  "dirlookup_loop dp name off sz =
     (if sz \<le> off then returnK None else
      bindK (readi dp LocalDst (of_nat off) (of_nat sizeof_dirent)) (\<lambda>(r, bs).
      if r \<noteq> int sizeof_dirent then panicK ''dirlookup read'' else
      let de = get_dirent bs in
      if de_inum de = 0 then dirlookup_loop dp name (off + sizeof_dirent) sz
      else if namecmp name (de_name de) = 0 then
        bindK (bindK (getinode dp) (\<lambda>d. iget (i_dev d) (ucast (de_inum de)))) (\<lambda>ip. returnK (Some (ip, off)))
      else dirlookup_loop dp name (off + sizeof_dirent) sz))"
  by pat_completeness auto
termination
  by (relation "measure (\<lambda>(_, _, off, sz). sz - off)") (auto simp: sizeof_dirent_def)

declare dirlookup_loop.simps [simp del]

definition dirlookup :: "nat \<Rightarrow> u8 list \<Rightarrow> ('a fs_state_scheme, (nat \<times> nat) option) kM" where
  "dirlookup dp name =
     bindK (getinode dp) (\<lambda>d.
     if i_type d \<noteq> T_DIR then panicK ''dirlookup not DIR'' else
     dirlookup_loop dp name 0 (unat (i_size d)))"

text \<open>The offset of the first empty entry, or the size of the directory rounded up to an entry.\<close>

function dirlink_loop :: "nat \<Rightarrow> nat \<Rightarrow> nat \<Rightarrow> ('a fs_state_scheme, nat) kM" where
  "dirlink_loop dp off sz =
     (if sz \<le> off then returnK off else
      bindK (readi dp LocalDst (of_nat off) (of_nat sizeof_dirent)) (\<lambda>(r, bs).
      if r \<noteq> int sizeof_dirent then panicK ''dirlink read'' else
      if de_inum (get_dirent bs) = 0 then returnK off
      else dirlink_loop dp (off + sizeof_dirent) sz))"
  by pat_completeness auto
termination
  by (relation "measure (\<lambda>(_, off, sz). sz - off)") (auto simp: sizeof_dirent_def)

declare dirlink_loop.simps [simp del]

definition dirlink :: "nat \<Rightarrow> u8 list \<Rightarrow> u32 \<Rightarrow> ('a fs_state_scheme, int) kM" where
  "dirlink dp name inum =
     bindK (dirlookup dp name) (\<lambda>r.
     case r of
       Some (ip, _) \<Rightarrow> thenK (iput ip) (returnK (-1))
     | None \<Rightarrow>
         bindK (bindK (getinode dp) (\<lambda>d. dirlink_loop dp 0 (unat (i_size d)))) (\<lambda>off.
         let de = \<lparr>de_inum = ucast inum, de_name = strncpy (replicate DIRSIZ 0) (nthz name) (int DIRSIZ)\<rparr> in
         bindK (writei dp (LocalSrc (dirent_bytes de)) (of_nat off) (of_nat sizeof_dirent)) (\<lambda>r.
         if r \<noteq> int sizeof_dirent then returnK (-1) else returnK 0)))"

section \<open>Paths\<close>

text \<open>\<open>None\<close> is the null pointer; otherwise the rest of the path and the element stored in \<^verbatim>\<open>name\<close>.\<close>

definition skipelem :: "u8 list \<Rightarrow> (u8 list \<times> u8 list) option" where
  "skipelem path =
     (let path = dropWhile (\<lambda>c. c = 47) path in
      if path = [] then None else
      let s = takeWhile (\<lambda>c. c \<noteq> 47) path;
          path = dropWhile (\<lambda>c. c \<noteq> 47) path;
          name = (if DIRSIZ \<le> length s then take DIRSIZ s else s)
      in Some (dropWhile (\<lambda>c. c = 47) path, name))"

lemma skipelem_shorter: "skipelem path = Some (rest, name) \<Longrightarrow> length rest < length path"
proof -
  assume *: "skipelem path = Some (rest, name)"
  let ?p = "dropWhile (\<lambda>c. c = 47) path"
  have "?p \<noteq> []" "rest = dropWhile (\<lambda>c. c = 47) (dropWhile (\<lambda>c. c \<noteq> 47) ?p)"
    using * by (auto simp: skipelem_def Let_def split: if_splits)
  moreover from this(1) have "hd ?p \<noteq> 47" using hd_dropWhile by blast
  ultimately have "length rest \<le> length (dropWhile (\<lambda>c. c \<noteq> 47) ?p)" "?p \<noteq> []" "hd ?p \<noteq> 47"
    by (simp_all add: length_dropWhile_le)
  moreover from this(2,3) have "length (dropWhile (\<lambda>c. c \<noteq> 47) ?p) < length ?p"
    by (cases ?p) (auto simp: length_dropWhile_le le_imp_less_Suc)
  moreover have "length ?p \<le> length path" by (rule length_dropWhile_le)
  ultimately show ?thesis by linarith
qed

function namex_loop :: "nat \<Rightarrow> u8 list \<Rightarrow> bool \<Rightarrow> u8 list \<Rightarrow> ('a fs_state_scheme, (nat \<times> u8 list) option) kM" where
  "namex_loop ip path nameiparent name =
     (case skipelem path of
        None \<Rightarrow>
          if nameiparent then thenK (iput ip) (returnK None) else returnK (Some (ip, name))
      | Some (path, name) \<Rightarrow>
          thenK (ilock (Some ip)) (
          bindK (getinode ip) (\<lambda>i.
          if i_type i \<noteq> T_DIR then thenK (iunlockput ip) (returnK None) else
          if nameiparent \<and> path = [] then thenK (iunlock (Some ip)) (returnK (Some (ip, name))) else
          bindK (dirlookup ip name) (\<lambda>r.
          case r of
            None \<Rightarrow> thenK (iunlockput ip) (returnK None)
          | Some (next, _) \<Rightarrow> thenK (iunlockput ip) (namex_loop next path nameiparent name)))))"
  by pat_completeness auto
termination
  by (relation "measure (\<lambda>(_, path, _). length path)") (auto dest: skipelem_shorter)

declare namex_loop.simps [simp del]

text \<open>With the inode it returns the final path element.\<close>

definition namex :: "u8 list \<Rightarrow> bool \<Rightarrow> ('a fs_state_scheme, (nat \<times> u8 list) option) kM" where
  "namex path nameiparent =
     bindK (if path \<noteq> [] \<and> hd path = 47 then iget ROOTDEV ROOTINO
            else bindK curproc (\<lambda>p. bindK (bindK (getsK (\<lambda>s. p_cwd (procs s ! p))) derefK) idup)) (\<lambda>ip.
     namex_loop ip path nameiparent [])"

definition namei :: "u8 list \<Rightarrow> ('a fs_state_scheme, nat option) kM" where
  "namei path = bindK (namex path False) (\<lambda>r. returnK (map_option fst r))"

definition nameiparent :: "u8 list \<Rightarrow> ('a fs_state_scheme, (nat \<times> u8 list) option) kM" where
  "nameiparent path = namex path True"

end
