(* ===== verification/Log_Commit.thy ===== *)
theory Log_Commit
  imports Log
begin

text \<open>
  The correctness of the log (\<^verbatim>\<open>kernel/log.c\<close>): what a commit writes and in which order, what recovery does, the
  contract of \<^verbatim>\<open>log_write\<close>, \<^verbatim>\<open>begin_op\<close> and \<^verbatim>\<open>end_op\<close>, and that a transaction is atomic under crashes. A block
  write is taken to be atomic, and the writes of one process reach the disk in the order in which it makes them:
  \<^verbatim>\<open>bwrite\<close> returns when the device has completed the request.
\<close>

section \<open>The commit\<close>

lemma bc_cong:
  assumes "bufs t = bufs s" "disk t = disk s" "sleeplocks t = sleeplocks s" "p_pid (procs t ! p) = p_pid (procs s ! p)"
    "proc_ctx p t = proc_ctx p s"
  shows "bc p H V R t = bc p H V R s"
proof -
  have f: "find_buf t = find_buf s" using assms(1) by (auto simp: find_buf_def caches_def [abs_def])
  then have "view t = view s" "refs t = refs s"
    using assms(1,2) by (simp_all add: fun_eq_iff view_def refs_def cong: option.case_cong)
  then show ?thesis using assms f by (simp add: bc_def bcache_inv_def)
qed

declare bc_touch [simp]

lemma proc_ctx_log_upd [simp]:
  "proc_ctx p (s\<lparr>lh_n := n\<rparr>) = proc_ctx p s" "proc_ctx p (s\<lparr>lh_block := bl\<rparr>) = proc_ctx p s"
  "proc_ctx p (s\<lparr>log_outstanding := n\<rparr>) = proc_ctx p s" "proc_ctx p (s\<lparr>log_committing := c\<rparr>) = proc_ctx p s"
  "proc_ctx p (s\<lparr>log_start := w\<rparr>) = proc_ctx p s" "proc_ctx p (s\<lparr>log_size := w\<rparr>) = proc_ctx p s"
  "proc_ctx p (s\<lparr>log_dev := w\<rparr>) = proc_ctx p s"
  by (simp_all add: proc_ctx_def cpu_inv_def sie_def lock_free_def)

lemma bc_log_upd [simp]:
  "bc p H V R (s\<lparr>lh_n := n\<rparr>) = bc p H V R s" "bc p H V R (s\<lparr>lh_block := bl\<rparr>) = bc p H V R s"
  "bc p H V R (s\<lparr>log_outstanding := n\<rparr>) = bc p H V R s" "bc p H V R (s\<lparr>log_committing := c\<rparr>) = bc p H V R s"
  "bc p H V R (s\<lparr>log_start := w\<rparr>) = bc p H V R s" "bc p H V R (s\<lparr>log_size := w\<rparr>) = bc p H V R s"
  "bc p H V R (s\<lparr>log_dev := w\<rparr>) = bc p H V R s"
  by (rule bc_cong; simp)+

lemma log_writes_at: "n \<le> LOGSIZE \<Longrightarrow> i < n \<Longrightarrow> apply_writes d (log_writes ls L V n) (log_blk ls i) = V (L ! i)"
proof (induction n)
  case (Suc n)
  then show ?case using log_blk_inj [of i n ls] by (cases "i = n") (auto simp: log_writes_Suc)
qed simp

lemma log_writes_ls:
  assumes "n \<le> LOGSIZE"
  shows "apply_writes d (log_writes ls L V n) ls = d ls"
proof (rule apply_outside)
  have "ls \<noteq> log_blk ls i" if "i < n" for i using log_blk_ls [of i ls] that assms by simp
  then show "ls \<notin> fst ` set (log_writes ls L V n)" by (auto simp: log_writes_def)
qed

definition copies :: "(u32 \<Rightarrow> u8 list) \<Rightarrow> u32 list \<Rightarrow> (u32 \<times> u8 list) list" where
  "copies V L = map (\<lambda>x. (x, V x)) L"

lemma apply_copies: "apply_writes d (copies V L) bn = (if bn \<in> set L then V bn else d bn)"
  by (induction L arbitrary: d) (auto simp: copies_def)

lemma home_writes_copies:
  "(\<And>i. i < length L \<Longrightarrow> d (log_blk ls i) = V (L ! i)) \<Longrightarrow> home_writes ls L d (length L) = copies V L"
  by (auto simp: home_writes_def copies_def intro: nth_equalityI)

text \<open>The writes of one commit, in the order in which they reach the disk.\<close>

definition commit_writes :: "u32 \<Rightarrow> u32 list \<Rightarrow> (u32 \<Rightarrow> u8 list) \<Rightarrow> (u32 \<times> u8 list) list" where
  "commit_writes ls L V = log_writes ls L V (length L) @ [(ls, hdr_bytes L (V ls))] @
     copies V L @ [(ls, hdr_bytes [] (hdr_bytes L (V ls)))]"

lemma commit_spec:
  assumes bc: "bc p Map.empty V R s" and hd: "log_hdr ls L s" and ne: "L \<noteq> []"
    and R: "\<And>x. R x < 2 ^ 32 - 1" "\<And>x. x \<in> set L \<Longrightarrow> R x \<noteq> 0" "card {bn. R bn \<noteq> 0} < NBUF"
    and L: "\<And>x. x \<in> set L \<Longrightarrow> \<not> in_log ls x" "distinct L"
  shows "\<exists>t. commit s = Ok () t \<and> log_hdr ls [] t \<and> disk t = apply_writes (disk s) (commit_writes ls L V) \<and>
    dtrace t = dtrace s @ commit_writes ls L V \<and>
    bc p Map.empty (apply_writes V (commit_writes ls L V)) (unpinned L (length L) R) t \<and>
    log_outstanding t = log_outstanding s \<and> log_size t = log_size s \<and> log_committing t = log_committing s"
proof -
  let ?n = "length L" and ?R = "unpinned L (length L) R"
  have n: "?n \<le> LOGSIZE" using hd by (simp add: log_hdr_def)
  define W1 where "W1 = log_writes ls L V ?n"
  define V1 where "V1 = apply_writes V W1"
  define h where "h = hdr_bytes L (V ls)"
  have ls: "V1 ls = V ls" using log_writes_ls [OF n] by (simp add: V1_def W1_def)
  have "home_writes ls L (V1(ls := h)) ?n = copies V L"
    using n log_blk_ls [of _ ls] by (intro home_writes_copies) (auto simp: V1_def W1_def log_writes_at)
  note hw = this
  have lsn: "ls \<notin> set L" using L(1) by (auto simp: in_log_def)
  note I = bio.stored_init [OF bc]
  have hdr: "log_hdr ls L t" if "bio.stored p s H V' R' ws t" for t H V' R' ws
    using hd log_hdr_bframe [of p s t ls L] that by (simp add: bio.stored_def)
  obtain s1 where 1: "write_log s = Ok () s1" "bio.stored p s Map.empty V1 R W1 s1"
    using write_log_spec [OF I hd R L(1)] by (auto simp: V1_def W1_def)
  obtain s2 where 2: "write_head s1 = Ok () s2" "bio.stored p s Map.empty (V1(ls := h)) R (W1 @ [(ls, h)]) s2"
    using write_head_spec [OF 1(2) hdr [OF 1(2)] R(1,3)] by (auto simp: ls h_def)
  obtain s3 where 3: "install_trans False s2 = Ok () s3"
      "bio.stored p s Map.empty (apply_writes (V1(ls := h)) (copies V L)) ?R ((W1 @ [(ls, h)]) @ copies V L) s3"
    using install_trans_spec [where rec = False, OF 2(2) hdr [OF 2(2)] R(1) _ R(3) _ L] R(2) unfolding hw by auto
  define s3' where "s3' = s3\<lparr>lh_n := 0\<rparr>"
  define V3 where "V3 = apply_writes (V1(ls := h)) (copies V L)"
  have b3: "bc p Map.empty V3 ?R s3'" and d3: "disk s3' = apply_writes (disk s) ((W1 @ [(ls, h)]) @ copies V L)"
      "dtrace s3' = dtrace s @ (W1 @ [(ls, h)]) @ copies V L"
    using 3(2) by (simp_all add: bio.stored_def s3'_def V3_def)
  have h3: "log_hdr ls [] s3'" using hdr [OF 3(2)] by (simp add: log_hdr_def s3'_def)
  have R3: "?R ls < 2 ^ 32 - 1" "card {bn. ?R bn \<noteq> 0} < NBUF"
    using R(1) [of ls] card_unpinned [of R L ?n] R(3) by (auto simp: unpinned_def)
  have V3: "V3 ls = h" using lsn by (simp add: V3_def apply_copies)
  obtain t where t: "write_head s3' = Ok () t" "bio.stored p s3' Map.empty (V3(ls := hdr_bytes [] h)) ?R [(ls, hdr_bytes [] h)] t"
    using write_head_spec [OF bio.stored_init [OF b3] h3 R3] by (auto simp: V3)
  have "bframe p s s3" "bframe p s3' t" using 3(2) t(2) by (simp_all add: bio.stored_def)
  from bframe_log(2-4) [OF this(1)] bframe_log(2-4) [OF this(2)]
  have lf: "log_outstanding t = log_outstanding s" "log_size t = log_size s" "log_committing t = log_committing s"
    by (simp_all add: s3'_def)
  have "lh_n s > 0" using hd ne by (simp add: log_hdr_def)
  moreover have "commit_writes ls L V = ((W1 @ [(ls, h)]) @ copies V L) @ [(ls, hdr_bytes [] h)]"
    by (simp add: commit_writes_def W1_def h_def)
  ultimately show ?thesis
    using 1(1) 2(1) 3(1) t d3 h3 lf log_hdr_bframe [of p s3' t ls "[]"]
    by (auto simp: commit_def kM_simps s3'_def [symmetric] bio.stored_def apply_append V3_def V1_def)
qed

section \<open>Recovery\<close>

lemma read_head_spec:
  assumes bc: "bc p Map.empty V R s" and R: "R ls < 2 ^ 32 - 1" "R ls \<noteq> 0 \<or> card {bn. R bn \<noteq> 0} < NBUF"
    and s: "log_dev s = ROOTDEV" "log_start s = ls" "length (lh_block s) = LOGSIZE"
    and n: "0 \<le> hdr_n (V ls)" "hdr_n (V ls) \<le> int LOGSIZE"
  shows "\<exists>t. read_head s = Ok () t \<and> bc p Map.empty V R t \<and> disk t = disk s \<and> dtrace t = dtrace s \<and>
    log_hdr ls (hdr_blocks (V ls)) t"
proof -
  note I = bio.stored_init [OF bc]
  obtain b s1 where 1: "bread ROOTDEV ls s = Ok b s1" "bio.stored p s [ls \<mapsto> b] V (R(ls := R ls + 1)) [] s1"
    using bio.stored_rd [OF I, of ls] R by auto
  define B where "B = (\<lambda>i. map (\<lambda>i. get32 (4 + 4 * i) (V ls)) [0..<i])"
  define s2 where "s2 = s1\<lparr>lh_n := hdr_n (V ls)\<rparr>"
  have f: "bframe p s s1" using 1(2) by (simp add: bio.stored_def)
  have l2: "length (lh_block s2) = LOGSIZE" using bframe_log [OF f] s by (simp add: s2_def)
  let ?n = "nat (hdr_n (V ls))"
  have "\<exists>t. forK [0..<?n] (\<lambda>i. if LOGSIZE \<le> i then panicK ''read_head: out of bounds'' else
         modifyK (\<lambda>s. s\<lparr>lh_block := (lh_block s)[i := get32 (4 + 4 * i) (V ls)]\<rparr>)) s2 = Ok () t \<and>
       t = s2\<lparr>lh_block := B ?n @ drop ?n (lh_block s2)\<rparr>"
  proof (rule forK_upt)
    fix i t assume i: "i < ?n" and t: "t = s2\<lparr>lh_block := B i @ drop i (lh_block s2)\<rparr>"
    have l: "i < LOGSIZE" using i n by linarith
    have "drop i (lh_block s2) = lh_block s2 ! i # drop (Suc i) (lh_block s2)" using l l2 by (simp add: Cons_nth_drop_Suc)
    then have "(B i @ drop i (lh_block s2))[i := get32 (4 + 4 * i) (V ls)] = B (Suc i) @ drop (Suc i) (lh_block s2)"
      by (simp add: B_def list_update_append)
    then show "\<exists>u. (if LOGSIZE \<le> i then panicK ''read_head: out of bounds'' else
         modifyK (\<lambda>s. s\<lparr>lh_block := (lh_block s)[i := get32 (4 + 4 * i) (V ls)]\<rparr>)) t = Ok () u \<and>
       u = s2\<lparr>lh_block := B (Suc i) @ drop (Suc i) (lh_block s2)\<rparr>"
      using l by (simp add: t kM_simps)
  qed (simp add: B_def)
  then obtain s3 where 3: "forK [0..<?n] (\<lambda>i. if LOGSIZE \<le> i then panicK ''read_head: out of bounds'' else
         modifyK (\<lambda>s. s\<lparr>lh_block := (lh_block s)[i := get32 (4 + 4 * i) (V ls)]\<rparr>)) s2 = Ok () s3"
      and s3: "s3 = s2\<lparr>lh_block := B ?n @ drop ?n (lh_block s2)\<rparr>" by blast
  have b3: "bc p [ls \<mapsto> b] V (R(ls := R ls + 1)) s3" and d3: "disk s3 = disk s" "dtrace s3 = dtrace s"
    using 1(2) by (simp_all add: bio.stored_def s3 s2_def)
  have B: "hdr_blocks (V ls) = B ?n" "length (B ?n) = ?n" by (simp_all add: B_def hdr_blocks_def)
  then have h3: "log_hdr ls (hdr_blocks (V ls)) s3"
    using bframe_log [OF f] s n l2 by (simp add: log_hdr_def s3 s2_def)
  obtain t where t: "brelse b s3 = Ok () t" "bio.stored p s3 Map.empty V R [] t"
    using bio.stored_rls [OF bio.stored_init [OF b3], of ls b] bc_clean [OF bc, of ls] d3 by auto
  have "log_hdr ls (hdr_blocks (V ls)) t" using h3 log_hdr_bframe t(2) unfolding bio.stored_def by blast
  then show ?thesis
    using 1(1) 3 t d3 bio.stored_getd [OF 1(2), of ls b] s
    by (simp add: read_head_def kM_simps s2_def bio.stored_def hdr_n_def)
qed

text \<open>
  What a disk stands for: the blocks named by the header, if it names any, are read from the log. This is the
  abstraction function of the disk: recovery makes it the identity, and only the write of the header changes it.
\<close>

definition log_view :: "u32 \<Rightarrow> (u32 \<Rightarrow> u8 list) \<Rightarrow> u32 \<Rightarrow> u8 list" where
  "log_view ls d = apply_writes d (home_writes ls (hdr_blocks (d ls)) d (length (hdr_blocks (d ls))))"

definition log_ok :: "u32 \<Rightarrow> (u32 \<Rightarrow> u8 list) \<Rightarrow> bool" where
  "log_ok ls d \<longleftrightarrow> 0 \<le> hdr_n (d ls) \<and> hdr_n (d ls) \<le> int LOGSIZE \<and> length (d ls) = BSIZE \<and>
     (\<forall>x \<in> set (hdr_blocks (d ls)). \<not> in_log ls x)"

definition recover_writes :: "u32 \<Rightarrow> (u32 \<Rightarrow> u8 list) \<Rightarrow> (u32 \<times> u8 list) list" where
  "recover_writes ls d = home_writes ls (hdr_blocks (d ls)) d (length (hdr_blocks (d ls))) @ [(ls, hdr_bytes [] (d ls))]"

lemma recover_spec:
  assumes bc: "bc p Map.empty V (\<lambda>_. 0) s"
    and s: "log_dev s = ROOTDEV" "log_start s = ls" "length (lh_block s) = LOGSIZE" and ok: "log_ok ls (disk s)"
  shows "\<exists>t. recover_from_log s = Ok () t \<and> log_hdr ls [] t \<and> disk t = apply_writes (disk s) (recover_writes ls (disk s)) \<and>
    dtrace t = dtrace s @ recover_writes ls (disk s) \<and> bc p Map.empty (disk t) (\<lambda>_. 0) t"
proof -
  let ?R = "\<lambda>_ :: u32. 0 :: nat"
  have V: "V = disk s" using bc_clean [OF bc] by auto
  define L where "L = hdr_blocks (disk s ls)"
  define W where "W = home_writes ls L (disk s) (length L)"
  have L: "\<not> in_log ls x" if "x \<in> set L" for x using ok that by (simp add: log_ok_def L_def)
  obtain s1 where 1: "read_head s = Ok () s1" "bc p Map.empty V ?R s1" "disk s1 = disk s" "dtrace s1 = dtrace s" "log_hdr ls L s1"
    using read_head_spec [OF bc _ _ s] ok by (auto simp: V log_ok_def L_def NBUF_def MAXOPBLOCKS_def)
  obtain s2 where 2: "install_trans True s1 = Ok () s2" "bio.stored p s1 Map.empty (apply_writes V W) ?R W s2"
    using install_trans_spec [where rec = True, OF bio.stored_init [OF 1(2)] 1(5)] L
    by (auto simp: V W_def NBUF_def MAXOPBLOCKS_def)
  define s3 where "s3 = s2\<lparr>lh_n := 0\<rparr>"
  have h2: "log_hdr ls L s2" using 1(5) 2(2) log_hdr_bframe unfolding bio.stored_def by blast
  have h3: "log_hdr ls [] s3" using h2 by (simp add: log_hdr_def s3_def)
  have b3: "bc p Map.empty (apply_writes V W) ?R s3" and d3: "disk s3 = apply_writes (disk s) W" "dtrace s3 = dtrace s @ W"
    using 2(2) 1(3,4) by (simp_all add: bio.stored_def s3_def)
  have "ls \<notin> set L" using L by (auto simp: in_log_def)
  then have ls: "apply_writes V W ls = disk s ls" using home_writes_outside [of "length L" L ls] by (simp add: W_def V)
  obtain t where t: "write_head s3 = Ok () t"
      "bio.stored p s3 Map.empty ((apply_writes V W)(ls := hdr_bytes [] (disk s ls))) ?R [(ls, hdr_bytes [] (disk s ls))] t"
    using write_head_spec [OF bio.stored_init [OF b3] h3] by (auto simp: ls NBUF_def MAXOPBLOCKS_def)
  have "log_hdr ls [] t" using h3 t(2) log_hdr_bframe unfolding bio.stored_def by blast
  moreover have "recover_writes ls (disk s) = W @ [(ls, hdr_bytes [] (disk s ls))]"
    by (simp add: recover_writes_def W_def L_def)
  ultimately show ?thesis
    using 1(1) 2(1) t d3 by (simp add: recover_from_log_def kM_simps s3_def [symmetric] bio.stored_def V)
qed

section \<open>Crashes\<close>

lemma apply_absorb: "bn \<in> fst ` set W \<Longrightarrow> apply_writes d W bn = apply_writes e W bn"
proof (induction W arbitrary: d e)
  case (Cons w W)
  obtain a x where w: "w = (a, x)" by force
  show ?case
  proof (cases "bn \<in> fst ` set W")
    case True
    then show ?thesis using Cons.IH by (simp add: w)
  next
    case False
    then show ?thesis using Cons.prems by (simp add: w apply_outside)
  qed
qed simp

lemma log_view_clean: "hdr_n (d ls) = 0 \<Longrightarrow> log_view ls d = d"
  by (simp add: log_view_def hdr_blocks_def home_writes_def)

lemma hdr_empty: "length hb = BSIZE \<Longrightarrow> hdr_n (hdr_bytes [] hb) = 0"
  using hdr_roundtrip [of hb "[]"] by simp

text \<open>A crash during recovery: a prefix of its writes leaves the meaning of the disk as it was.\<close>

lemma recover_prefix:
  fixes k :: nat
  assumes ok: "log_ok ls d"
  defines "d' \<equiv> apply_writes d (take k (recover_writes ls d))"
  shows "log_ok ls d'" "\<not> in_log ls bn \<Longrightarrow> log_view ls d' bn = log_view ls d bn"
proof -
  define L where "L = hdr_blocks (d ls)"
  define W where "W = home_writes ls L d (length L)"
  have L: "\<not> in_log ls x" if "x \<in> set L" for x using ok that by (simp add: log_ok_def L_def)
  have fW: "fst ` set (take j W) \<subseteq> set L" for j
    using set_take_subset [of j W] by (auto simp: W_def home_writes_def)
  have out: "apply_writes d (take j W) x = d x" if "in_log ls x" for x j
    using that L fW [of j] by (intro apply_outside) auto
  have len: "length (d ls) = BSIZE" using ok by (simp add: log_ok_def)
  have rw: "recover_writes ls d = W @ [(ls, hdr_bytes [] (d ls))]" by (simp add: recover_writes_def W_def L_def)
  have lW: "length W = length L" by (simp add: W_def home_writes_def)
  have ls: "in_log ls ls" by (simp add: in_log_def)
  have vd: "log_view ls d = apply_writes d W" by (simp add: log_view_def W_def L_def)
  have "log_ok ls d' \<and> (\<not> in_log ls bn \<longrightarrow> log_view ls d' bn = log_view ls d bn)"
  proof (cases "k \<le> length W")
    case True
    then have d': "d' = apply_writes d (take k W)" by (simp add: d'_def rw)
    have h: "d' ls = d ls" using out [OF ls] by (simp add: d')
    have "length L \<le> LOGSIZE" using ok unfolding log_ok_def L_def hdr_blocks_def by auto
    then have "i < LOGSIZE" if "i < length L" for i using that by simp
    then have "d' (log_blk ls i) = d (log_blk ls i)" if "i < length L" for i
      using that out [of "log_blk ls i" k] unfolding d' in_log_def by blast
    then have "home_writes ls L d' (length L) = W" by (simp add: W_def home_writes_def)
    then have "log_view ls d' bn = apply_writes d' W bn" by (simp add: log_view_def h L_def)
    also have "\<dots> = apply_writes d W bn"
    proof (cases "bn \<in> fst ` set W")
      case False
      then have "bn \<notin> fst ` set (take k W)" using set_take_subset [of k W] by blast
      then show ?thesis using False by (simp add: d' apply_outside)
    qed (rule apply_absorb)
    finally show ?thesis using ok h vd by (simp add: log_ok_def)
  next
    case False
    then have d': "d' = (apply_writes d W)(ls := hdr_bytes [] (d ls))" by (simp add: d'_def rw)
    have h: "hdr_n (d' ls) = 0" using hdr_empty [OF len] by (simp add: d')
    have "log_ok ls d'" using h len hdr_roundtrip(3) [of "d ls" "[]"] by (simp add: log_ok_def hdr_blocks_def d')
    then show ?thesis using log_view_clean [of d', OF h] ls vd by (auto simp: d')
  qed
  then show "log_ok ls d'" "\<not> in_log ls bn \<Longrightarrow> log_view ls d' bn = log_view ls d bn" by auto
qed

text \<open>A crash during a commit: before the header is written the disk stands for the old contents, after it for the new ones.\<close>

lemma commit_prefix:
  fixes k :: nat
  assumes L: "\<And>x. x \<in> set L \<Longrightarrow> \<not> in_log ls x" "length L \<le> LOGSIZE"
    and d: "hdr_n (d ls) = 0" "length (d ls) = BSIZE" "V ls = d ls"
    and V: "\<And>bn. bn \<notin> set L \<Longrightarrow> \<not> in_log ls bn \<Longrightarrow> V bn = d bn"
  defines "d' \<equiv> apply_writes d (take k (commit_writes ls L V))"
  shows "log_ok ls d'" "\<not> in_log ls bn \<Longrightarrow> log_view ls d' bn = (if k \<le> length L then d bn else V bn)"
proof -
  let ?n = "length L"
  define W where "W = log_writes ls L V ?n"
  define h where "h = hdr_bytes L (d ls)"
  define e where "e = (apply_writes d W)(ls := h)"
  have lW: "length W = ?n" by (simp add: W_def log_writes_def)
  have cw: "commit_writes ls L V = W @ [(ls, h)] @ copies V L @ [(ls, hdr_bytes [] h)]"
    by (simp add: commit_writes_def W_def h_def d(3))
  have lsL: "ls \<notin> set L" using L(1) by (auto simp: in_log_def)
  have h: "hdr_n h = int ?n" "hdr_blocks h = L" "length h = BSIZE" using hdr_roundtrip [OF d(2) L(2)] by (simp_all add: h_def)
  have eV: "e bn = d bn" if "\<not> in_log ls bn" for bn
    using that log_writes_outside [OF L(2) that] by (auto simp: e_def W_def in_log_def)
  have eL: "e (log_blk ls i) = V (L ! i)" if "i < ?n" for i
    using that L(2) log_blk_ls [of i ls] log_writes_at [OF L(2) that] by (simp add: e_def W_def)
  consider "k \<le> ?n" | "?n < k" "k \<le> ?n + 1 + ?n" | "?n + 1 + ?n < k" by linarith
  then have "log_ok ls d' \<and> (\<not> in_log ls bn \<longrightarrow> log_view ls d' bn = (if k \<le> length L then d bn else V bn))"
  proof cases
    case 1
    then have "take k (commit_writes ls L V) = log_writes ls L V k" by (simp add: cw W_def log_writes_def take_map)
    then have d': "d' = apply_writes d (log_writes ls L V k)" by (simp add: d'_def)
    have ls: "d' ls = d ls" using 1 L(2) log_writes_ls by (simp add: d')
    then show ?thesis using log_view_clean [of d' ls] log_writes_outside [of k ls bn] 1 d L(2)
      by (auto simp: d' log_ok_def hdr_blocks_def)
  next
    case 2
    define j where "j = k - ?n - 1"
    have k: "k = ?n + (1 + j)" "j \<le> ?n" using 2 by (simp_all add: j_def)
    have "take k (commit_writes ls L V) = W @ [(ls, h)] @ copies V (take j L)"
      using k(2) by (simp add: cw k(1) lW copies_def take_map)
    then have d': "d' bn = (if bn \<in> set (take j L) then V bn else e bn)" for bn
      by (simp add: d'_def apply_append e_def apply_copies)
    have sub: "set (take j L) \<subseteq> set L" by (rule set_take_subset)
    have ls: "d' ls = h" using lsL sub by (auto simp: d' e_def)
    have "in_log ls (log_blk ls i)" if "i < ?n" for i using that L(2) less_le_trans unfolding in_log_def by blast
    then have "log_blk ls i \<notin> set (take j L)" if "i < ?n" for i using L(1) that sub by blast
    then have "home_writes ls L d' ?n = copies V L" using eL by (intro home_writes_copies) (simp add: d')
    then have "log_view ls d' bn = (if bn \<in> set L then V bn else d' bn)" by (simp add: log_view_def ls h apply_copies)
    then show ?thesis using sub V [of bn] eV [of bn] 2(1) ls h L by (auto simp: d' log_ok_def)
  next
    case 3
    then have "take k (commit_writes ls L V) = commit_writes ls L V" by (simp add: cw lW copies_def)
    then have d': "d' bn = (if bn = ls then hdr_bytes [] h else if bn \<in> set L then V bn else e bn)" for bn
      by (simp add: d'_def cw apply_append e_def apply_copies)
    have "hdr_n (d' ls) = 0" "length (d' ls) = BSIZE" using hdr_empty [OF h(3)] hdr_roundtrip(3) [OF h(3), of "[]"] by (simp_all add: d')
    then show ?thesis using log_view_clean [of d' ls] 3 V [of bn] eV [of bn] by (auto simp: d' log_ok_def hdr_blocks_def in_log_def)
  qed
  then show "log_ok ls d'" "\<not> in_log ls bn \<Longrightarrow> log_view ls d' bn = (if k \<le> length L then d bn else V bn)" by auto
qed

section \<open>Recording a block in the transaction\<close>

lemma takeWhile_less: "x \<in> set xs \<Longrightarrow> length (takeWhile (\<lambda>y. y \<noteq> x) xs) < length xs"
  by (induction xs) auto

lemma log_find_mem:
  assumes "bn \<in> set (take n bl)"
  shows "log_find bl n bn < length (take n bl)" "bl ! log_find bl n bn = bn"
proof -
  show l: "log_find bl n bn < length (take n bl)"
    unfolding log_find_def using assms by (rule takeWhile_less)
  then have "take n bl ! log_find bl n bn = bn" using nth_length_takeWhile unfolding log_find_def by blast
  then show "bl ! log_find bl n bn = bn" using l by simp
qed

lemma log_find_new: "bn \<notin> set (take n bl) \<Longrightarrow> log_find bl n bn = length (take n bl)"
proof -
  assume "bn \<notin> set (take n bl)"
  then have "takeWhile (\<lambda>x. x \<noteq> bn) (take n bl) = take n bl" by (auto simp: takeWhile_eq_all_conv)
  then show ?thesis unfolding log_find_def by (rule arg_cong)
qed

definition absorb :: "u32 list \<Rightarrow> u32 \<Rightarrow> u32 list" where
  "absorb L bn = (if bn \<in> set L then L else L @ [bn])"

lemma log_write_spec:
  assumes bc: "bc p H V R s" "H bn = Some b" "R bn < 2 ^ 32 - 1" and hd: "log_hdr ls L s"
    and room: "length L < LOGSIZE" "int (length L) < sint (log_size s) - 1" "1 \<le> log_outstanding s"
  defines "R' \<equiv> if bn \<in> set L then R else R(bn := R bn + 1)"
  shows "\<exists>t. log_write b s = Ok () t \<and> bc p H V R' t \<and> log_hdr ls (absorb L bn) t \<and> disk t = disk s \<and> dtrace t = dtrace s \<and>
    (\<exists>bl B n. t = (touch s)\<lparr>lh_block := bl, bufs := B, lh_n := n\<rparr>)"
proof -
  have ctx: "proc_ctx p s" using bc(1) by (simp add: bc_def)
  note d = proc_ctxD [OF ctx] and h = bc_heldD [OF bc(1,2)]
  have blk: "b_blockno (bufs s b) = bn" using h by (simp add: caches_def)
  let ?i = "log_find (lh_block s) (length L) bn"
  have tk: "take (length L) (lh_block s) = L" "lh_n s = int (length L)" "length (lh_block s) = LOGSIZE"
    using hd by (simp_all add: log_hdr_def)
  have guard: "\<not> (int LOGSIZE \<le> lh_n s \<or> sint (log_size s) - 1 \<le> lh_n s)" "\<not> log_outstanding s < 1"
    using room tk(2) by auto
  let ?bl = "(lh_block s)[?i := bn]" and ?a = "acq LogLock s"
  have rl: "release LogLock u = Ok () (rel LogLock u)" if "hart_eq ?a u" for u
    using d(1) that by (rule release_after)
  show ?thesis
  proof (cases "bn \<in> set L")
    case True
    then have i: "?i < length L" "lh_block s ! ?i = bn"
      using log_find_mem [of bn "length L" "lh_block s"] by (simp_all add: tk(1))
    have "release LogLock (?a\<lparr>lh_block := ?bl\<rparr>) = Ok () ((touch s)\<lparr>lh_block := ?bl\<rparr>)"
      using rl [of "?a\<lparr>lh_block := ?bl\<rparr>"] d(1,2) by (simp add: hart_eq_def lock_commute rel_acq)
    then have "log_write b s = Ok () ((touch s)\<lparr>lh_block := ?bl\<rparr>)"
      using guard i(1) by (simp add: log_write_def kM_simps acquire_free [OF d(2)] tk(2) blk)
    moreover have "?bl = lh_block s" using i by (metis list_update_id)
    moreover have "\<exists>bl B n. (touch s)\<lparr>lh_block := lh_block s\<rparr> = (touch s)\<lparr>lh_block := bl, bufs := B, lh_n := n\<rparr>"
      by (rule exI [of _ "lh_block s"], rule exI [of _ "bufs s"], rule exI [of _ "lh_n s"]) simp
    ultimately show ?thesis using bc(1) hd True by (auto simp: R'_def absorb_def log_hdr_def)
  next
    case False
    then have i: "?i = length L" using log_find_new [of bn "length L" "lh_block s"] tk room(1) by simp
    let ?B = "(bufs s)(b := (bufs s b)\<lparr>b_refcnt := b_refcnt (bufs s b) + 1\<rparr>)"
    let ?u = "?a\<lparr>lh_block := ?bl, bufs := ?B, lh_n := int (length L) + 1\<rparr>"
    let ?t = "(touch s)\<lparr>lh_block := ?bl, bufs := ?B, lh_n := int (length L) + 1\<rparr>"
    have "touch ?a = ?a" using d(6) acq_noff [of LogLock s] by (intro touch_id) simp
    then have pin: "bpin b (?a\<lparr>lh_block := ?bl\<rparr>) = Ok () (?a\<lparr>lh_block := ?bl, bufs := ?B\<rparr>)"
      using d(1,2) by (simp add: bpin_run lock_commute)
    have "release LogLock ?u = Ok () ?t" using rl [of ?u] d(1,2) by (simp add: hart_eq_def lock_commute rel_acq)
    then have run: "log_write b s = Ok () ?t"
      using guard i pin by (simp add: log_write_def kM_simps acquire_free [OF d(2)] tk(2) blk)
    obtain t' where "bpin b s = Ok () t'" "bc p H V (R(bn := R bn + 1)) t'" using bpin_spec [OF bc] by blast
    then have "bc p H V (R(bn := R bn + 1)) ((touch s)\<lparr>bufs := ?B\<rparr>)" using bpin_run [OF d(1,2), of b] by simp
    then have "bc p H V R' ?t" using False by (subst bc_cong [where s = "(touch s)\<lparr>bufs := ?B\<rparr>"]) (simp_all add: R'_def)
    moreover have "take (Suc (length L)) ?bl = L @ [bn]"
      using tk(1,3) room(1) i by (simp add: take_Suc_conv_app_nth)
    ultimately show ?thesis using hd False room(1) i by (auto simp: run absorb_def log_hdr_def)
  qed
qed

section \<open>A transaction\<close>

lemma begin_op_spec:
  assumes "proc_ctx p s" "\<not> log_committing s" "lh_n s + (log_outstanding s + 1) * int MAXOPBLOCKS \<le> int LOGSIZE"
  shows "begin_op s = Ok () ((touch s)\<lparr>log_outstanding := log_outstanding s + 1\<rparr>)"
proof -
  note d = proc_ctxD [OF assms(1)]
  let ?u = "(acq LogLock s)\<lparr>log_outstanding := log_outstanding s + 1\<rparr>"
  have "release LogLock ?u = Ok () (rel LogLock ?u)" using d(1) by (rule release_after) (simp add: hart_eq_def)
  then show ?thesis using d assms by (simp add: begin_op_def kM_simps acquire_free lock_commute rel_acq)
qed

lemma end_op_spec:
  assumes bc: "bc p Map.empty V R s" and hd: "log_hdr ls L s" and ne: "L \<noteq> []"
    and R: "\<And>x. R x < 2 ^ 32 - 1" "\<And>x. x \<in> set L \<Longrightarrow> R x \<noteq> 0" "card {bn. R bn \<noteq> 0} < NBUF"
    and L: "\<And>x. x \<in> set L \<Longrightarrow> \<not> in_log ls x" "distinct L" and lg: "log_outstanding s = 1" "\<not> log_committing s"
  shows "\<exists>t. end_op s = Ok () t \<and> log_hdr ls [] t \<and> disk t = apply_writes (disk s) (commit_writes ls L V) \<and>
    dtrace t = dtrace s @ commit_writes ls L V \<and>
    bc p Map.empty (apply_writes V (commit_writes ls L V)) (unpinned L (length L) R) t \<and>
    log_outstanding t = 0 \<and> log_size t = log_size s \<and> \<not> log_committing t"
proof -
  have ctx: "proc_ctx p s" using bc by (simp add: bc_def)
  note d = proc_ctxD [OF ctx]
  let ?u = "(acq LogLock s)\<lparr>log_outstanding := 0, log_committing := True\<rparr>"
  define s1 where "s1 = (touch s)\<lparr>log_outstanding := 0, log_committing := True\<rparr>"
  have "release LogLock ?u = Ok () (rel LogLock ?u)" using d(1) by (rule release_after) (simp add: hart_eq_def)
  then have 1: "release LogLock ?u = Ok () s1" using d by (simp add: s1_def lock_commute rel_acq)
  have "bc p Map.empty V R s1" "log_hdr ls L s1" using bc hd by (simp_all add: s1_def log_hdr_def)
  from commit_spec [OF this ne R L]
  obtain s2 where 2: "commit s1 = Ok () s2" "log_hdr ls [] s2" "disk s2 = apply_writes (disk s) (commit_writes ls L V)"
      "dtrace s2 = dtrace s @ commit_writes ls L V"
      "bc p Map.empty (apply_writes V (commit_writes ls L V)) (unpinned L (length L) R) s2"
      "log_outstanding s2 = 0" "log_size s2 = log_size s"
    by (auto simp: s1_def)
  have ctx2: "proc_ctx p s2" using 2(5) by (simp add: bc_def)
  note d2 = proc_ctxD [OF ctx2]
  let ?v = "(acq LogLock s2)\<lparr>log_committing := False\<rparr>" and ?ps = "woken (Some p) ChanLog (procs s2)"
  let ?t = "(touch s2)\<lparr>log_committing := False, procs := ?ps\<rparr>"
  have "touch ?v = ?v" using d2(1) by (simp add: lock_commute)
  then have w: "wakeup ChanLog ?v = Ok () (?v\<lparr>procs := ?ps\<rparr>)" using wakeup_run [of ?v ChanLog] d2 by simp
  have "release LogLock (?v\<lparr>procs := ?ps\<rparr>) = Ok () (rel LogLock (?v\<lparr>procs := ?ps\<rparr>))"
    using d2(1) by (rule release_after) (simp add: hart_eq_def)
  then have 3: "release LogLock (?v\<lparr>procs := ?ps\<rparr>) = Ok () ?t" using d2 by (simp add: lock_commute rel_acq)
  have "p_pid (?ps ! p) = p_pid (procs s2 ! p)" "length ?ps = length (procs s2)"
    using procs_frame_woken [of p "procs s2" ChanLog] d2(4,5) by (simp_all add: procs_frame_def)
  then have "bc p H V' R' ?t = bc p H V' R' s2" for H V' R' by (intro bc_cong) simp_all
  then show ?thesis
    using 1 2 w 3 lg d(2) d2(2)
    by (simp add: end_op_def kM_simps acquire_free log_hdr_def)
qed

text \<open>
  The way a client of the log updates a block: read it, change the copy in the cache, record it in the log and
  release it. A transaction is a sequence of such updates between \<^verbatim>\<open>begin_op\<close> and \<^verbatim>\<open>end_op\<close>.
\<close>

definition tx_write :: "u32 \<Rightarrow> u8 list \<Rightarrow> ('a log_state_scheme, unit) kM" where
  "tx_write bn d =
     bindK (bread ROOTDEV bn) (\<lambda>b.
     thenK (set_bdata b d) (
     thenK (log_write b) (
     brelse b)))"

definition transaction :: "(u32 \<times> u8 list) list \<Rightarrow> ('a log_state_scheme, unit) kM" where
  "transaction xs = thenK begin_op (thenK (forK xs (\<lambda>(bn, d). tx_write bn d)) end_op)"

definition pins :: "u32 list \<Rightarrow> u32 \<Rightarrow> nat" where
  "pins L bn = (if bn \<in> set L then 1 else 0)"

lemma pins_simps: "pins L x < 2 ^ 32 - 1" "x \<in> set L \<Longrightarrow> pins L x \<noteq> 0" "card {bn. pins L bn \<noteq> 0} \<le> length L"
  "unpinned L (length L) (pins L) = (\<lambda>_. 0)"
  using card_length [of L] by (auto simp: pins_def unpinned_def)

definition in_tx :: "nat \<Rightarrow> u32 \<Rightarrow> u32 list \<Rightarrow> (u32 \<Rightarrow> u8 list) \<Rightarrow> 'a log_state_scheme \<Rightarrow> bool" where
  "in_tx p ls L V s \<longleftrightarrow> bc p Map.empty V (pins L) s \<and> log_hdr ls L s \<and> distinct L \<and> (\<forall>x \<in> set L. \<not> in_log ls x) \<and>
     log_outstanding s = 1 \<and> \<not> log_committing s \<and> int MAXOPBLOCKS < sint (log_size s)"

lemma tx_write_spec:
  assumes tx: "in_tx p ls L V s" and bn: "\<not> in_log ls bn" and L: "length L < MAXOPBLOCKS"
  shows "\<exists>t. tx_write bn d s = Ok () t \<and> in_tx p ls (absorb L bn) (V(bn := d)) t \<and> disk t = disk s \<and> dtrace t = dtrace s \<and>
    log_size t = log_size s"
proof -
  have bc: "bc p Map.empty V (pins L) s" and hd: "log_hdr ls L s" and lg: "log_outstanding s = 1" "\<not> log_committing s"
      "int MAXOPBLOCKS < sint (log_size s)"
    using tx by (simp_all add: in_tx_def)
  have "card {bn. pins L bn \<noteq> 0} < NBUF" using pins_simps(3) [of L] L by (simp add: NBUF_def)
  then obtain b s1 where 1: "bread ROOTDEV bn s = Ok b s1" "bio.stored p s [bn \<mapsto> b] V ((pins L)(bn := pins L bn + 1)) [] s1"
    using bio.stored_rd [OF bio.stored_init [OF bc], of bn] pins_simps(1) [of L bn] by auto
  obtain s2 where 2: "set_bdata b d s1 = Ok () s2"
      "bio.stored p s [bn \<mapsto> b] (V(bn := d)) ((pins L)(bn := pins L bn + 1)) [] s2"
    using bio.stored_setd [OF 1(2), of bn b d] by auto
  have b2: "bc p [bn \<mapsto> b] (V(bn := d)) ((pins L)(bn := pins L bn + 1)) s2" and f2: "bframe p s s2"
      and d2: "disk s2 = disk s" "dtrace s2 = dtrace s" using 2(2) by (simp_all add: bio.stored_def)
  note l2 = bframe_log [OF f2]
  define R1 where "R1 = (pins L)(bn := pins L bn + 1)"
  define R where "R = (if bn \<in> set L then R1 else R1(bn := R1 bn + 1))"
  have R1: "R1 bn < 2 ^ 32 - 1" by (simp add: R1_def pins_def)
  have h2: "log_hdr ls L s2" using hd log_hdr_bframe [OF f2] by simp
  obtain s3 where 3: "log_write b s2 = Ok () s3" "bc p [bn \<mapsto> b] (V(bn := d)) R s3" "log_hdr ls (absorb L bn) s3"
      "disk s3 = disk s" "dtrace s3 = dtrace s" "log_outstanding s3 = 1" "log_size s3 = log_size s" "\<not> log_committing s3"
    using log_write_spec [OF b2 [folded R1_def] _ R1 h2, of b, folded R_def] L lg l2 d2
    by (auto simp: LOGSIZE_def)
  have R: "1 < R bn" "R(bn := R bn - 1) = pins (absorb L bn)" by (auto simp: R_def R1_def pins_def absorb_def fun_eq_iff)
  obtain t where t: "brelse b s3 = Ok () t" "bio.stored p s3 Map.empty (V(bn := d)) (pins (absorb L bn)) [] t"
    using bio.stored_rls [OF bio.stored_init [OF 3(2)], of bn b] R by auto
  have f: "bframe p s3 t" "bc p Map.empty (V(bn := d)) (pins (absorb L bn)) t" "disk t = disk s" "dtrace t = dtrace s"
    using t(2) 3(4,5) by (simp_all add: bio.stored_def)
  have "in_tx p ls (absorb L bn) (V(bn := d)) t"
    using tx f(2) 3(3,6-8) log_hdr_bframe [OF f(1)] bframe_log [OF f(1)] bn lg(3) by (auto simp: in_tx_def absorb_def)
  then show ?thesis using 1(1) 2(1) 3(1,7) t(1) f bframe_log [OF f(1)] by (simp add: tx_write_def kM_simps)
qed

lemma tx_writes_spec:
  assumes "in_tx p ls L V s" "\<And>x. x \<in> set xs \<Longrightarrow> \<not> in_log ls (fst x)" "length L + length xs \<le> MAXOPBLOCKS"
  shows "\<exists>t L'. forK xs (\<lambda>(bn, d). tx_write bn d) s = Ok () t \<and> in_tx p ls L' (apply_writes V xs) t \<and> disk t = disk s \<and>
    dtrace t = dtrace s \<and> log_size t = log_size s \<and> set L' = set L \<union> fst ` set xs"
  using assms
proof (induction xs arbitrary: L V s)
  case (Cons x xs)
  obtain bn d where x: "x = (bn, d)" by force
  obtain t where t: "tx_write bn d s = Ok () t" "in_tx p ls (absorb L bn) (V(bn := d)) t" "disk t = disk s" "dtrace t = dtrace s"
      "log_size t = log_size s"
    using tx_write_spec [OF Cons.prems(1), of bn d] Cons.prems(2) [of x] Cons.prems(3) x by auto
  have "length (absorb L bn) + length xs \<le> MAXOPBLOCKS" using Cons.prems(3) by (simp add: absorb_def)
  then obtain u L' where u: "forK xs (\<lambda>(bn, d). tx_write bn d) t = Ok () u" "in_tx p ls L' (apply_writes (V(bn := d)) xs) u"
      "disk u = disk t" "dtrace u = dtrace t" "log_size u = log_size t" "set L' = set (absorb L bn) \<union> fst ` set xs"
    using Cons.IH [OF t(2)] Cons.prems(2) by fastforce
  have "set L' = set L \<union> fst ` set (x # xs)" by (auto simp: u(6) absorb_def x split: if_splits)
  then show ?case using t u(1-5) x by (intro exI [of _ u] exI [of _ L']) (simp add: kM_simps)
qed auto

text \<open>A machine that stops during recovery any number of times: each time a prefix of the writes of the recovery is done.\<close>

inductive recovery_crashes :: "u32 \<Rightarrow> (u32 \<Rightarrow> u8 list) \<Rightarrow> (u32 \<Rightarrow> u8 list) \<Rightarrow> bool" for ls where
  no_crash: "recovery_crashes ls d d"
| crash: "recovery_crashes ls d e \<Longrightarrow> recovery_crashes ls d (apply_writes e (take k (recover_writes ls e)))"

lemma recovery_crashes_view:
  assumes "recovery_crashes ls d e" "log_ok ls d"
  shows "log_ok ls e \<and> (\<forall>bn. \<not> in_log ls bn \<longrightarrow> log_view ls e bn = log_view ls d bn)"
  using assms by induction (use recover_prefix in auto)

text \<open>A machine after \<^verbatim>\<open>binit\<close> and the first lines of \<^verbatim>\<open>initlog\<close>, with nothing in the cache.\<close>

definition rebooted :: "nat \<Rightarrow> u32 \<Rightarrow> 'a log_state_scheme \<Rightarrow> bool" where
  "rebooted p ls s \<longleftrightarrow> bc p Map.empty (disk s) (\<lambda>_. 0) s \<and> log_dev s = ROOTDEV \<and> log_start s = ls \<and>
     length (lh_block s) = LOGSIZE"

lemma recover_view:
  assumes s: "rebooted p ls s" and ok: "log_ok ls (disk s)"
  shows "\<exists>t. recover_from_log s = Ok () t \<and> log_hdr ls [] t \<and> bc p Map.empty (disk t) (\<lambda>_. 0) t \<and>
    dtrace t = dtrace s @ recover_writes ls (disk s) \<and> hdr_n (disk t ls) = 0 \<and>
    (\<forall>bn. \<not> in_log ls bn \<longrightarrow> disk t bn = log_view ls (disk s) bn)"
proof -
  obtain t where t: "recover_from_log s = Ok () t" "log_hdr ls [] t" "disk t = apply_writes (disk s) (recover_writes ls (disk s))"
      "dtrace t = dtrace s @ recover_writes ls (disk s)" "bc p Map.empty (disk t) (\<lambda>_. 0) t"
    using recover_spec [of p "disk s" s ls] assms by (auto simp: rebooted_def)
  have "hdr_n (disk t ls) = 0" using ok hdr_empty by (simp add: t(3) recover_writes_def log_ok_def)
  moreover have "disk t bn = log_view ls (disk s) bn" if "\<not> in_log ls bn" for bn
    using that by (auto simp: t(3) recover_writes_def log_view_def in_log_def)
  ultimately show ?thesis using t by blast
qed

definition log_idle :: "nat \<Rightarrow> u32 \<Rightarrow> 'a log_state_scheme \<Rightarrow> bool" where
  "log_idle p ls s \<longleftrightarrow> bc p Map.empty (disk s) (\<lambda>_. 0) s \<and> log_hdr ls [] s \<and> log_outstanding s = 0 \<and> \<not> log_committing s \<and>
     int MAXOPBLOCKS < sint (log_size s) \<and> hdr_n (disk s ls) = 0 \<and> length (disk s ls) = BSIZE"

lemma transaction_spec:
  assumes s: "log_idle p ls s" and xs: "xs \<noteq> []" "length xs \<le> MAXOPBLOCKS" "\<And>x. x \<in> set xs \<Longrightarrow> \<not> in_log ls (fst x)"
  shows "\<exists>t L. transaction xs s = Ok () t \<and> log_idle p ls t \<and> dtrace t = dtrace s @ commit_writes ls L (apply_writes (disk s) xs) \<and>
    disk t = apply_writes (disk s) (commit_writes ls L (apply_writes (disk s) xs)) \<and>
    set L = fst ` set xs \<and> length L \<le> LOGSIZE"
proof -
  have bc: "bc p Map.empty (disk s) (\<lambda>_. 0) s" and hd: "log_hdr ls [] s"
      and lg: "log_outstanding s = 0" "\<not> log_committing s" "int MAXOPBLOCKS < sint (log_size s)"
      and ds: "hdr_n (disk s ls) = 0" "length (disk s ls) = BSIZE"
    using s by (simp_all add: log_idle_def)
  define s1 where "s1 = (touch s)\<lparr>log_outstanding := 1\<rparr>"
  have 1: "begin_op s = Ok () s1"
    using begin_op_spec [of p s] bc hd lg by (simp add: bc_def log_hdr_def LOGSIZE_def s1_def)
  have "pins [] = (\<lambda>_. 0)" by (simp add: pins_def fun_eq_iff)
  then have i: "in_tx p ls [] (disk s) s1" using bc hd lg by (simp add: in_tx_def s1_def log_hdr_def)
  have d1: "disk s1 = disk s" "dtrace s1 = dtrace s" "log_size s1 = log_size s" by (simp_all add: s1_def)
  define V where "V = apply_writes (disk s) xs"
  obtain s2 L where 2: "forK xs (\<lambda>(bn, d). tx_write bn d) s1 = Ok () s2" "in_tx p ls L V s2" "disk s2 = disk s"
      "dtrace s2 = dtrace s" "log_size s2 = log_size s" and L: "set L = fst ` set xs"
    using tx_writes_spec [OF i xs(3)] xs(2) unfolding d1 V_def by fastforce
  have ne: "L \<noteq> []" using L xs(1) by auto
  have tx: "bc p Map.empty V (pins L) s2" "log_hdr ls L s2" "distinct L" "\<And>x. x \<in> set L \<Longrightarrow> \<not> in_log ls x"
      "log_outstanding s2 = 1" "\<not> log_committing s2"
    using 2(2) by (simp_all add: in_tx_def)
  have "length L = card (set L)" using tx(3) by (simp add: distinct_card)
  also have "\<dots> \<le> length xs" unfolding L using card_image_le [of "set xs" fst] card_length [of xs] by auto
  finally have len: "length L \<le> MAXOPBLOCKS" using xs(2) by simp
  then have R: "card {bn. pins L bn \<noteq> 0} < NBUF" using pins_simps(3) [of L] by (simp add: NBUF_def MAXOPBLOCKS_def)
  obtain t where t: "end_op s2 = Ok () t" "log_hdr ls [] t" "disk t = apply_writes (disk s) (commit_writes ls L V)"
      "dtrace t = dtrace s @ commit_writes ls L V" "bc p Map.empty (apply_writes V (commit_writes ls L V)) (\<lambda>_. 0) t"
      "log_outstanding t = 0" "log_size t = log_size s" "\<not> log_committing t"
    using end_op_spec [OF tx(1,2) ne pins_simps(1,2) R tx(4,3,5,6)] 2(3-5) by (auto simp: pins_simps(4))
  have "ls \<notin> set L" using tx(4) by (auto simp: in_log_def)
  then have "V ls = disk s ls" unfolding V_def L by (rule apply_outside)
  then have "hdr_n (disk t ls) = 0" "length (disk t ls) = BSIZE"
    using ds hdr_roundtrip(3) [of "disk s ls" L] hdr_empty len hdr_roundtrip(3) [of "hdr_bytes L (disk s ls)" "[]"]
    by (simp_all add: t(3) commit_writes_def apply_append LOGSIZE_def)
  moreover have "bc p Map.empty (disk t) (\<lambda>_. 0) t" using t(5) bc_clean [OF t(5)] by (metis ext)
  ultimately have "log_idle p ls t" using t lg(3) by (simp add: log_idle_def)
  then show ?thesis
    using 1 2(1) t L len by (intro exI [of _ t] exI [of _ L]) (simp add: transaction_def kM_simps V_def LOGSIZE_def)
qed

section \<open>Crash safety\<close>


definition buf0 :: buf where
  "buf0 = \<lparr>b_valid = False, b_disk = False, b_dev = 0, b_blockno = 0, b_refcnt = 0, b_prev = 0, b_next = 0, b_data = []\<rparr>"

definition log0 :: log_state where
  "log0 = vio_state.extend (blk_state.extend (con_state.extend con0 (blk_state.fields (\<lambda>_. replicate BSIZE 0) [] (\<lambda>_. buf0)))
       (vio_state.fields 0 0 0 (replicate 8 desc0) 0 (replicate 8 0) 0 (replicate 8 0) (replicate 8 True) 0
         (replicate 8 None) (replicate 8 0) (replicate 8 \<lparr>rq_type = 0, rq_reserved = 0, rq_sector = 0\<rparr>)))
     (log_state.fields 2 30 0 False ROOTDEV 0 (replicate LOGSIZE 0))"

lemmas log0_defs = log0_def con0_def kstate.defs kmem_state.defs vm_state.defs con_state.defs blk_state.defs vio_state.defs
  log_state.defs

lemma log0_simps [simp]:
  "bufs log0 = (\<lambda>_. buf0)" "disk log0 = (\<lambda>_. replicate BSIZE 0)" "dtrace log0 = []" "log_start log0 = 2" "log_size log0 = 30"
  "log_outstanding log0 = 0" "\<not> log_committing log0" "log_dev log0 = ROOTDEV" "lh_n log0 = 0" "lh_block log0 = replicate LOGSIZE 0"
  by (simp_all add: log0_defs)

lemma log0_ctx: "proc_ctx 0 log0"
  using ks1_ctx by (simp add: log0_defs proc_ctx_def cpu_inv_def sie_def lock_free_def)

lemma hdr_n_zero [simp]: "hdr_n (replicate BSIZE 0) = 0"
  by (simp add: hdr_n_def get32_def BSIZE_def le_word_zero)

lemma log0_idle: "\<exists>s. binit log0 = Ok () s \<and> log_idle 0 2 s \<and> rebooted 0 2 s \<and> disk s = (\<lambda>_. replicate BSIZE 0)"
proof -
  obtain s where s: "binit log0 = Ok () s" "bc 0 Map.empty (disk log0) (\<lambda>_. 0) s" "disk s = disk log0" "inited NBUF log0 s"
    using binit_bc [OF _ log0_ctx] by (auto simp: buf0_def ROOTDEV_def)
  then have "log_hdr 2 [] s" "log_outstanding s = 0" "\<not> log_committing s" "log_size s = 30"
    by (auto simp: inited_def log_hdr_def)
  then show ?thesis using s by (auto simp: log_idle_def rebooted_def log_hdr_def MAXOPBLOCKS_def)
qed

lemma in_log_2: "33 \<le> x \<Longrightarrow> \<not> in_log 2 x"
proof
  assume x: "33 \<le> x" "in_log 2 x"
  then obtain i where "x = 2 \<or> i < 30 \<and> x = 3 + of_nat i" by (auto simp: in_log_def log_blk_def LOGSIZE_def MAXOPBLOCKS_def)
  moreover have "unat (3 + of_nat i :: u32) < 33" if "i < 30" using that by (simp add: unat_word_ariths unat_of_nat)
  ultimately show False using x(1) by (auto simp: word_le_nat_alt)
qed


text \<open>
  C5. Recovery: on a rebooted machine whose log header is well formed, \<^verbatim>\<open>recover_from_log\<close> returns, copies the
  logged blocks to their homes and then clears the header, in this order, and leaves an empty log; stopped after any
  number of its writes, it leaves a disk that stands for the same contents and from which it can be run again.
\<close>

theorem recovery_idempotent:
  assumes "rebooted p ls s" and "log_ok ls (disk s)"
  shows "\<exists>t ws. recover_from_log s = Ok () t \<and> dtrace t = dtrace s @ ws \<and> log_hdr ls [] t \<and> hdr_n (disk t ls) = 0 \<and>
    (\<forall>bn. \<not> in_log ls bn \<longrightarrow> disk t bn = log_view ls (disk s) bn) \<and>
    (\<forall>k. log_ok ls (apply_writes (disk s) (take k ws)) \<and>
      (\<forall>bn. \<not> in_log ls bn \<longrightarrow> log_view ls (apply_writes (disk s) (take k ws)) bn = log_view ls (disk s) bn))"
proof -
  obtain t where "recover_from_log s = Ok () t" "log_hdr ls [] t" "dtrace t = dtrace s @ recover_writes ls (disk s)"
      "hdr_n (disk t ls) = 0" "\<forall>bn. \<not> in_log ls bn \<longrightarrow> disk t bn = log_view ls (disk s) bn"
    using recover_view [OF assms] by blast
  then show ?thesis using recover_prefix [OF assms(2)] by blast
qed

theorem recovery_idempotent_witness:
  "\<exists>(s :: log_state) t. rebooted 0 2 s \<and> recover_from_log s = Ok () t \<and> hdr_n (disk t 2) = 0 \<and> disk t 60 = replicate BSIZE 0"
proof -
  obtain s :: log_state where s: "rebooted 0 2 s" "disk s = (\<lambda>_. replicate BSIZE 0)" using log0_idle by blast
  have ok: "log_ok 2 (disk s)" by (simp add: log_ok_def s(2) hdr_blocks_def)
  have "\<not> in_log 2 60" by (rule in_log_2) simp
  moreover have "log_view 2 (disk s) 60 = replicate BSIZE 0" using log_view_clean [of "disk s" 2] by (simp add: s(2))
  ultimately show ?thesis using recovery_idempotent [OF s(1) ok] s(1) by (metis (no_types, lifting))
qed

end
