(* ===== verification/Fs_Tx.thy ===== *)
theory Fs_Tx
  imports Fs Log_Commit
begin

text \<open>
  The contract between the file system and the log: inside of a transaction a block is read, changed, recorded with
  \<^verbatim>\<open>log_write\<close> and released, and the file system sees a store of blocks. The interface is the locale
  \<open>logged_blocks\<close>, which the operations of \<^verbatim>\<open>kernel/bio.c\<close> and \<^verbatim>\<open>kernel/log.c\<close> provide.
\<close>

section \<open>Inside of a transaction\<close>

definition holds :: "(u32 \<Rightarrow> nat option) \<Rightarrow> u32 list \<Rightarrow> u32 \<Rightarrow> nat" where
  "holds H L bn = pins L bn + (if H bn = None then 0 else 1)"

text \<open>
  Process \<open>p\<close> is in a transaction: \<open>L\<close> are the blocks recorded so far, \<open>H\<close> the blocks whose buffers it has locked, and
  \<open>V\<close> the contents of the blocks as the process sees them.
\<close>

definition tx :: "nat \<Rightarrow> u32 \<Rightarrow> u32 list \<Rightarrow> (u32 \<Rightarrow> nat option) \<Rightarrow> (u32 \<Rightarrow> u8 list) \<Rightarrow> 'a fs_state_scheme \<Rightarrow> bool" where
  "tx p ls L H V s \<longleftrightarrow> bc p H V (holds H L) s \<and> log_hdr ls L s \<and> distinct L \<and> (\<forall>x \<in> set L. \<not> in_log ls x) \<and>
     1 \<le> log_outstanding s \<and> int LOGSIZE \<le> sint (log_size s)"

text \<open>What the operations on blocks leave alone.\<close>

definition tframe :: "nat \<Rightarrow> 'a fs_state_scheme \<Rightarrow> 'a fs_state_scheme \<Rightarrow> bool" where
  "tframe p s t \<longleftrightarrow> mem t = mem s \<and> tp t = tp s \<and> procs_frame p (procs s) (procs t) \<and>
     (\<forall>i. sleeplocks t (InodeLock i) = sleeplocks s (InodeLock i)) \<and> disk t = disk s \<and> dtrace t = dtrace s \<and>
     log_size t = log_size s \<and> log_outstanding t = log_outstanding s \<and> log_committing t = log_committing s \<and>
     kend t = kend s \<and> freelist t = freelist s \<and> fuel t = fuel s \<and>
     mmio_in t = mmio_in s \<and> mmio_out t = mmio_out s \<and> panicked t = panicked s \<and> pr_locking t = pr_locking s \<and>
     sb t = sb s \<and> inodes t = inodes s \<and> fs_state.more t = fs_state.more s"

lemma tframe_refl: "tframe p s s"
  by (simp add: tframe_def procs_frame_refl)

lemma tframe_trans [trans]: "tframe p s t \<Longrightarrow> tframe p t u \<Longrightarrow> tframe p s u"
  unfolding tframe_def by (auto intro: procs_frame_trans)

lemma fs_frame [simp]:
  "sb (acq lk s) = sb s" "sb (rel lk s) = sb s" "sb (touch s) = sb s"
  "inodes (acq lk s) = inodes s" "inodes (rel lk s) = inodes s" "inodes (touch s) = inodes s"
  "fs_state.more (acq lk s) = fs_state.more s" "fs_state.more (rel lk s) = fs_state.more s"
  "fs_state.more (touch s) = fs_state.more s"
  by (simp_all add: acq_def rel_def pushed_def popped_def touch_def Let_def)

lemma bframe_fs:
  assumes "bframe p s t"
  shows "sb t = sb s" "inodes t = inodes s" "fs_state.more t = fs_state.more s" "procs_frame p (procs s) (procs t)"
    "mmio_in t = mmio_in s" "mmio_out t = mmio_out s" "panicked t = panicked s" "pr_locking t = pr_locking s"
proof -
  obtain u sl ps D T B where "u = s \<or> u = touch s" "t = u\<lparr>sleeplocks := sl, procs := ps, disk := D, dtrace := T, bufs := B\<rparr>"
      "procs_frame p (procs s) ps"
    using assms unfolding bframe_def by blast
  then show "sb t = sb s" "inodes t = inodes s" "fs_state.more t = fs_state.more s" "procs_frame p (procs s) (procs t)"
      "mmio_in t = mmio_in s" "mmio_out t = mmio_out s" "panicked t = panicked s" "pr_locking t = pr_locking s"
    by (elim disjE; simp)+
qed

lemma tframeI: "bframe p s t \<Longrightarrow> disk t = disk s \<Longrightarrow> dtrace t = dtrace s \<Longrightarrow> tframe p s t"
  using bframeD [of p s t] bframe_log [of p s t] bframe_fs [of p s t] by (simp add: tframe_def)

lemma card_holds: "finite (dom H) \<Longrightarrow> card {bn. holds H L bn \<noteq> 0} \<le> length L + card (dom H)"
proof -
  assume "finite (dom H)"
  have "{bn. holds H L bn \<noteq> 0} \<subseteq> set L \<union> dom H" by (auto simp: holds_def pins_def split: if_splits)
  then have "card {bn. holds H L bn \<noteq> 0} \<le> card (set L \<union> dom H)" using \<open>finite (dom H)\<close> by (intro card_mono) auto
  also have "\<dots> \<le> card (set L) + card (dom H)" by (rule card_Un_le)
  also have "\<dots> \<le> length L + card (dom H)" using card_length [of L] by simp
  finally show ?thesis .
qed

lemma holds_less: "holds H L bn < 2 ^ 32 - 1"
  by (simp add: holds_def pins_def)

lemma tx_rd:
  assumes tx: "tx p ls L H V s" and H: "H bn = None" and room: "length L + card (dom H) < NBUF"
  shows "\<exists>b t. bread ROOTDEV bn s = Ok b t \<and> tx p ls L (H(bn \<mapsto> b)) V t \<and> tframe p s t"
proof -
  have bc: "bc p H V (holds H L) s" using tx by (simp add: tx_def)
  have "card {bn. holds H L bn \<noteq> 0} < NBUF" using card_holds [of H L] room by simp
  then obtain b t where t: "bread ROOTDEV bn s = Ok b t" "bc p (H(bn \<mapsto> b)) V ((holds H L)(bn := holds H L bn + 1)) t"
      "disk t = disk s" "dtrace t = dtrace s" "bframe p s t"
    using bread_spec [OF bc H holds_less] by blast
  have "(holds H L)(bn := holds H L bn + 1) = holds (H(bn \<mapsto> b)) L" using H by (auto simp: holds_def)
  then have "tx p ls L (H(bn \<mapsto> b)) V t"
    using t(2,5) tx log_hdr_bframe [OF t(5)] bframe_log [OF t(5)] by (simp add: tx_def)
  then show ?thesis using t(1) tframeI [OF t(5,3,4)] by blast
qed

lemma tx_setd:
  assumes tx: "tx p ls L H V s" and H: "H bn = Some b"
  shows "\<exists>t. set_bdata b d s = Ok () t \<and> tx p ls L H (V(bn := d)) t \<and> tframe p s t"
proof -
  have bc: "bc p H V (holds H L) s" using tx by (simp add: tx_def)
  obtain t where t: "set_bdata b d s = Ok () t" "bc p H (V(bn := d)) (holds H L) t" "disk t = disk s" "dtrace t = dtrace s"
      "bframe p s t"
    using set_bdata_spec [OF bc H] by blast
  then have "tx p ls L H (V(bn := d)) t" using tx log_hdr_bframe [OF t(5)] bframe_log [OF t(5)] by (simp add: tx_def)
  then show ?thesis using t(1) tframeI [OF t(5,3,4)] by blast
qed

lemma tx_log:
  assumes tx: "tx p ls L H V s" and H: "H bn = Some b" and bn: "\<not> in_log ls bn" and room: "length L < LOGSIZE - 1"
  shows "\<exists>t. log_write b s = Ok () t \<and> tx p ls (absorb L bn) H V t \<and> tframe p s t"
proof -
  have bc: "bc p H V (holds H L) s" and hd: "log_hdr ls L s" and lg: "1 \<le> log_outstanding s" "int LOGSIZE \<le> sint (log_size s)"
    using tx by (simp_all add: tx_def)
  have r: "length L < LOGSIZE" "int (length L) < sint (log_size s) - 1" using room lg(2) by linarith+
  obtain t where t: "log_write b s = Ok () t"
      "bc p H V (if bn \<in> set L then holds H L else (holds H L)(bn := holds H L bn + 1)) t" "log_hdr ls (absorb L bn) t"
      "\<exists>bl B n. t = (touch s)\<lparr>lh_block := bl, bufs := B, lh_n := n\<rparr>"
    using log_write_spec [OF bc H holds_less hd r lg(1)] by blast
  have f: "tframe p s t" using t(4) by (auto simp: tframe_def procs_frame_refl)
  have "(if bn \<in> set L then holds H L else (holds H L)(bn := holds H L bn + 1)) = holds H (absorb L bn)"
    by (auto simp: holds_def pins_def absorb_def fun_eq_iff)
  then have "tx p ls (absorb L bn) H V t" using t(2,3) f tx bn by (auto simp: tx_def absorb_def tframe_def)
  then show ?thesis using t(1) f by blast
qed

lemma tx_rls:
  assumes tx: "tx p ls L H V s" and H: "H bn = Some b" and cl: "bn \<in> set L \<or> V bn = disk s bn"
  shows "\<exists>t. brelse b s = Ok () t \<and> tx p ls L (H(bn := None)) V t \<and> tframe p s t"
proof -
  have bc: "bc p H V (holds H L) s" using tx by (simp add: tx_def)
  have "1 < holds H L bn \<or> V bn = disk s bn" using cl H by (auto simp: holds_def pins_def)
  then obtain t where t: "brelse b s = Ok () t" "bc p (H(bn := None)) V ((holds H L)(bn := holds H L bn - 1)) t" "disk t = disk s"
      "dtrace t = dtrace s" "bframe p s t"
    using brelse_spec [OF bc H] by blast
  have "(holds H L)(bn := holds H L bn - 1) = holds (H(bn := None)) L" using H by (auto simp: holds_def)
  then have "tx p ls L (H(bn := None)) V t" using t(2) tx log_hdr_bframe [OF t(5)] bframe_log [OF t(5)] by (simp add: tx_def)
  then show ?thesis using t(1) tframeI [OF t(5,3,4)] by blast
qed

lemma tx_getd: "tx p ls L H V s \<Longrightarrow> H bn = Some b \<Longrightarrow> bdata b s = Ok (V bn) s"
  using bdata_run unfolding tx_def by blast

lemma tx_clean: "tx p ls L H V s \<Longrightarrow> H bn = None \<Longrightarrow> bn \<notin> set L \<Longrightarrow> V bn = disk s bn"
  using bc_clean [of p H V "holds H L" s bn] by (simp add: tx_def holds_def pins_def)

lemma set_absorb [simp]: "bn \<in> set (absorb L bn)"
  by (simp add: absorb_def)

section \<open>The interface\<close>

locale logged_blocks =
  fixes inv :: "nat \<Rightarrow> u32 \<Rightarrow> u32 list \<Rightarrow> (u32 \<Rightarrow> nat option) \<Rightarrow> (u32 \<Rightarrow> u8 list) \<Rightarrow> 's \<Rightarrow> bool"
    and frame :: "nat \<Rightarrow> 's \<Rightarrow> 's \<Rightarrow> bool" and dsk :: "'s \<Rightarrow> u32 \<Rightarrow> u8 list"
    and rd :: "u32 \<Rightarrow> ('s, nat) kM" and getd :: "nat \<Rightarrow> ('s, u8 list) kM" and setd :: "nat \<Rightarrow> u8 list \<Rightarrow> ('s, unit) kM"
    and lg rls :: "nat \<Rightarrow> ('s, unit) kM" and logcap cap :: nat
  assumes rd_law: "inv p ls L H V s \<Longrightarrow> H bn = None \<Longrightarrow> length L + card (dom H) < cap \<Longrightarrow>
      \<exists>b t. rd bn s = Ok b t \<and> inv p ls L (H(bn \<mapsto> b)) V t \<and> frame p s t"
    and getd_law: "inv p ls L H V s \<Longrightarrow> H bn = Some b \<Longrightarrow> getd b s = Ok (V bn) s"
    and setd_law: "inv p ls L H V s \<Longrightarrow> H bn = Some b \<Longrightarrow> \<exists>t. setd b d s = Ok () t \<and> inv p ls L H (V(bn := d)) t \<and> frame p s t"
    and lg_law: "inv p ls L H V s \<Longrightarrow> H bn = Some b \<Longrightarrow> \<not> in_log ls bn \<Longrightarrow> length L < logcap \<Longrightarrow>
      \<exists>t. lg b s = Ok () t \<and> inv p ls (absorb L bn) H V t \<and> frame p s t"
    and rls_law: "inv p ls L H V s \<Longrightarrow> H bn = Some b \<Longrightarrow> bn \<in> set L \<or> V bn = dsk s bn \<Longrightarrow>
      \<exists>t. rls b s = Ok () t \<and> inv p ls L (H(bn := None)) V t \<and> frame p s t"
    and clean_law: "inv p ls L H V s \<Longrightarrow> H bn = None \<Longrightarrow> bn \<notin> set L \<Longrightarrow> V bn = dsk s bn"
    and frame_refl: "frame p s s"
    and frame_trans: "frame p s t \<Longrightarrow> frame p t u \<Longrightarrow> frame p s u"
    and frame_dsk: "frame p s t \<Longrightarrow> dsk t = dsk s"
begin

text \<open>Opening a block: it can be read, and released again as it is.\<close>

lemma open_block:
  assumes "inv p ls L H V s" "H bn = None" "length L + card (dom H) < cap"
  obtains b t where "rd bn s = Ok b t" "inv p ls L (H(bn \<mapsto> b)) V t" "frame p s t" "getd b t = Ok (V bn) t"
    "bn \<in> set L \<or> V bn = dsk t bn"
proof -
  obtain b t where t: "rd bn s = Ok b t" "inv p ls L (H(bn \<mapsto> b)) V t" "frame p s t" using rd_law [OF assms] by blast
  moreover have "getd b t = Ok (V bn) t" using getd_law [OF t(2), of bn b] by simp
  moreover have "bn \<in> set L \<or> V bn = dsk t bn" using clean_law [OF assms(1,2)] frame_dsk [OF t(3)] by metis
  ultimately show ?thesis by (rule that)
qed

lemma close_block:
  assumes "inv p ls L (H(bn \<mapsto> b)) V s" "H bn = None" "bn \<in> set L \<or> V bn = dsk s bn"
  obtains t where "rls b s = Ok () t" "inv p ls L H V t" "frame p s t"
proof -
  have "(H(bn \<mapsto> b))(bn := None) = H" using assms(2) by auto
  then show ?thesis using rls_law [OF assms(1), of bn b] assms(3) that by auto
qed

text \<open>Changing an open block, recording it and releasing it.\<close>

lemma save_block:
  assumes inv: "inv p ls L (H(bn \<mapsto> b)) V s" and H: "H bn = None" and bn: "\<not> in_log ls bn" "length L < logcap"
  obtains t where "thenK (setd b d) (thenK (lg b) (rls b)) s = Ok () t" "inv p ls (absorb L bn) H (V(bn := d)) t" "frame p s t"
proof -
  obtain t1 where 1: "setd b d s = Ok () t1" "inv p ls L (H(bn \<mapsto> b)) (V(bn := d)) t1" "frame p s t1"
    using setd_law [OF inv, of bn b d] by auto
  obtain t2 where 2: "lg b t1 = Ok () t2" "inv p ls (absorb L bn) (H(bn \<mapsto> b)) (V(bn := d)) t2" "frame p t1 t2"
    using lg_law [OF 1(2), of bn b] bn by auto
  obtain t3 where 3: "rls b t2 = Ok () t3" "inv p ls (absorb L bn) H (V(bn := d)) t3" "frame p t2 t3"
    using close_block [OF 2(2) H] set_absorb by blast
  show ?thesis
    using that 1 2 3 frame_trans [OF 1(3) frame_trans [OF 2(3) 3(3)]] by (auto simp: kM_simps)
qed

lemma save_run:
  assumes "thenK (setd b d) (thenK (lg b) (rls b)) s = Ok () t"
  shows "thenK (setd b d) (thenK (lg b) (thenK (rls b) k)) s = k t"
proof -
  obtain t1 t2 where "setd b d s = Ok () t1" "lg b t1 = Ok () t2" "rls b t2 = Ok () t"
    using assms by (auto simp: thenK_Ok_iff)
  then show ?thesis by (simp add: kM_simps)
qed

end

interpretation lb: logged_blocks tx tframe disk "bread ROOTDEV" bdata set_bdata log_write brelse "LOGSIZE - 1" NBUF
proof unfold_locales
  fix p s t and u :: "'a fs_state_scheme"
  show "tframe p s t \<Longrightarrow> disk t = disk s" for p and s t :: "'a fs_state_scheme" by (simp add: tframe_def)
qed (fact tx_rd tx_getd tx_setd tx_log tx_rls tx_clean tframe_refl tframe_trans)+

text \<open>A machine with given disk contents, right after \<^verbatim>\<open>binit\<close>, in its first transaction.\<close>

lemma tx_exists:
  "\<exists>s :: fs_state. tx 0 2 [] Map.empty D s \<and> sb s = S \<and> inodes s = I \<and> disk s = D \<and> \<not> panicked s \<and> uart_idle s \<and> pr_locking s"
proof -
  let ?l = "log0\<lparr>disk := D, log_outstanding := 1, mmio_in := \<lambda>_ _. 0xff, pr_locking := True\<rparr>"
  let ?s = "log_state.extend ?l (fs_state.fields S I)"
  have ctx: "proc_ctx 0 ?s"
    using log0_ctx by (simp add: log_state.defs fs_state.defs proc_ctx_def cpu_inv_def sie_def lock_free_def)
  have f: "bufs ?s = (\<lambda>_. buf0)" "disk ?s = D" "log_start ?s = 2" "log_size ?s = 30" "log_outstanding ?s = 1" "log_dev ?s = ROOTDEV"
      "lh_n ?s = 0" "lh_block ?s = replicate LOGSIZE 0" "\<not> panicked ?s" "pr_locking ?s" "mmio_in ?s = (\<lambda>_ _. 0xff)" "sb ?s = S" "inodes ?s = I"
    by (simp_all add: log0_defs fs_state.defs)
  obtain t where t: "bc 0 Map.empty D (\<lambda>_. 0) t" "disk t = D" "inited NBUF ?s t"
    using binit_bc [OF _ ctx] f(1,2) by (auto simp: buf0_def ROOTDEV_def)
  then obtain lk sl B where e: "t = ?s\<lparr>locks := lk, sleeplocks := sl, bufs := B\<rparr>" by (auto simp: inited_def)
  have "holds Map.empty [] = (\<lambda>_. 0)" by (auto simp: holds_def pins_def)
  then have "tx 0 2 [] Map.empty D t" using t(1) f(3-8) unfolding e by (simp add: tx_def log_hdr_def LOGSIZE_def MAXOPBLOCKS_def)
  moreover have "sb t = S \<and> inodes t = I \<and> \<not> panicked t \<and> uart_idle t \<and> pr_locking t"
    using f(9-13) unfolding e by (simp add: uart_idle_def LSR_TX_IDLE_def)
  ultimately show ?thesis using t(2) by blast
qed

end
