(* ===== verification/Fs_Block.thy ===== *)
theory Fs_Block
  imports Fs_Tx
begin

text \<open>
  The block allocator of \<^verbatim>\<open>kernel/fs.c\<close>: \<^verbatim>\<open>balloc\<close> and \<^verbatim>\<open>bfree\<close> maintain the free map of the disk inside of a transaction.
\<close>

section \<open>Bits of the free map\<close>

lemma bmap_bit_alt: "bmap_bit d i \<longleftrightarrow> bit (d ! (i div 8)) (i mod 8)"
  by (simp add: bmap_bit_def and_exp_eq_0_iff_not_bit)

lemma div8_mod8: "i div 8 = j div 8 \<Longrightarrow> i mod 8 = j mod 8 \<Longrightarrow> i = (j :: nat)"
  by (metis div_mult_mod_eq)

lemma bit_single: "m < 8 \<Longrightarrow> bit (push_bit k 1 :: u8) m \<longleftrightarrow> m = k"
  by (auto simp: bit_push_bit_iff bit_1_iff simp del: push_bit_of_1)

lemma bmap_bit_set:
  assumes "i div 8 < length d"
  shows "bmap_bit (bmap_set d i) j \<longleftrightarrow> j = i \<or> bmap_bit d j"
proof (cases "i div 8 = j div 8")
  case True
  have "bmap_bit (bmap_set d i) j \<longleftrightarrow> bit (d ! (j div 8)) (j mod 8) \<or> j mod 8 = i mod 8"
    using assms True bit_single [of "j mod 8" "i mod 8"] by (simp add: bmap_bit_alt bmap_set_def bit_or_iff del: push_bit_of_1)
  then show ?thesis using div8_mod8 [OF True] unfolding bmap_bit_alt [of d] by metis
qed (auto simp: bmap_bit_alt bmap_set_def)

lemma bmap_bit_clear:
  assumes "i div 8 < length d"
  shows "bmap_bit (bmap_clear d i) j \<longleftrightarrow> j \<noteq> i \<and> bmap_bit d j"
proof (cases "i div 8 = j div 8")
  case True
  have "bmap_bit (bmap_clear d i) j \<longleftrightarrow> bit (d ! (j div 8)) (j mod 8) \<and> j mod 8 \<noteq> i mod 8"
    using assms True bit_single [of "j mod 8" "i mod 8"]
    by (simp add: bmap_bit_alt bmap_clear_def bit_and_iff bit_not_iff possible_bit_word del: push_bit_of_1)
  then show ?thesis using div8_mod8 [OF True] unfolding bmap_bit_alt [of d] by metis
qed (auto simp: bmap_bit_alt bmap_clear_def)

lemma balloc_scan_spec:
  "case balloc_scan d i k of
     None \<Rightarrow> \<forall>j. i \<le> j \<and> j < i + k \<longrightarrow> bmap_bit d j
   | Some b \<Rightarrow> i \<le> b \<and> b < i + k \<and> \<not> bmap_bit d b \<and> (\<forall>j. i \<le> j \<and> j < b \<longrightarrow> bmap_bit d j)"
proof (induction k arbitrary: i)
  case (Suc k)
  show ?case
  proof (cases "bmap_bit d i")
    case True
    have eq: "i \<le> j \<longleftrightarrow> j = i \<or> i + 1 \<le> j" for j by auto
    show ?thesis using Suc [of "i + 1"] True unfolding eq by (auto split: option.splits simp: eq)
  qed auto
qed auto

text \<open>Block \<open>b\<close> is free in the free map of the blocks \<open>V\<close>.\<close>

definition blk_free :: "superblock \<Rightarrow> (u32 \<Rightarrow> u8 list) \<Rightarrow> u32 \<Rightarrow> bool" where
  "blk_free S V b \<longleftrightarrow> \<not> bmap_bit (V (BBLOCK b S)) (unat b mod BPB)"

lemma BBLOCK_split:
  assumes "bi < BPB" "k * BPB + bi < 2 ^ 32"
  shows "BBLOCK (of_nat (k * BPB + bi)) S = of_nat k + sb_bmapstart S" "unat (of_nat (k * BPB + bi) :: u32) mod BPB = bi"
    "unat (of_nat (k * BPB + bi) :: u32) = k * BPB + bi"
proof -
  show u: "unat (of_nat (k * BPB + bi) :: u32) = k * BPB + bi" using assms(2) by (simp add: unat_of_nat del: of_nat_add of_nat_mult)
  show "unat (of_nat (k * BPB + bi) :: u32) mod BPB = bi" unfolding u using assms(1) by simp
  have "unat (of_nat BPB :: u32) = BPB" by (simp add: BPB_def BSIZE_def)
  then have "unat (of_nat (k * BPB + bi) div of_nat BPB :: u32) = k" using assms(1) by (simp only: unat_div u) simp
  moreover have "k < 2 ^ 32" using assms(2) by (simp add: BPB_def BSIZE_def)
  ultimately have "of_nat (k * BPB + bi) div of_nat BPB = (of_nat k :: u32)" by (simp add: word_unat_eq_iff unat_of_nat)
  then show "BBLOCK (of_nat (k * BPB + bi)) S = of_nat k + sb_bmapstart S" by (simp add: BBLOCK_def)
qed

section \<open>Allocating and freeing\<close>

lemma bzero_spec:
  assumes "tx p ls L H V s" "H b = None" "\<not> in_log ls b" "length L < LOGSIZE - 1" "length L + card (dom H) < NBUF"
  shows "\<exists>t. bzero ROOTDEV b s = Ok () t \<and> tx p ls (absorb L b) H (V(b := replicate BSIZE 0)) t \<and> tframe p s t"
proof -
  obtain x t where t: "bread ROOTDEV b s = Ok x t" "tx p ls L (H(b \<mapsto> x)) V t" "tframe p s t"
    using lb.open_block [OF assms(1,2,5)] .
  obtain u where "thenK (set_bdata x (replicate BSIZE 0)) (thenK (log_write x) (brelse x)) t = Ok () u"
      "tx p ls (absorb L b) H (V(b := replicate BSIZE 0)) u" "tframe p t u"
    using lb.save_block [OF t(2) assms(2-4)] .
  then show ?thesis using t tframe_trans [OF t(3)] by (auto simp: bzero_def kM_simps)
qed

text \<open>
  The conditions under which the allocator runs: the blocks of the free map and the free blocks are not locked by the
  process, are not part of the log, and no free block is part of the free map.
\<close>

definition fmap_ok :: "u32 \<Rightarrow> (u32 \<Rightarrow> nat option) \<Rightarrow> (u32 \<Rightarrow> u8 list) \<Rightarrow> superblock \<Rightarrow> bool" where
  "fmap_ok ls H V S \<longleftrightarrow> (\<forall>b < sb_size S.
     H (BBLOCK b S) = None \<and> \<not> in_log ls (BBLOCK b S) \<and> length (V (BBLOCK b S)) = BSIZE \<and>
     (blk_free S V b \<longrightarrow> H b = None \<and> \<not> in_log ls b \<and> (\<forall>c < sb_size S. b \<noteq> BBLOCK c S)))"

definition allocated :: "superblock \<Rightarrow> u32 \<Rightarrow> (u32 \<Rightarrow> u8 list) \<Rightarrow> u32 \<Rightarrow> u8 list" where
  "allocated S b V = V(BBLOCK b S := bmap_set (V (BBLOCK b S)) (unat b mod BPB), b := replicate BSIZE 0)"

lemma balloc_scan_first: "i < k \<Longrightarrow> \<not> bmap_bit d i \<Longrightarrow> (\<And>j. j < i \<Longrightarrow> bmap_bit d j) \<Longrightarrow> balloc_scan d 0 k = Some i"
  using balloc_scan_spec [where d = d and i = 0 and k = k] by (auto split: option.splits) (metis linorder_neqE_nat)

lemma balloc_scan_full: "(\<And>j. j < k \<Longrightarrow> bmap_bit d j) \<Longrightarrow> balloc_scan d 0 k = None"
  using balloc_scan_spec [where d = d and i = 0 and k = k] by (auto split: option.splits)

lemma blk_free_split:
  assumes "j < BPB" "k * BPB + j < 2 ^ 32"
  shows "blk_free S V (of_nat (k * BPB + j)) \<longleftrightarrow> \<not> bmap_bit (V (of_nat k + sb_bmapstart S)) j"
  using BBLOCK_split [OF assms] by (simp add: blk_free_def del: of_nat_add of_nat_mult)

lemma bit_word_split:
  fixes b :: u32
  shows "unat b = unat b div BPB * BPB + unat b mod BPB" "of_nat (unat b div BPB * BPB + unat b mod BPB) = b" "unat b mod BPB < BPB"
    "unat b div BPB * BPB + unat b mod BPB < 2 ^ 32"
  using unsigned_less [of b] by (simp_all add: BPB_def BSIZE_def)

lemma start_block:
  assumes "k * BPB < 2 ^ 32"
  shows "BBLOCK (of_nat (k * BPB)) S = of_nat k + sb_bmapstart S"
  using BBLOCK_split(1) [of 0 k S] assms by (simp add: BPB_def BSIZE_def)

text \<open>One round of the outer loop of \<^verbatim>\<open>balloc\<close>, when the bitmap block has a free bit and when it has none.\<close>

lemma balloc_hit:
  assumes tx: "tx p ls L H V s" and S: "sb s = S" and ok: "fmap_ok ls H V S"
    and room: "length L + 1 < LOGSIZE - 1" "length L + card (dom H) + 1 < NBUF"
    and b: "b < sb_size S" "blk_free S V b" "\<And>c. c < b \<Longrightarrow> \<not> blk_free S V c" and k: "unat b div BPB = k"
  shows "\<exists>t. balloc_loop ROOTDEV (k * BPB # xs) s = Ok b t \<and> tx p ls (absorb (absorb L (BBLOCK b S)) b) H (allocated S b V) t \<and> tframe p s t"
proof -
  define bi where "bi = unat b mod BPB"
  define B where "B = (of_nat k + sb_bmapstart S :: u32)"
  note sp = bit_word_split [of b, unfolded k, folded bi_def]
  have k0: "k * BPB < 2 ^ 32" using sp(4) by linarith
  have B: "BBLOCK b S = B" using BBLOCK_split(1) [OF sp(3,4), of S] sp(2) by (simp add: B_def)
  have B0: "BBLOCK (of_nat (k * BPB)) S = B" using start_block [OF k0] by (simp add: B_def)
  have o: "H B = None" "\<not> in_log ls B" "H b = None" "\<not> in_log ls b" "b \<noteq> B"
    using ok b(1,2) B by (auto simp: fmap_ok_def)
  have "bi < unat (sb_size S) - k * BPB" using b(1) sp(1) unfolding word_less_nat_alt by linarith
  moreover have "\<not> bmap_bit (V B) bi" using b(2) by (simp add: blk_free_def B bi_def [symmetric])
  moreover have "bmap_bit (V B) j" if j: "j < bi" for j
  proof -
    have l: "k * BPB + j < 2 ^ 32" "j < BPB" using j sp(3,4) by linarith+
    have "of_nat (k * BPB + j) < b" unfolding word_less_nat_alt BBLOCK_split(3) [OF l(2,1)] using j sp(1) by linarith
    then show ?thesis using b(3) blk_free_split [OF l(2,1), of S V] by (simp add: B_def)
  qed
  ultimately have scan: "balloc_scan (V B) 0 (min BPB (unat (sb_size S) - k * BPB)) = Some bi"
    using sp(3) by (intro balloc_scan_first) auto
  have r2: "length L + card (dom H) < NBUF" "length L < LOGSIZE - 1" using room by linarith+
  obtain x t where t: "bread ROOTDEV B s = Ok x t" "tx p ls L (H(B \<mapsto> x)) V t" "tframe p s t" "bdata x t = Ok (V B) t"
    using lb.open_block [OF tx o(1) r2(1)] .
  obtain u where u: "thenK (set_bdata x (bmap_set (V B) bi)) (thenK (log_write x) (brelse x)) t = Ok () u"
      "tx p ls (absorb L B) H (V(B := bmap_set (V B) bi)) u" "tframe p t u"
    using lb.save_block [OF t(2) o(1,2) r2(2)] .
  have "length (absorb L B) \<le> length L + 1" by (simp add: absorb_def)
  then obtain v where v: "bzero ROOTDEV b u = Ok () v"
      "tx p ls (absorb (absorb L B) b) H (V(B := bmap_set (V B) bi, b := replicate BSIZE 0)) v" "tframe p u v"
    using bzero_spec [OF u(2) o(3,4)] room by auto
  have "balloc_loop ROOTDEV (k * BPB # xs) s = Ok b v"
    using t(1,4) scan v(1) sp(2) B0 lb.save_run [OF u(1), of "thenK (bzero ROOTDEV b) (returnK b)"] by (simp add: kM_simps S del: of_nat_add of_nat_mult)
  moreover have "allocated S b V = V(B := bmap_set (V B) bi, b := replicate BSIZE 0)" by (simp add: allocated_def B bi_def)
  ultimately show ?thesis
    using v(2) tframe_trans [OF t(3) tframe_trans [OF u(3) v(3)]] by (auto simp: B)
qed

lemma balloc_miss:
  assumes tx: "tx p ls L H V s" and S: "sb s = S" and ok: "fmap_ok ls H V S" and room: "length L + card (dom H) < NBUF"
    and k: "k * BPB < unat (sb_size S)" and full: "\<And>c. c < sb_size S \<Longrightarrow> unat c div BPB = k \<Longrightarrow> \<not> blk_free S V c"
  shows "\<exists>t. (\<forall>xs. balloc_loop ROOTDEV (k * BPB # xs) s = balloc_loop ROOTDEV xs t) \<and> tx p ls L H V t \<and> tframe p s t"
proof -
  define B where "B = (of_nat k + sb_bmapstart S :: u32)"
  have lt: "unat (sb_size S) < 2 ^ 32" using unsigned_less [of "sb_size S"] by simp
  have k0: "k * BPB < 2 ^ 32" using k lt by linarith
  have B0: "BBLOCK (of_nat (k * BPB)) S = B" using start_block [OF k0] by (simp add: B_def)
  have s0: "of_nat (k * BPB) < sb_size S"
    unfolding word_less_nat_alt using BBLOCK_split(3) [of 0 k] k k0 by (simp add: BPB_def BSIZE_def)
  have o: "H B = None" using ok s0 B0 by (auto simp: fmap_ok_def)
  have "bmap_bit (V B) j" if j: "j < min BPB (unat (sb_size S) - k * BPB)" for j
  proof -
    have l: "k * BPB + j < 2 ^ 32" "j < BPB" "k * BPB + j < unat (sb_size S)" using j lt by linarith+
    have "of_nat (k * BPB + j) < sb_size S" unfolding word_less_nat_alt BBLOCK_split(3) [OF l(2,1)] by (rule l(3))
    moreover have "unat (of_nat (k * BPB + j) :: u32) div BPB = k" unfolding BBLOCK_split(3) [OF l(2,1)] using l(2) by simp
    ultimately show ?thesis using full blk_free_split [OF l(2,1), of S V] by (auto simp: B_def)
  qed
  then have scan: "balloc_scan (V B) 0 (min BPB (unat (sb_size S) - k * BPB)) = None" by (rule balloc_scan_full)
  obtain x t where t: "bread ROOTDEV B s = Ok x t" "tx p ls L (H(B \<mapsto> x)) V t" "tframe p s t" "bdata x t = Ok (V B) t"
      "B \<in> set L \<or> V B = disk t B"
    using lb.open_block [OF tx o room] .
  obtain u where u: "brelse x t = Ok () u" "tx p ls L H V u" "tframe p t u" using lb.close_block [OF t(2) o t(5)] .
  have "balloc_loop ROOTDEV (k * BPB # xs) s = balloc_loop ROOTDEV xs u" for xs
    using t(1,4) scan u(1) B0 by (simp add: kM_simps S del: of_nat_mult)
  then show ?thesis using u(2) tframe_trans [OF t(3) u(3)] by blast
qed

declare balloc_loop.simps [simp del]

definition starts :: "nat \<Rightarrow> nat \<Rightarrow> nat list" where
  "starts i n = map (\<lambda>k. k * BPB) [i..<i + n]"

lemma starts_Cons: "starts i (Suc n) = i * BPB # starts (Suc i) n" "starts i 0 = []"
  by (simp_all add: starts_def upt_conv_Cons del: upt_Suc)

lemma balloc_loop_found:
  assumes "tx p ls L H V s" "sb s = S" "fmap_ok ls H V S"
    and room: "length L + 1 < LOGSIZE - 1" "length L + card (dom H) + 1 < NBUF"
    and b: "b < sb_size S" "blk_free S V b" "\<And>c. c < b \<Longrightarrow> \<not> blk_free S V c" and "unat b div BPB = i0 + n"
  shows "\<exists>t. balloc_loop ROOTDEV (starts i0 (Suc (n + m))) s = Ok b t \<and>
    tx p ls (absorb (absorb L (BBLOCK b S)) b) H (allocated S b V) t \<and> tframe p s t"
  using assms(1,2,9)
proof (induction n arbitrary: i0 s)
  case 0
  then show ?case using balloc_hit [OF 0(1,2) assms(3) room b, of i0] by (simp add: starts_Cons)
next
  case (Suc n)
  have k: "i0 * BPB < unat b" "i0 < unat b div BPB" using Suc.prems(3) bit_word_split(1) [of b] by (auto simp: BPB_def BSIZE_def)
  have "\<not> blk_free S V c" if "unat c div BPB = i0" for c
    using b(3) [of c] that k(2) by (metis div_le_mono leD leI word_less_nat_alt)
  moreover have "i0 * BPB < unat (sb_size S)" using k(1) b(1) by (simp add: word_less_nat_alt)
  ultimately obtain t where t: "\<And>xs. balloc_loop ROOTDEV (i0 * BPB # xs) s = balloc_loop ROOTDEV xs t" "tx p ls L H V t" "tframe p s t"
    using balloc_miss [OF Suc.prems(1,2) assms(3), of i0] room(2) by auto
  have "sb t = S" using t(3) Suc.prems(2) by (simp add: tframe_def)
  then obtain u where "balloc_loop ROOTDEV (starts (Suc i0) (Suc (n + m))) t = Ok b u"
      "tx p ls (absorb (absorb L (BBLOCK b S)) b) H (allocated S b V) u" "tframe p t u"
    using Suc.IH [OF t(2), of "Suc i0"] Suc.prems(3) by auto
  then show ?case using t(1) tframe_trans [OF t(3)] by (auto simp: starts_Cons)
qed

lemma balloc_loop_full:
  assumes "tx p ls L H V s" "sb s = S" "fmap_ok ls H V S" and room: "length L + card (dom H) < NBUF"
    and full: "\<And>c. c < sb_size S \<Longrightarrow> \<not> blk_free S V c" and "(i0 + n) * BPB < unat (sb_size S) + BPB"
  shows "\<exists>t. balloc_loop ROOTDEV (starts i0 n) s = balloc_loop ROOTDEV [] t \<and> tx p ls L H V t \<and> tframe p s t"
  using assms(1,2,6)
proof (induction n arbitrary: i0 s)
  case 0
  then show ?case using tframe_refl [of p s] by (auto simp: starts_Cons)
next
  case (Suc n)
  have "i0 * BPB < unat (sb_size S)" using Suc.prems(3) by (simp add: algebra_simps)
  then obtain t where t: "\<And>xs. balloc_loop ROOTDEV (i0 * BPB # xs) s = balloc_loop ROOTDEV xs t" "tx p ls L H V t" "tframe p s t"
    using balloc_miss [OF Suc.prems(1,2) assms(3) room] full by blast
  have "sb t = S" using t(3) Suc.prems(2) by (simp add: tframe_def)
  then obtain u where "balloc_loop ROOTDEV (starts (Suc i0) n) t = balloc_loop ROOTDEV [] u"
      "tx p ls L H V u" "tframe p t u"
    using Suc.IH [OF t(2), of "Suc i0"] Suc.prems(3) by auto
  then show ?case using t(1) tframe_trans [OF t(3)] by (auto simp: starts_Cons)
qed

section \<open>The free map\<close>

lemma BBLOCK_eq: "BBLOCK b S = BBLOCK c S \<longleftrightarrow> unat b div BPB = unat c div BPB"
proof -
  have "unat (of_nat BPB :: u32) = BPB" by (simp add: BPB_def BSIZE_def)
  then have "unat (x div of_nat BPB) = unat x div BPB" for x :: u32 by (simp only: unat_div)
  then show ?thesis by (metis BBLOCK_def add_right_cancel word_unat_eq_iff)
qed

lemma bit_in_block: "length d = BSIZE \<Longrightarrow> (unat (b :: u32) mod BPB) div 8 < length d"
  using mod_less_divisor [of BPB "unat b"] by (simp add: BPB_def BSIZE_def)

text \<open>Setting or clearing the bit of one block does not change that of another.\<close>

lemma free_bit:
  assumes "length (V (BBLOCK b S)) = BSIZE"
  shows "blk_free S (V(BBLOCK b S := bmap_set (V (BBLOCK b S)) (unat b mod BPB))) c \<longleftrightarrow> c \<noteq> b \<and> blk_free S V c"
    and "blk_free S (V(BBLOCK b S := bmap_clear (V (BBLOCK b S)) (unat b mod BPB))) c \<longleftrightarrow> c = b \<or> blk_free S V c"
proof -
  note bits = bmap_bit_set [OF bit_in_block [OF assms]] bmap_bit_clear [OF bit_in_block [OF assms]]
  have eq: "c = b \<longleftrightarrow> unat c mod BPB = unat b mod BPB" if "BBLOCK c S = BBLOCK b S"
    using that unfolding BBLOCK_eq by (metis div_mult_mod_eq word_unat_eq_iff)
  show "blk_free S (V(BBLOCK b S := bmap_set (V (BBLOCK b S)) (unat b mod BPB))) c \<longleftrightarrow> c \<noteq> b \<and> blk_free S V c"
    "blk_free S (V(BBLOCK b S := bmap_clear (V (BBLOCK b S)) (unat b mod BPB))) c \<longleftrightarrow> c = b \<or> blk_free S V c"
    by (cases "BBLOCK c S = BBLOCK b S"; auto simp: blk_free_def bits eq)+
qed

lemma allocated_free:
  assumes "fmap_ok ls H V S" "b < sb_size S" "blk_free S V b" "c < sb_size S"
  shows "blk_free S (allocated S b V) c \<longleftrightarrow> c \<noteq> b \<and> blk_free S V c"
proof -
  have "length (V (BBLOCK b S)) = BSIZE" "b \<noteq> BBLOCK c S" using assms by (auto simp: fmap_ok_def)
  then show ?thesis using free_bit(1) [of V b S c] by (simp add: allocated_def blk_free_def)
qed

lemma fmap_ok_allocated:
  assumes "fmap_ok ls H V S" "b < sb_size S" "blk_free S V b"
  shows "fmap_ok ls H (allocated S b V) S"
proof -
  have "length (allocated S b V x) = BSIZE" if "length (V x) = BSIZE" for x
    using that assms by (auto simp: allocated_def bmap_set_def fmap_ok_def)
  then show ?thesis using assms allocated_free [OF assms] by (auto simp: fmap_ok_def)
qed

lemma tx_console:
  "tx p ls L H V ((touch t)\<lparr>mmio_in := i, mmio_out := out\<rparr>) = tx p ls L H V t"
proof -
  have "bc p H V (holds H L) ((touch t)\<lparr>mmio_in := i, mmio_out := out\<rparr>) = bc p H V (holds H L) t"
    by (rule bc_cong) (simp_all add: proc_ctx_def cpu_inv_def lock_free_def sie_def)
  then show ?thesis by (simp add: tx_def log_hdr_def)
qed

lemma balloc_found:
  assumes "tx p ls L H V s" and ok: "fmap_ok ls H V (sb s)" and "length L + 1 < LOGSIZE - 1" and "length L + card (dom H) + 1 < NBUF"
    and ex: "\<exists>c < sb_size (sb s). blk_free (sb s) V c"
  shows "\<exists>b t. balloc ROOTDEV s = Ok b t \<and> b < sb_size (sb s) \<and> blk_free (sb s) V b \<and> (\<forall>c < b. \<not> blk_free (sb s) V c) \<and>
    tx p ls (absorb (absorb L (BBLOCK b (sb s))) b) H (allocated (sb s) b V) t \<and> tframe p s t"
proof -
  define S where "S = sb s"
  define N where "N = (unat (sb_size S) + BPB - 1) div BPB"
  obtain b where b: "b < sb_size S" "blk_free S V b" "\<And>c. c < sb_size S \<Longrightarrow> blk_free S V c \<Longrightarrow> unat b \<le> unat c"
    using ex_has_least_nat [of "\<lambda>c. c < sb_size S \<and> blk_free S V c" _ unat] ex [folded S_def] by blast
  have min: "\<not> blk_free S V c" if "c < b" for c using b(3) [of c] that b(1) by (auto simp: word_less_nat_alt)
  have "unat b div BPB < N" using b(1) unfolding N_def word_less_nat_alt by (simp add: BPB_def BSIZE_def)
  then obtain m where m: "N = Suc (unat b div BPB + m)" by (metis add_Suc_right less_iff_Suc_add)
  have "balloc ROOTDEV s = balloc_loop ROOTDEV (starts 0 N) s"
    by (simp add: balloc_def balloc_starts_def starts_def kM_simps N_def S_def)
  then show ?thesis
    using balloc_loop_found [OF assms(1) S_def [symmetric] ok [folded S_def] assms(3,4) b(1,2) min, of 0 "unat b div BPB" m] b(1,2) min
    unfolding m S_def by auto
qed

lemma balloc_none:
  assumes "tx p ls L H V s" and ok: "fmap_ok ls H V (sb s)" and "length L + card (dom H) < NBUF"
    and con: "\<not> panicked s" "uart_idle s" "pr_locking s" and full: "\<not> (\<exists>c < sb_size (sb s). blk_free (sb s) V c)"
  shows "\<exists>t. balloc ROOTDEV s = Ok 0 t \<and> tx p ls L H V t \<and> sb t = sb s"
proof -
  define N where "N = (unat (sb_size (sb s)) + BPB - 1) div BPB"
  have "N * BPB \<le> unat (sb_size (sb s)) + BPB - 1" unfolding N_def by (rule div_times_less_eq_dividend)
  moreover have "0 < BPB" by (simp add: BPB_def BSIZE_def)
  ultimately have "N * BPB < unat (sb_size (sb s)) + BPB" by linarith
  moreover have "balloc ROOTDEV s = balloc_loop ROOTDEV (starts 0 N) s"
    by (simp add: balloc_def balloc_starts_def starts_def kM_simps N_def)
  ultimately obtain t where t: "balloc ROOTDEV s = balloc_loop ROOTDEV [] t" "tx p ls L H V t" "tframe p s t"
    using balloc_loop_full [OF assms(1) refl ok assms(3), of 0 N] full by auto
  have c: "proc_ctx p t" "\<not> panicked t" "uart_idle t" "pr_locking t"
    using t(2,3) con by (simp_all add: tx_def bc_def tframe_def uart_idle_def)
  have "fmt_text (cbytes (''balloc: out of blocks'' @ [CHR 0x0A])) [] = Some (cbytes (''balloc: out of blocks'' @ [CHR 0x0A]))"
    by (simp add: cbytes_def)
  from printf_run [OF c this]
  obtain i out where "printf (''balloc: out of blocks'' @ [CHR 0x0A]) [] t = Ok () ((touch t)\<lparr>mmio_in := i, mmio_out := out\<rparr>)"
    by blast
  then have "balloc_loop ROOTDEV [] t = Ok 0 ((touch t)\<lparr>mmio_in := i, mmio_out := out\<rparr>)"
    by (simp add: balloc_loop.simps kM_simps del: append.simps)
  then show ?thesis using t by (auto simp: tframe_def tx_console)
qed

text \<open>
  C6. \<^verbatim>\<open>balloc\<close> allocates the first free block: inside of a transaction with room for two more blocks it returns; if the
  free map has a free block, the result is the lowest one, which is marked in use and filled with zeros, both recorded
  in the log, and no other block changes; otherwise the result is 0 and no block changes. The free map stays well
  formed.
\<close>

theorem balloc_correct:
  assumes "tx p ls L H V s" and "fmap_ok ls H V (sb s)" and "length L + 1 < LOGSIZE - 1" and "length L + card (dom H) + 1 < NBUF"
    and "\<not> panicked s" and "uart_idle s" and "pr_locking s"
  shows "\<exists>b t L' V'. balloc ROOTDEV s = Ok b t \<and> tx p ls L' H V' t \<and> fmap_ok ls H V' (sb t) \<and>
    (if \<exists>c < sb_size (sb s). blk_free (sb s) V c
     then b < sb_size (sb s) \<and> blk_free (sb s) V b \<and> (\<forall>c < b. \<not> blk_free (sb s) V c) \<and>
       (\<forall>c < sb_size (sb s). blk_free (sb s) V' c \<longleftrightarrow> c \<noteq> b \<and> blk_free (sb s) V c) \<and>
       V' b = replicate BSIZE 0 \<and> (\<forall>x. x \<noteq> b \<and> x \<noteq> BBLOCK b (sb s) \<longrightarrow> V' x = V x) \<and>
       set L' = set L \<union> {b, BBLOCK b (sb s)} \<and> tframe p s t
     else b = 0 \<and> L' = L \<and> V' = V)"
proof (cases "\<exists>c < sb_size (sb s). blk_free (sb s) V c")
  case True
  then obtain b t where t: "balloc ROOTDEV s = Ok b t" "b < sb_size (sb s)" "blk_free (sb s) V b" "\<forall>c < b. \<not> blk_free (sb s) V c"
      "tx p ls (absorb (absorb L (BBLOCK b (sb s))) b) H (allocated (sb s) b V) t" "tframe p s t"
    using balloc_found [OF assms(1-4)] by blast
  have "set (absorb (absorb L (BBLOCK b (sb s))) b) = set L \<union> {b, BBLOCK b (sb s)}" by (auto simp: absorb_def)
  moreover have "fmap_ok ls H (allocated (sb s) b V) (sb t)"
    using fmap_ok_allocated [OF assms(2) t(2,3)] t(6) by (simp add: tframe_def)
  ultimately show ?thesis
    using t True allocated_free [OF assms(2) t(2,3)]
    by (intro exI [of _ b] exI [of _ t] exI [of _ "absorb (absorb L (BBLOCK b (sb s))) b"] exI [of _ "allocated (sb s) b V"])
      (simp, simp add: allocated_def)
next
  case False
  then obtain t where "balloc ROOTDEV s = Ok 0 t" "tx p ls L H V t" "sb t = sb s"
    using balloc_none [OF assms(1,2) _ assms(5-7)] assms(4) by auto
  then show ?thesis using False assms(2) by (intro exI [of _ 0] exI [of _ t] exI [of _ L] exI [of _ V]) auto
qed

lemma bfree_run:
  assumes "tx p ls L H V s" and B: "H (BBLOCK b (sb s)) = None" "\<not> in_log ls (BBLOCK b (sb s))"
    and "length L < LOGSIZE - 1" and "length L + card (dom H) < NBUF"
  shows "if blk_free (sb s) V b then bfree ROOTDEV b s = Panic ''freeing free block''
    else \<exists>t. bfree ROOTDEV b s = Ok () t \<and> tframe p s t \<and>
      tx p ls (absorb L (BBLOCK b (sb s))) H (V(BBLOCK b (sb s) := bmap_clear (V (BBLOCK b (sb s))) (unat b mod BPB))) t"
proof -
  let ?B = "BBLOCK b (sb s)"
  let ?d = "bmap_clear (V ?B) (unat b mod BPB)"
  obtain x t where t: "bread ROOTDEV ?B s = Ok x t" "tx p ls L (H(?B \<mapsto> x)) V t" "tframe p s t" "bdata x t = Ok (V ?B) t"
    using lb.open_block [OF assms(1) B(1) assms(5)] .
  obtain u where u: "thenK (set_bdata x ?d) (thenK (log_write x) (brelse x)) t = Ok () u"
      "tx p ls (absorb L ?B) H (V(?B := ?d)) u" "tframe p t u"
    using lb.save_block [OF t(2) B assms(4)] .
  show ?thesis
    using t(1,4) u tframe_trans [OF t(3) u(3)] by (auto simp: bfree_def kM_simps Let_def blk_free_def)
qed

text \<open>
  C7. \<^verbatim>\<open>bfree\<close> of a block in use marks it free in the free map, records the change in the log and leaves every other
  block's bit and contents alone; \<^verbatim>\<open>bfree\<close> of a block that is free already panics.
\<close>

theorem bfree_correct:
  assumes "tx p ls L H V s" and "fmap_ok ls H V (sb s)" and "b < sb_size (sb s)" and "length L < LOGSIZE - 1"
    and "length L + card (dom H) < NBUF"
  shows "if blk_free (sb s) V b then bfree ROOTDEV b s = Panic ''freeing free block''
    else \<exists>t V'. bfree ROOTDEV b s = Ok () t \<and> tframe p s t \<and> tx p ls (absorb L (BBLOCK b (sb s))) H V' t \<and>
      (\<forall>c. blk_free (sb s) V' c \<longleftrightarrow> c = b \<or> blk_free (sb s) V c) \<and> (\<forall>x. x \<noteq> BBLOCK b (sb s) \<longrightarrow> V' x = V x)"
proof -
  have ok: "H (BBLOCK b (sb s)) = None" "\<not> in_log ls (BBLOCK b (sb s))" "length (V (BBLOCK b (sb s))) = BSIZE"
    using assms(2,3) by (auto simp: fmap_ok_def)
  have "\<forall>c. blk_free (sb s) (V(BBLOCK b (sb s) := bmap_clear (V (BBLOCK b (sb s))) (unat b mod BPB))) c \<longleftrightarrow> c = b \<or> blk_free (sb s) V c"
    using free_bit(2) [of V b "sb s"] ok(3) by blast
  then show ?thesis using bfree_run [OF assms(1) ok(1,2) assms(4,5)]
    by (simp split: if_splits) (metis fun_upd_other)
qed

text \<open>A small disk: blocks below 48 are in use, block 45 is the free map.\<close>

definition fsw_S :: superblock where
  "fsw_S = \<lparr>sb_magic = FSMAGIC, sb_size = 60, sb_nblocks = 12, sb_ninodes = 16, sb_nlog = 30, sb_logstart = 2, sb_inodestart = 33,
     sb_bmapstart = 45\<rparr>"

definition fsw_D :: "u32 \<Rightarrow> u8 list" where
  "fsw_D = (\<lambda>_. replicate BSIZE 0)(45 := replicate 6 0xff @ replicate (BSIZE - 6) 0)"

lemma fsw_free: "b < 60 \<Longrightarrow> BBLOCK b fsw_S = 45" "b < 60 \<Longrightarrow> blk_free fsw_S fsw_D b \<longleftrightarrow> 48 \<le> b"
proof -
  assume "b < 60"
  then have b: "unat b < 60" by (simp add: word_less_nat_alt)
  have "unat (b div of_nat BPB) = 0" using b by (simp add: unat_div BPB_def BSIZE_def)
  then have "b div of_nat BPB = 0" by (simp only: unat_eq_0)
  then show e: "BBLOCK b fsw_S = 45" by (simp add: BBLOCK_def fsw_S_def)
  have "fsw_D 45 ! (unat b div 8) = (if unat b < 48 then 0xff else 0)"
    using b by (auto simp: fsw_D_def BSIZE_def nth_append)
  moreover have "bit (0xff :: u8) (unat b mod 8)"
    using bit_mask_iff [where ?'a = "8 word", of 8 "unat b mod 8"] by (simp add: mask_eq_exp_minus_1 possible_bit_word)
  ultimately show "blk_free fsw_S fsw_D b \<longleftrightarrow> 48 \<le> b"
    using b by (auto simp: blk_free_def e bmap_bit_alt BPB_def BSIZE_def word_le_nat_alt)
qed

lemma fsw_ok: "fmap_ok 2 Map.empty fsw_D fsw_S"
proof -
  have "length (fsw_D 45) = BSIZE" by (simp add: fsw_D_def BSIZE_def)
  moreover have "\<not> in_log 2 45" by (rule in_log_2) simp
  moreover have "\<not> in_log 2 b" "b \<noteq> 45" if "48 \<le> b" for b using that in_log_2 [of b] by (auto simp: word_le_nat_alt)
  moreover have "sb_size fsw_S = 60" by (simp add: fsw_S_def)
  ultimately show ?thesis by (auto simp: fmap_ok_def fsw_free)
qed

theorem balloc_correct_witness:
  "\<exists>(s :: fs_state) t L V. balloc ROOTDEV s = Ok 48 t \<and> tx 0 2 L Map.empty V t \<and> V 48 = replicate BSIZE 0 \<and> \<not> blk_free (sb s) V 48"
proof -
  obtain s :: fs_state where s: "tx 0 2 [] Map.empty fsw_D s" "sb s = fsw_S" "\<not> panicked s" "uart_idle s" "pr_locking s"
    using tx_exists [of fsw_D fsw_S] by blast
  have sz: "sb_size fsw_S = 60" by (simp add: fsw_S_def)
  have ex: "\<exists>c < sb_size fsw_S. blk_free fsw_S fsw_D c" by (rule exI [of _ 48]) (simp add: sz fsw_free)
  obtain b t L V where b: "balloc ROOTDEV s = Ok b t" "tx 0 2 L Map.empty V t" "b < 60" "blk_free fsw_S fsw_D b"
      "\<forall>c < b. \<not> blk_free fsw_S fsw_D c" "\<forall>c < 60. blk_free fsw_S V c \<longleftrightarrow> c \<noteq> b \<and> blk_free fsw_S fsw_D c" "V b = replicate BSIZE 0"
    using balloc_correct [OF s(1)] ex fsw_ok s(2-5) by (auto simp: sz LOGSIZE_def MAXOPBLOCKS_def NBUF_def)
  have "48 \<le> b" using b(3,4) fsw_free(2) by blast
  moreover have "\<not> 48 < b" using b(5) fsw_free(2) [of 48] by auto
  ultimately have "b = 48" by simp
  then show ?thesis
    using b s(2) by (intro exI [of _ s] exI [of _ t] exI [of _ L] exI [of _ V]) auto
qed

theorem bfree_correct_witness:
  "\<exists>(s :: fs_state) t V. bfree ROOTDEV 40 s = Ok () t \<and> tx 0 2 [45] Map.empty V t \<and> blk_free (sb s) V 40 \<and>
     bfree ROOTDEV 50 s = Panic ''freeing free block''"
proof -
  obtain s :: fs_state where s: "tx 0 2 [] Map.empty fsw_D s" "sb s = fsw_S" using tx_exists [of fsw_D fsw_S] by blast
  have sz: "sb_size fsw_S = 60" by (simp add: fsw_S_def)
  obtain t V where "bfree ROOTDEV 40 s = Ok () t" "tx 0 2 [45] Map.empty V t" "\<forall>c. blk_free fsw_S V c \<longleftrightarrow> c = 40 \<or> blk_free fsw_S fsw_D c"
    using bfree_correct [OF s(1), of 40] fsw_ok fsw_free sz by (auto simp: s(2) LOGSIZE_def MAXOPBLOCKS_def NBUF_def absorb_def)
  moreover have "bfree ROOTDEV 50 s = Panic ''freeing free block''"
    using bfree_correct [OF s(1), of 50] fsw_ok fsw_free sz by (auto simp: s(2) LOGSIZE_def MAXOPBLOCKS_def NBUF_def)
  ultimately show ?thesis using s(2) by (intro exI [of _ s] exI [of _ t] exI [of _ V]) simp
qed

end
