(* ===== verification/Vm_Tree.thy ===== *)
theory Vm_Tree
  imports Vm
begin

text \<open>
  Page tables as trees. \<open>node m root is\<close> follows the entries with indices \<open>is\<close> down from the table \<open>root\<close>;
  \<open>lpte m root va\<close> is the last-level entry for \<open>va\<close>, 0 where a table is missing. A well-formed tree
  (\<open>wf_pt\<close>) has its tables in distinct pages. The central fact is \<open>node_store\<close>: storing an entry in one
  table changes the tree below that entry and nowhere else.
\<close>

section \<open>Entries of a table\<close>

definition slot :: "u64 \<Rightarrow> nat \<Rightarrow> u64" where
  "slot p i = p + 8 * of_nat i"

definition px :: "nat \<Rightarrow> u64 \<Rightarrow> nat" where
  "px l va = unat (PX l va)"

lemma px_less [simp]: "px l va < 512"
  by (simp add: px_def PX_bound)

lemma pte_addr_slot: "pte_addr pt l va = slot pt (px l va)"
  by (simp add: pte_addr_def slot_def px_def)

lemma slot_alt: "slot p i = p + of_nat (8 * i)"
  by (simp add: slot_def)

lemma slot_nonzero: "aligned p \<Longrightarrow> p \<noteq> 0 \<Longrightarrow> i < 512 \<Longrightarrow> slot p i \<noteq> 0"
  using page_offset_div(1) [of p "8 * i"] by (auto simp: slot_alt word_unat_eq_iff)

lemma slot_distance:
  fixes x y i j k :: nat
  assumes "i < 512" "j < 512" "k < 8" "x \<noteq> y \<or> i \<noteq> j" "4096 * x + 8 * i \<le> 4096 * y + 8 * j + k"
  shows "4096 * x + 8 * i + 8 \<le> 4096 * y + 8 * j + k"
proof -
  have "512 * x + i \<noteq> 512 * y + j" using assms(1,2,4) by (cases "x < y"; cases "y < x") auto
  with assms(3,5) show ?thesis by linarith
qed

lemma load_store_slot:
  assumes "aligned p" "aligned q" "i < 512" "j < 512"
  shows "load64 (store64 m (slot p i) v) (slot q j) = (if p = q \<and> i = j then v else load64 m (slot q j))"
proof (cases "p = q \<and> i = j")
  case True
  then show ?thesis by simp
next
  case False
  have "load64 (store64 m (slot p i) v) (slot q j) = load64 m (slot q j)"
  proof (rule load64_cong)
    fix k :: nat assume k: "k < 8"
    obtain x y where p: "unat p = 4096 * x" "x < 2 ^ 52" and q: "unat q = 4096 * y" "y < 2 ^ 52"
      using assms(1,2) by (meson alignedE)
    have sp: "unat (slot p i) = 4096 * x + 8 * i" unfolding slot_alt
      using page_offset_div(1) [OF assms(1), of "8 * i"] assms(3) p by simp
    have sq: "unat (slot q j + of_nat k) = 4096 * y + 8 * j + k"
      using page_offset_div(1) [OF assms(2), of "8 * j + k"] assms(4) q k by (simp add: slot_def add.assoc)
    have "x \<noteq> y \<or> i \<noteq> j" using False p q by (auto simp: word_unat_eq_iff)
    from slot_distance [OF assms(3,4) k this]
    have "8 \<le> unat (slot q j + of_nat k - slot p i)"
      unfolding unat_sub_if' sp sq using p(2) assms(3) by auto
    then show "store64 m (slot p i) v (slot q j + of_nat k) = m (slot q j + of_nat k)"
      by (simp add: store64_def mem_write_outside)
  qed
  with False show ?thesis by auto
qed

lemma store_slot_outside:
  assumes "i < 512" and "4096 \<le> unat (x - p)"
  shows "store64 m (slot p i) v x = m x"
proof -
  have eq: "x - slot p i = (x - p) - of_nat (8 * i)" by (simp add: slot_def)
  have "unat (x - slot p i) = unat (x - p) - 8 * i"
    unfolding eq by (rule unat_minus_of_nat) (use assms in linarith)
  then show ?thesis using assms by (simp add: store64_def mem_write_outside)
qed

lemma load64_page_agree:
  "aligned q \<Longrightarrow> (\<And>j. j < 4096 \<Longrightarrow> m' (q + of_nat j) = m (q + of_nat j)) \<Longrightarrow> load64 m' q = load64 m q"
  using load64_in_page_cong [of q 0 m' m] by simp

lemma load_slot_other_page:
  assumes "aligned q" "j < 512" "\<And>k. k < 4096 \<Longrightarrow> m' (q + of_nat k) = m (q + of_nat k)"
  shows "load64 m' (slot q j) = load64 m (slot q j)"
  unfolding slot_alt using assms by (intro load64_in_page_cong) auto

lemma load_slot_zero:
  assumes "aligned c" "j < 512"
  shows "load64 (memset m c 0 4096) (slot c j) = 0"
proof -
  have "load64 (memset m c 0 4096) (slot c j) = load64 (\<lambda>_. 0) (slot c j)"
  proof (rule load64_cong)
    fix k :: nat assume k: "k < 8"
    have eq: "slot c j + of_nat k - c = of_nat (8 * j + k)" by (simp add: slot_def)
    have "unat (slot c j + of_nat k - c) < 4096"
      unfolding eq using assms(2) k by (subst unat_of_nat64) auto
    then show "memset m c 0 4096 (slot c j + of_nat k) = 0" by (simp add: memset_eq)
  qed
  also have "\<dots> = 0" by (simp add: load64_def mem_read_def le_word_zero)
  finally show ?thesis .
qed

section \<open>Trees\<close>

fun node :: "memory \<Rightarrow> u64 \<Rightarrow> nat list \<Rightarrow> u64 option" where
  "node m pt [] = Some pt"
| "node m pt (i # is) =
     (let e = load64 m (slot pt i) in if e AND PTE_V = 0 then None else node m (PTE2PA e) is)"

definition paths :: "nat \<Rightarrow> nat list set" where
  "paths n = {is. length is \<le> n \<and> (\<forall>i \<in> set is. i < 512)}"

definition tables :: "memory \<Rightarrow> u64 \<Rightarrow> u64 set" where
  "tables m root = {p. \<exists>is \<in> paths 2. node m root is = Some p}"

definition wf_pt :: "u64 \<Rightarrow> memory \<Rightarrow> u64 \<Rightarrow> bool" where
  "wf_pt e m root \<longleftrightarrow> (\<forall>p \<in> tables m root. page_ok e p) \<and>
     (\<forall>is \<in> paths 2. \<forall>js \<in> paths 2. \<forall>p. node m root is = Some p \<longrightarrow> node m root js = Some p \<longrightarrow> is = js)"

lemma node_snoc:
  "node m pt (is @ [i]) = (case node m pt is of None \<Rightarrow> None | Some p \<Rightarrow>
     (let e = load64 m (slot p i) in if e AND PTE_V = 0 then None else Some (PTE2PA e)))"
  by (induction "is" arbitrary: pt) (simp_all add: Let_def)

lemma node_append: "node m pt (is @ js) = Option.bind (node m pt is) (\<lambda>p. node m p js)"
  by (induction "is" arbitrary: pt) (simp_all add: Let_def)

lemma paths_snoc: "is @ [i] \<in> paths n \<longleftrightarrow> is \<in> paths (n - 1) \<and> i < 512 \<and> 0 < n"
  by (auto simp: paths_def)

lemma paths_mono: "is \<in> paths n \<Longrightarrow> n \<le> k \<Longrightarrow> is \<in> paths k"
  by (auto simp: paths_def)

lemma paths_Nil [simp]: "[] \<in> paths n"
  by (simp add: paths_def)

lemma root_table [simp]: "root \<in> tables m root"
  by (auto simp: tables_def intro!: bexI [of _ "[]"])

lemma tablesI: "is \<in> paths 2 \<Longrightarrow> node m root is = Some p \<Longrightarrow> p \<in> tables m root"
  by (auto simp: tables_def)

lemma wf_aligned: "wf_pt e m root \<Longrightarrow> p \<in> tables m root \<Longrightarrow> aligned p"
  by (auto simp: wf_pt_def page_ok_def)

lemma wf_inj:
  "wf_pt e m root \<Longrightarrow> is \<in> paths 2 \<Longrightarrow> js \<in> paths 2 \<Longrightarrow> node m root is = Some p \<Longrightarrow>
    node m root js = Some p \<Longrightarrow> is = js"
  by (auto simp: wf_pt_def)

lemma node_agree:
  assumes "\<And>p i. p \<in> tables m root \<Longrightarrow> i < 512 \<Longrightarrow> load64 m' (slot p i) = load64 m (slot p i)"
    and "is \<in> paths 3"
  shows "node m' root is = node m root is"
  using assms(2)
proof (induction "is" rule: rev_induct)
  case Nil
  show ?case by simp
next
  case (snoc i "is")
  then have "is \<in> paths 2" "i < 512" by (auto simp: paths_snoc)
  with snoc assms(1) [OF tablesI] show ?case
    by (auto simp: node_snoc Let_def paths_mono split: option.splits)
qed

lemma tables_agree:
  assumes "\<And>p i. p \<in> tables m root \<Longrightarrow> i < 512 \<Longrightarrow> load64 m' (slot p i) = load64 m (slot p i)"
  shows "tables m' root = tables m root"
  using node_agree [OF assms, where root = root] by (auto simp: tables_def paths_mono)

lemma wf_agree:
  assumes "wf_pt e m root"
    and "\<And>p i. p \<in> tables m root \<Longrightarrow> i < 512 \<Longrightarrow> load64 m' (slot p i) = load64 m (slot p i)"
  shows "wf_pt e m' root"
  using assms(1) node_agree [OF assms(2), where root = root] tables_agree [OF assms(2), where root = root]
  by (auto simp: wf_pt_def paths_mono)

section \<open>Storing an entry\<close>

lemma node_store_other:
  assumes wf: "wf_pt e m root" and "is": "is \<in> paths 2" "node m root is = Some p" "i < 512"
    and js: "js \<in> paths 3" "\<not> (\<exists>ks. js = is @ [i] @ ks)"
  shows "node (store64 m (slot p i) v) root js = node m root js"
  using js
proof (induction js rule: rev_induct)
  case Nil
  show ?case by simp
next
  case (snoc j js)
  have "\<not> (\<exists>ks. js = is @ [i] @ ks)" using snoc.prems(2) by force
  moreover have js: "js \<in> paths 2" "j < 512" using snoc.prems(1) by (auto simp: paths_snoc)
  ultimately have IH: "node (store64 m (slot p i) v) root js = node m root js"
    using snoc.IH by (simp add: paths_mono)
  have "load64 (store64 m (slot p i) v) (slot q j) = load64 m (slot q j)" if q: "node m root js = Some q" for q
  proof -
    have "\<not> (p = q \<and> i = j)" using wf_inj [OF wf "is"(1) js(1) "is"(2)] q snoc.prems(2) by auto
    then show ?thesis
      using load_store_slot [of p q i j m v] wf_aligned [OF wf] tablesI "is" js q by auto
  qed
  with IH show ?case by (auto simp: node_snoc Let_def split: option.splits)
qed

lemma node_store_here:
  assumes "wf_pt e m root" "is \<in> paths 2" "node m root is = Some p" "i < 512"
  shows "node (store64 m (slot p i) v) root (is @ [i] @ ks)
    = (if v AND PTE_V = 0 then None else node (store64 m (slot p i) v) (PTE2PA v) ks)"
proof -
  have "node (store64 m (slot p i) v) root is = Some p"
    using node_store_other [OF assms, of "is" v] assms(2,3) by (simp add: paths_mono)
  then show ?thesis by (simp add: node_append Let_def)
qed

lemmas node_store = node_store_other node_store_here

end
