(* ===== verification/Vm_Map.thy ===== *)
theory Vm_Map
  imports Vm_Tree
begin

text \<open>
  What \<^verbatim>\<open>walk\<close>, \<^verbatim>\<open>mappages\<close> and \<^verbatim>\<open>uvmunmap\<close> do to the map from virtual pages to entries (\<open>lpte\<close>), with
  the invariant that the tables are distinct pages apart from the free list.
\<close>

section \<open>The map a tree stands for\<close>

definition vpath :: "u64 \<Rightarrow> nat list" where
  "vpath va = [px 2 va, px 1 va]"

definition lpte :: "memory \<Rightarrow> u64 \<Rightarrow> u64 \<Rightarrow> u64" where
  "lpte m root va = (case node m root (vpath va) of None \<Rightarrow> 0 | Some p \<Rightarrow> load64 m (slot p (px 0 va)))"

definition same_page :: "u64 \<Rightarrow> u64 \<Rightarrow> bool" where
  "same_page va va' \<longleftrightarrow> unat va div 4096 = unat va' div 4096"

lemma vpath_paths [simp]: "vpath va \<in> paths 2" "vpath va \<in> paths 3"
  by (simp_all add: vpath_def paths_def)

lemma px_alt: "px l va = (unat va div 4096) div 512 ^ l mod 512"
proof -
  have "(2 :: nat) ^ (12 + 9 * l) = 4096 * 512 ^ l" by (simp add: power_add power_mult)
  then show ?thesis by (simp add: px_def unat_PX div_mult2_eq)
qed

lemma px_same_page:
  assumes "va < MAXVA" "va' < MAXVA"
  shows "vpath va = vpath va' \<and> px 0 va = px 0 va' \<longleftrightarrow> same_page va va'"
proof -
  define v v' where "v = unat va div 4096" and "v' = unat va' div 4096"
  have b: "v < 2 ^ 26" "v' < 2 ^ 26"
    using next_page_less(2) assms by (simp_all add: v_def v'_def less_mult_imp_div_less)
  have dec: "w = (w div 512 div 512 mod 512 * 512 + w div 512 mod 512) * 512 + w mod 512" if "w < 2 ^ 26" for w :: nat
  proof -
    have "w div 512 div 512 < 512" using that by (simp add: less_mult_imp_div_less)
    then have "w div 512 div 512 mod 512 * 512 + w div 512 mod 512 = w div 512" by simp
    then show ?thesis by simp
  qed
  have p: "px 0 va = v mod 512" "px 1 va = v div 512 mod 512" "px 2 va = v div 512 div 512 mod 512"
    "px 0 va' = v' mod 512" "px 1 va' = v' div 512 mod 512" "px 2 va' = v' div 512 div 512 mod 512"
    by (simp_all add: px_alt v_def v'_def power2_eq_square flip: div_mult2_eq)
  show ?thesis
  proof
    assume "vpath va = vpath va' \<and> px 0 va = px 0 va'"
    then have "v mod 512 = v' mod 512" "v div 512 mod 512 = v' div 512 mod 512"
        "v div 512 div 512 mod 512 = v' div 512 div 512 mod 512"
      by (simp_all only: vpath_def p list.inject)
    with dec [OF b(1)] dec [OF b(2)] have "v = v'" by metis
    then show "same_page va va'" by (simp add: same_page_def v_def v'_def)
  next
    assume "same_page va va'"
    then have "v = v'" by (simp add: same_page_def v_def v'_def)
    then show "vpath va = vpath va' \<and> px 0 va = px 0 va'" by (simp only: vpath_def p)
  qed
qed

lemma lpte_agree:
  assumes "\<And>p i. p \<in> tables m root \<Longrightarrow> i < 512 \<Longrightarrow> load64 m' (slot p i) = load64 m (slot p i)"
  shows "lpte m' root va = lpte m root va"
proof -
  have "node m' root (vpath va) = node m root (vpath va)"
    by (rule node_agree) (use assms in auto)
  then show ?thesis
    using assms tablesI [OF vpath_paths(1)] by (auto simp: lpte_def split: option.split)
qed

text \<open>Storing a last-level entry changes the map at that page only, and no table.\<close>

lemma store_leaf:
  fixes v :: u64
  assumes "wf_pt e m root" "node m root (vpath va) = Some p" "va < MAXVA"
  defines "m' \<equiv> store64 m (slot p (px 0 va)) v"
  shows "is \<in> paths 2 \<Longrightarrow> node m' root is = node m root is"
    and "tables m' root = tables m root" and "wf_pt e m' root"
    and "va' < MAXVA \<Longrightarrow> lpte m' root va' = (if same_page va va' then v else lpte m root va')"
proof -
  have nd: "node m' root is = node m root is" if "is \<in> paths 2" for "is"
    unfolding m'_def
    by (rule node_store_other [OF assms(1) vpath_paths(1) assms(2) px_less])
      (use that in \<open>auto simp: vpath_def paths_def\<close>)
  then show "is \<in> paths 2 \<Longrightarrow> node m' root is = node m root is" .
  show tb: "tables m' root = tables m root" using nd by (auto simp: tables_def)
  show "wf_pt e m' root" using assms(1) nd by (simp add: wf_pt_def tb)
  show "lpte m' root va' = (if same_page va va' then v else lpte m root va')" if "va' < MAXVA"
  proof (cases "node m root (vpath va')")
    case None
    then have "\<not> same_page va va'" using px_same_page [OF assms(3) that] assms(2) by (metis option.distinct(1))
    with None nd [OF vpath_paths(1)] show ?thesis by (simp add: lpte_def)
  next
    case (Some q)
    have pq: "p = q \<longleftrightarrow> vpath va = vpath va'"
      using wf_inj [OF assms(1) vpath_paths(1) vpath_paths(1) assms(2)] Some assms(2) by (metis option.inject)
    have "aligned p" "aligned q"
      using wf_aligned [OF assms(1) tablesI [OF vpath_paths(1)]] assms(2) Some by blast+
    then have "load64 m' (slot q (px 0 va')) = (if p = q \<and> px 0 va = px 0 va' then v else load64 m (slot q (px 0 va')))"
      unfolding m'_def by (rule load_store_slot) simp_all
    moreover have "p = q \<and> px 0 va = px 0 va' \<longleftrightarrow> same_page va va'"
      unfolding pq by (rule px_same_page [OF assms(3) that])
    ultimately show ?thesis using Some nd [OF vpath_paths(1)] by (simp add: lpte_def)
  qed
qed

section \<open>Extending the tree\<close>

lemma PTE_nonzero [simp]: "PTE_V \<noteq> 0" "PTE_R \<noteq> 0" "PTE_W \<noteq> 0" "PTE_X \<noteq> 0" "PTE_U \<noteq> 0"
  by (simp_all add: PTE_V_def PTE_R_def PTE_W_def PTE_X_def PTE_U_def)

lemma PTE_bit:
  "x AND PTE_V = 0 \<longleftrightarrow> \<not> bit x 0" "x AND PTE_R = 0 \<longleftrightarrow> \<not> bit x 1" "x AND PTE_W = 0 \<longleftrightarrow> \<not> bit x 2"
  "x AND PTE_X = 0 \<longleftrightarrow> \<not> bit x 3" "x AND PTE_U = 0 \<longleftrightarrow> \<not> bit x 4"
  using and_exp_eq_0_iff_not_bit [of x 0] and_exp_eq_0_iff_not_bit [of x 1] and_exp_eq_0_iff_not_bit [of x 2]
    and_exp_eq_0_iff_not_bit [of x 3] and_exp_eq_0_iff_not_bit [of x 4]
  by (simp_all add: PTE_V_def PTE_R_def PTE_W_def PTE_X_def PTE_U_def)

lemma PTE2PA_table: "aligned c \<Longrightarrow> PTE2PA (PA2PTE c OR PTE_V) = c"
  by (rule PTE2PA_PA2PTE) (simp_all add: aligned_def PTE_V_def)

lemma add_table:
  assumes wf: "wf_pt e m root" and "is": "is \<in> paths 1" "node m root is = Some p" "i < 512"
    and inv: "load64 m (slot p i) AND PTE_V = 0"
    and c: "page_ok e c" "c \<notin> tables m root"
    and m1: "\<And>x. 4096 \<le> unat (x - c) \<Longrightarrow> m1 x = m x" and zero: "\<And>j. j < 512 \<Longrightarrow> load64 m1 (slot c j) = 0"
  defines "m' \<equiv> store64 m1 (slot p i) (PA2PTE c OR PTE_V)"
  shows "js \<in> paths 3 \<Longrightarrow> node m' root js = (if js = is @ [i] then Some c else node m root js)"
    and "tables m' root = insert c (tables m root)" and "wf_pt e m' root"
    and "lpte m' root va = lpte m root va"
proof -
  have al: "aligned c" using c(1) by (simp add: page_ok_def)
  have is2: "is \<in> paths 2" "is @ [i] \<in> paths 2" using "is"(1,3) by (auto simp: paths_def)
  have pt: "p \<in> tables m root" using tablesI is2(1) "is"(2) by blast
  then have pc: "p \<noteq> c" "aligned p" using c(2) wf_aligned [OF wf] by auto
  have ag: "load64 m1 (slot q j) = load64 m (slot q j)" if "q \<in> tables m root" "j < 512" for q j
    using that wf_aligned [OF wf that(1)] al c(2) by (intro load_slot_other_page) (auto intro!: m1 other_page)
  have n1: "node m1 root js = node m root js" if "js \<in> paths 3" for js
    using ag that by (rule node_agree)
  have wf1: "wf_pt e m1 root" using wf ag by (rule wf_agree)
  have n1is: "node m1 root is = Some p" using n1 "is"(2) is2(1) by (simp add: paths_mono)
  have zero': "load64 m' (slot c j) = 0" if "j < 512" for j
    using load_store_slot [OF pc(2) al "is"(3) that] pc(1) zero [OF that] by (simp add: m'_def)
  have old: "node m root (is @ [i] @ ks) = None" for ks using "is"(2) inv by (simp add: node_append)
  have new: "node m' root (is @ [i] @ ks) = (if ks = [] then Some c else None)" if "is @ [i] @ ks \<in> paths 3" for ks
  proof -
    have "node m' root (is @ [i] @ ks) = node m' c ks"
      using node_store_here [OF wf1 is2(1) n1is "is"(3), of "PA2PTE c OR PTE_V" ks] PTE2PA_table [OF al]
      by (simp add: m'_def)
    also have "\<dots> = (if ks = [] then Some c else None)"
      using that zero' by (cases ks) (auto simp: paths_def)
    finally show ?thesis .
  qed
  have nd: "node m' root js = (if js = is @ [i] then Some c else node m root js)" if "js \<in> paths 3" for js
  proof (cases "\<exists>ks. js = is @ [i] @ ks")
    case True
    then obtain ks where "js = is @ [i] @ ks" ..
    with new [of ks] old [of ks] that show ?thesis by (cases ks) simp_all
  next
    case False
    then show ?thesis
      using node_store_other [OF wf1 is2(1) n1is "is"(3) that] n1 [OF that] by (auto simp: m'_def)
  qed
  then show "js \<in> paths 3 \<Longrightarrow> node m' root js = (if js = is @ [i] then Some c else node m root js)" .
  have nd2: "node m' root js = (if js = is @ [i] then Some c else node m root js)" if "js \<in> paths 2" for js
    using that by (intro nd) (simp add: paths_mono)
  show tb: "tables m' root = insert c (tables m root)"
  proof (intro set_eqI iffI)
    fix x assume "x \<in> tables m' root"
    then obtain js where "js \<in> paths 2" "node m' root js = Some x" by (auto simp: tables_def)
    then show "x \<in> insert c (tables m root)" using nd2 [of js] by (auto intro: tablesI split: if_splits)
  next
    fix x assume "x \<in> insert c (tables m root)"
    then consider "x = c" | js where "js \<in> paths 2" "node m root js = Some x" by (auto simp: tables_def)
    then show "x \<in> tables m' root"
    proof cases
      case 1
      with nd2 [OF is2(2)] is2(2) show ?thesis by (auto intro: tablesI)
    next
      case (2 js)
      with old [of "[]"] have "js \<noteq> is @ [i]" by auto
      with 2 nd2 [of js] show ?thesis by (auto intro: tablesI)
    qed
  qed
  have "node m root js \<noteq> Some c" if "js \<in> paths 2" for js using c(2) tablesI that by blast
  then show "wf_pt e m' root"
    using wf c(1) nd2 unfolding wf_pt_def tb by auto
  show "lpte m' root va = lpte m root va"
  proof (cases "node m root (vpath va)")
    case None
    then show ?thesis using nd2 [of "vpath va"] zero' by (auto simp: lpte_def)
  next
    case (Some q)
    have ne: "vpath va \<noteq> is @ [i]" using Some old [of "[]"] by auto
    have qt: "q \<in> tables m root" using tablesI [OF vpath_paths(1) Some] .
    have "\<not> (p = q \<and> i = px 0 va)"
      using wf_inj [OF wf is2(1) vpath_paths(1) "is"(2)] Some "is"(1) by (auto simp: vpath_def paths_def)
    then have "load64 m' (slot q (px 0 va)) = load64 m (slot q (px 0 va))"
      using load_store_slot [OF pc(2) wf_aligned [OF wf qt] "is"(3) px_less] ag [OF qt px_less] by (auto simp: m'_def)
    with Some ne nd2 [of "vpath va"] show ?thesis by (simp add: lpte_def)
  qed
qed


section \<open>The state between operations\<close>

text \<open>
  \<open>pt_inv root s fl\<close>: the free list of \<open>s\<close> is \<open>fl\<close>, and the tables under \<open>root\<close> form a tree apart from it.
  \<open>vm_frame P s t\<close>: from \<open>s\<close> to \<open>t\<close> only the pages in \<open>P\<close>, the head of the free list and a hart's
  \<^verbatim>\<open>intena\<close> note have changed.
\<close>

definition pt_inv :: "u64 \<Rightarrow> 'a kmem_state_scheme \<Rightarrow> u64 list \<Rightarrow> bool" where
  "pt_inv root s fl \<longleftrightarrow> kmem_inv s fl \<and> wf_pt (kend s) (mem s) root \<and> set fl \<inter> tables (mem s) root = {}"

definition same_outside :: "u64 set \<Rightarrow> memory \<Rightarrow> memory \<Rightarrow> bool" where
  "same_outside P m m' \<longleftrightarrow> (\<forall>x. (\<forall>p \<in> P. 4096 \<le> unat (x - p)) \<longrightarrow> m' x = m x)"

definition vm_frame :: "u64 set \<Rightarrow> 'a kmem_state_scheme \<Rightarrow> 'a kmem_state_scheme \<Rightarrow> bool" where
  "vm_frame P s t \<longleftrightarrow> same_outside P (mem s) (mem t) \<and>
     (\<exists>b m f. t = (if b then touch s else s)\<lparr>mem := m, freelist := f\<rparr>)"

lemma same_outside_refl [simp]: "same_outside P m m"
  by (simp add: same_outside_def)

lemma same_outside_trans: "same_outside P m m' \<Longrightarrow> same_outside P m' m'' \<Longrightarrow> same_outside P m m''"
  by (simp add: same_outside_def)

lemma same_outside_mono: "same_outside P m m' \<Longrightarrow> P \<subseteq> Q \<Longrightarrow> same_outside Q m m'"
  by (auto simp: same_outside_def)

lemma same_outside_page:
  "same_outside P m m' \<Longrightarrow> aligned q \<Longrightarrow> q \<notin> P \<Longrightarrow> (\<And>p. p \<in> P \<Longrightarrow> aligned p) \<Longrightarrow> i < 4096 \<Longrightarrow>
    m' (q + of_nat i) = m (q + of_nat i)"
  unfolding same_outside_def using other_page by blast

lemma mem_freelist_triv [simp]: "s\<lparr>mem := mem s, freelist := freelist s\<rparr> = s"
  by (cases s) simp

lemma vm_frameI:
  "same_outside P (mem s) m \<Longrightarrow> vm_frame P s (s\<lparr>mem := m, freelist := f\<rparr>)"
  "same_outside P (mem s) m \<Longrightarrow> vm_frame P s ((touch s)\<lparr>mem := m, freelist := f\<rparr>)"
  unfolding vm_frame_def by (auto intro: exI [of _ False] exI [of _ True])

lemma vm_frameI':
  "same_outside P (mem s) m \<Longrightarrow> vm_frame P s ((touch s)\<lparr>freelist := f, mem := m\<rparr>)"
  "same_outside P (mem s) m \<Longrightarrow> vm_frame P s (s\<lparr>mem := m\<rparr>)"
proof -
  assume so: "same_outside P (mem s) m"
  have "(touch s)\<lparr>freelist := f, mem := m\<rparr> = (touch s)\<lparr>mem := m, freelist := f\<rparr>" by simp
  then show "vm_frame P s ((touch s)\<lparr>freelist := f, mem := m\<rparr>)" using vm_frameI(2) [OF so] by metis
  have "s\<lparr>mem := m\<rparr> = s\<lparr>mem := m, freelist := freelist s\<rparr>" by (cases s) simp
  then show "vm_frame P s (s\<lparr>mem := m\<rparr>)" using vm_frameI(1) [OF so] by metis
qed

lemma vm_frame_refl [simp]: "vm_frame P s s"
  using vm_frameI(1) [of P s "mem s" "freelist s"] by simp

lemma vm_frame_touch [simp]: "vm_frame P s (touch s)"
  using vm_frameI(2) [of P s "mem s" "freelist s", OF same_outside_refl] mem_freelist_triv [of "touch s"]
  by (simp only: touch_frame kalloc_frame)

lemma vm_frame_trans:
  assumes "vm_frame P s t" and "vm_frame P t u"
  shows "vm_frame P s u"
proof -
  obtain b m f c m' f' where t: "t = (if b then touch s else s)\<lparr>mem := m, freelist := f\<rparr>"
    and u: "u = (if c then touch t else t)\<lparr>mem := m', freelist := f'\<rparr>"
    using assms by (auto simp: vm_frame_def)
  have "u = (if b \<or> c then touch s else s)\<lparr>mem := m', freelist := f'\<rparr>"
    by (simp add: t u lock_commute)
  then show ?thesis using assms unfolding vm_frame_def by (blast intro: same_outside_trans)
qed

lemma vm_frame_mono: "vm_frame P s t \<Longrightarrow> P \<subseteq> Q \<Longrightarrow> vm_frame Q s t"
  by (auto simp: vm_frame_def intro: same_outside_mono)

lemma vm_frame_fields:
  assumes "vm_frame P s t"
  shows "kend t = kend s" "tp t = tp s" "procs t = procs s" "locks t = locks s" "sleeplocks t = sleeplocks s"
    "cpu_inv t = cpu_inv s" "lock_free lk t = lock_free lk s" "more t = more s"
proof -
  obtain b m f where t: "t = (if b then touch s else s)\<lparr>mem := m, freelist := f\<rparr>"
    using assms by (auto simp: vm_frame_def)
  show "kend t = kend s" "tp t = tp s" "procs t = procs s" "locks t = locks s" "sleeplocks t = sleeplocks s"
    "cpu_inv t = cpu_inv s" "lock_free lk t = lock_free lk s"
    by (simp_all add: t)
  show "more t = more s" by (simp add: t touch_def Let_def)
qed

section \<open>walk\<close>

lemma loadK_run [kM_simps]: "loadK a s = Ok (load64 (mem s) a) s"
  by (simp add: loadK_def)

lemma storeK_run [kM_simps]: "storeK a v s = Ok () (s\<lparr>mem := store64 (mem s) a v\<rparr>)"
  by (simp add: storeK_def)

lemma memsetK_run [kM_simps]: "memsetK a c n s = Ok () (s\<lparr>mem := memset (mem s) a c (ucast n)\<rparr>)"
  by (simp add: memsetK_def)

declare walk_loop.simps(2) [simp del]

lemma walk_lookup:
  assumes "va < MAXVA"
  shows "walk root va False s
    = Ok (case node (mem s) root (vpath va) of None \<Rightarrow> 0 | Some p \<Rightarrow> slot p (px 0 va)) s"
proof -
  have "\<not> MAXVA \<le> va" using assms by simp
  then show ?thesis by (simp add: walk_def walk_loop.simps(2) numeral_2_eq_2 kM_simps Let_def pte_addr_slot vpath_def)
qed


text \<open>One level of \<^verbatim>\<open>walk\<close> with \<^verbatim>\<open>alloc\<close> set: go down, or fail for lack of memory.\<close>

lemma walk_descend:
  assumes inv: "pt_inv root s fl" and "is": "is \<in> paths 1" "node (mem s) root is = Some p"
    and i: "i = px (Suc l) va"
  shows "(\<exists>t fl' q. walk_loop (Suc l) p va True s = walk_loop l q va True t \<and> pt_inv root t fl' \<and>
      node (mem t) root (is @ [i]) = Some q \<and> (\<forall>va. lpte (mem t) root va = lpte (mem s) root va) \<and>
      vm_frame (tables (mem s) root \<union> set fl) s t \<and>
      tables (mem t) root \<union> set fl' = tables (mem s) root \<union> set fl \<and> length fl' \<le> length fl) \<or>
    (walk_loop (Suc l) p va True s = Ok 0 (touch s) \<and> fl = [])"
proof -
  let ?e = "load64 (mem s) (slot p i)"
  have k: "kmem_inv s fl" and wf: "wf_pt (kend s) (mem s) root" and dj: "set fl \<inter> tables (mem s) root = {}"
    using inv by (auto simp: pt_inv_def)
  have i512: "i < 512" by (simp add: i)
  show ?thesis
  proof (cases "?e AND PTE_V = 0")
    case False
    have "walk_loop (Suc l) p va True s = walk_loop l (PTE2PA ?e) va True s"
      using False by (simp add: walk_loop.simps(2) kM_simps Let_def pte_addr_slot i)
    moreover have "node (mem s) root (is @ [i]) = Some (PTE2PA ?e)"
      using "is"(2) False by (simp add: node_snoc Let_def)
    ultimately show ?thesis using inv by (intro disjI1 exI conjI) auto
  next
    case e0: True
    show ?thesis
    proof (cases fl)
      case Nil
      then have "kalloc s = Ok 0 (touch s)" using k by (simp add: kalloc_run kmem_inv_def)
      then show ?thesis using e0 Nil by (simp add: walk_loop.simps(2) kM_simps Let_def pte_addr_slot i)
    next
      case (Cons c fl')
      let ?m1 = "memset (memset (mem s) c 5 4096) c 0 4096"
      let ?m = "store64 ?m1 (slot p i) (PA2PTE c OR PTE_V)"
      let ?t = "(touch s)\<lparr>freelist := load64 (mem s) c, mem := memset (mem s) c 5 4096\<rparr>"
      have c: "page_ok (kend s) c" "c \<notin> set fl'" "c \<noteq> 0" "aligned c" "c \<notin> tables (mem s) root" "freelist s = c"
        using k Cons dj page_ok_nonzero by (auto simp: kmem_inv_def page_ok_def)
      have run: "kalloc s = Ok c ?t" using k c by (simp add: kalloc_run kmem_inv_def)
      then have kt: "kmem_inv ?t fl'" using kalloc_cons [of s c fl'] k Cons by auto
      have m1: "?m1 x = mem s x" if "4096 \<le> unat (x - c)" for x using that by (simp add: memset_eq)
      note at = add_table [OF wf "is" i512 e0 c(1) c(5), of ?m1, OF m1 load_slot_zero [OF c(4)]]
      let ?u = "?t\<lparr>mem := ?m\<rparr>"
      have p: "p \<in> tables (mem s) root" using tablesI [OF paths_mono [OF "is"(1)] "is"(2)] by simp
      have so: "same_outside {c, p} (mem s) ?m"
        unfolding same_outside_def using i512 by (auto simp: store_slot_outside m1)
      have q: "load64 ?m q = load64 (mem ?t) q" if "q \<in> set fl'" for q
      proof (rule load64_page_agree)
        have q: "aligned q" "q \<noteq> c" "q \<noteq> p" using that k Cons dj p c(2) by (auto simp: kmem_inv_def page_ok_def)
        show "aligned q" by (rule q(1))
        show "?m (q + of_nat j) = mem ?t (q + of_nat j)" if "j < 4096" for j
          using that q other_page [OF c(4), of q j] other_page [OF wf_aligned [OF wf p], of q j] i512
          by (simp add: store_slot_outside memset_eq)
      qed
      have ku: "kmem_inv ?u fl'"
        using kt free_list_cong [of fl' ?m "mem ?t", OF q] by (simp add: kmem_inv_def)
      have "walk_loop (Suc l) p va True s = walk_loop l c va True ?u"
        using e0 c(3) run by (simp add: walk_loop.simps(2) kM_simps Let_def pte_addr_slot i)
      moreover have "pt_inv root ?u fl'"
        using ku at(2,3) c(2) dj Cons by (auto simp: pt_inv_def)
      moreover have "vm_frame (tables (mem s) root \<union> set fl) s ?u"
        using vm_frameI'(1) [OF same_outside_mono [OF so], of "tables (mem s) root \<union> set fl"] p Cons by simp
      moreover have "node (mem ?u) root (is @ [i]) = Some c"
        using at(1) [of "is @ [i]"] "is"(1) i512 by (simp add: paths_def)
      ultimately show ?thesis
        using at(2,4) Cons by (intro disjI1 exI [of _ ?u] exI [of _ fl'] exI [of _ c]) auto
    qed
  qed
qed

text \<open>
  \<^verbatim>\<open>walk\<close> with \<^verbatim>\<open>alloc\<close> set keeps the invariant and the map. It returns 0 only when memory has run out,
  and otherwise the address of the entry for \<open>va\<close>; the tables it adds come from the free list.
\<close>

lemma walk_alloc:
  assumes inv: "pt_inv root s fl" and va: "va < MAXVA"
  shows "\<exists>pte t fl'. walk root va True s = Ok pte t \<and> pt_inv root t fl' \<and>
    (\<forall>va. lpte (mem t) root va = lpte (mem s) root va) \<and> vm_frame (tables (mem s) root \<union> set fl) s t \<and>
    tables (mem t) root \<union> set fl' = tables (mem s) root \<union> set fl \<and> length fl' \<le> length fl \<and>
    (if pte = 0 then fl' = [] else \<exists>p. node (mem t) root (vpath va) = Some p \<and> pte = slot p (px 0 va))"
proof -
  have pt0: "pt_inv root (touch t) [] \<and> vm_frame P t (touch t)" if "pt_inv root t []" for t :: "'a kmem_state_scheme" and P
    using that by (simp add: pt_inv_def kmem_inv_def)
  have w: "walk root va True s = walk_loop (Suc (Suc 0)) root va True s"
    using va unfolding walk_def by (simp only: not_le [symmetric] numeral_2_eq_2 if_False)
  have n0: "[] \<in> paths 1" "node (mem s) root [] = Some root" by simp_all
  show ?thesis
    using walk_descend [OF inv n0 refl, of "Suc 0" va]
  proof (elim disjE exE conjE)
    assume "walk_loop (Suc (Suc 0)) root va True s = Ok 0 (touch s)" and "fl = []"
    then show ?thesis using pt0 [of s] inv w by (intro exI [of _ 0] exI [of _ "touch s"] exI [of _ "[]"]) auto
  next
    fix t fl' q
    assume t: "walk_loop (Suc (Suc 0)) root va True s = walk_loop (Suc 0) q va True t" "pt_inv root t fl'"
      "node (mem t) root ([] @ [px (Suc (Suc 0)) va]) = Some q"
      "\<forall>va. lpte (mem t) root va = lpte (mem s) root va" "vm_frame (tables (mem s) root \<union> set fl) s t"
      "tables (mem t) root \<union> set fl' = tables (mem s) root \<union> set fl" "length fl' \<le> length fl"
    have n1: "[px (Suc (Suc 0)) va] \<in> paths 1" by (simp add: paths_def)
    show ?thesis
      using walk_descend [OF t(2) n1 t(3) [unfolded append_Nil] refl, of 0 va]
    proof (elim disjE exE conjE)
      assume "walk_loop (Suc 0) q va True t = Ok 0 (touch t)" and "fl' = []"
      then show ?thesis
        using pt0 [of t] t w vm_frame_trans [OF t(5) vm_frame_touch]
        by (intro exI [of _ 0] exI [of _ "touch t"] exI [of _ "[]"]) simp
    next
      fix u fl'' r
      assume u: "walk_loop (Suc 0) q va True t = walk_loop 0 r va True u" "pt_inv root u fl''"
        "node (mem u) root ([px (Suc (Suc 0)) va] @ [px (Suc 0) va]) = Some r"
        "\<forall>va. lpte (mem u) root va = lpte (mem t) root va" "vm_frame (tables (mem t) root \<union> set fl') t u"
        "tables (mem u) root \<union> set fl'' = tables (mem t) root \<union> set fl'" "length fl'' \<le> length fl'"
      have n: "node (mem u) root (vpath va) = Some r" using u(3) by (simp add: vpath_def numeral_2_eq_2)
      then have "page_ok (kend u) r" using u(2) tablesI [OF vpath_paths(1)] by (auto simp: pt_inv_def wf_pt_def)
      then have "slot r (px 0 va) \<noteq> 0"
        using u(2) page_ok_nonzero by (intro slot_nonzero) (auto simp: pt_inv_def kmem_inv_def page_ok_def)
      then show ?thesis
        using w t u n vm_frame_trans [OF t(5)]
        by (intro exI [of _ "slot r (px 0 va)"] exI [of _ u] exI [of _ fl'']) (simp add: pte_addr_slot)
    qed
  qed
qed


section \<open>mappages\<close>

lemma pt_inv_write:
  assumes inv: "pt_inv root s fl" and so: "same_outside P (mem s) m" and P: "\<And>p. p \<in> P \<Longrightarrow> aligned p"
    and dj: "P \<inter> set fl = {}" and wf: "wf_pt (kend s) m root" and tb: "tables m root = tables (mem s) root"
  shows "pt_inv root (s\<lparr>mem := m\<rparr>) fl"
proof -
  have "load64 m q = load64 (mem s) q" if "q \<in> set fl" for q
  proof (rule load64_page_agree)
    show q: "aligned q" using that inv by (auto simp: pt_inv_def kmem_inv_def page_ok_def)
    show "m (q + of_nat j) = mem s (q + of_nat j)" if "j < 4096" for j
      using same_outside_page [OF so q _ P that] \<open>q \<in> set fl\<close> dj by blast
  qed
  with inv wf show ?thesis
    using free_list_cong [of fl m "mem s"] by (simp add: pt_inv_def kmem_inv_def tb)
qed

lemma store_slot_frame: "i < 512 \<Longrightarrow> same_outside {p} m (store64 m (slot p i) v)"
  by (simp add: same_outside_def store_slot_outside)

text \<open>Storing the last-level entry for \<open>va\<close>.\<close>

lemma set_entry:
  fixes v :: u64
  assumes inv: "pt_inv root s fl" and nd: "node (mem s) root (vpath va) = Some p" and va: "va < MAXVA"
  defines "t \<equiv> s\<lparr>mem := store64 (mem s) (slot p (px 0 va)) v\<rparr>"
  shows "pt_inv root t fl" and "vm_frame (tables (mem s) root) s t" and "tables (mem t) root = tables (mem s) root"
    and "va' < MAXVA \<Longrightarrow> lpte (mem t) root va' = (if same_page va va' then v else lpte (mem s) root va')"
    and "load64 (mem s) (slot p (px 0 va)) = lpte (mem s) root va"
proof -
  have wf: "wf_pt (kend s) (mem s) root" using inv by (simp add: pt_inv_def)
  note sl = store_leaf [OF wf nd va, where v = v]
  have p: "p \<in> tables (mem s) root" using tablesI [OF vpath_paths(1) nd] .
  have so: "same_outside {p} (mem s) (store64 (mem s) (slot p (px 0 va)) v)" by (simp add: store_slot_frame)
  show "pt_inv root t fl"
    unfolding t_def using inv so
    by (rule pt_inv_write) (use p wf_aligned [OF wf p] sl(2,3) inv in \<open>auto simp: pt_inv_def\<close>)
  show "vm_frame (tables (mem s) root) s t"
    unfolding t_def using so p by (intro vm_frameI'(2)) (rule same_outside_mono, auto)
  show "tables (mem t) root = tables (mem s) root" by (simp add: t_def sl(2))
  show "va' < MAXVA \<Longrightarrow> lpte (mem t) root va' = (if same_page va va' then v else lpte (mem s) root va')"
    by (simp add: t_def sl(4))
  show "load64 (mem s) (slot p (px 0 va)) = lpte (mem s) root va" by (simp add: lpte_def nd)
qed

definition vpn :: "u64 \<Rightarrow> nat" where
  "vpn va = unat va div 4096"

text \<open>The map \<open>f\<close> with \<open>n\<close> pages from \<open>a\<close> on mapped to consecutive pages from \<open>pa\<close> on.\<close>

definition map_range :: "(u64 \<Rightarrow> u64) \<Rightarrow> u64 \<Rightarrow> nat \<Rightarrow> u64 \<Rightarrow> u64 \<Rightarrow> u64 \<Rightarrow> u64" where
  "map_range f a n pa perm va =
     (if vpn a \<le> vpn va \<and> vpn va < vpn a + n
      then PA2PTE (pa + of_nat (4096 * (vpn va - vpn a))) OR perm OR PTE_V else f va)"

lemma same_page_vpn: "same_page a b \<longleftrightarrow> vpn a = vpn b"
  by (simp add: same_page_def vpn_def)

lemma vpn_next: "a < MAXVA \<Longrightarrow> vpn (a + PGSIZE) = Suc (vpn a)"
  using next_page_less(2) [of a] by (simp add: vpn_def PGSIZE_def unat_word_ariths)

lemma map_range_0 [simp]: "map_range f a 0 pa perm va = f va"
  by (auto simp: map_range_def)

lemma map_range_Suc:
  assumes "a < MAXVA"
  shows "map_range f a (Suc n) pa perm va
    = map_range (\<lambda>va. if same_page a va then PA2PTE pa OR perm OR PTE_V else f va) (a + PGSIZE) n (pa + PGSIZE) perm va"
proof (cases "vpn va > vpn a \<and> vpn va < Suc (vpn a + n)")
  case True
  then have "4096 * (vpn va - vpn a) = 4096 + 4096 * (vpn va - Suc (vpn a))" by auto
  then have e: "pa + of_nat (4096 * (vpn va - vpn a)) = pa + PGSIZE + of_nat (4096 * (vpn va - Suc (vpn a)))"
    by (simp only: of_nat_add PGSIZE_def of_nat_numeral add.assoc)
  show ?thesis using True unfolding map_range_def vpn_next [OF assms] e by auto
next
  case False
  with assms show ?thesis by (auto simp: map_range_def vpn_next same_page_vpn)
qed

lemma map_range_agree: "(\<And>va. va < MAXVA \<Longrightarrow> f va = g va) \<Longrightarrow> va < MAXVA \<Longrightarrow> map_range f a n pa perm va = map_range g a n pa perm va"
  by (simp add: map_range_def)

lemma mappages_step:
  assumes inv: "pt_inv root s fl" and a: "a < MAXVA" and free: "lpte (mem s) root a AND PTE_V = 0"
  shows "\<exists>t fl'. pt_inv root t fl' \<and> vm_frame (tables (mem s) root \<union> set fl) s t \<and>
    tables (mem t) root \<union> set fl' = tables (mem s) root \<union> set fl \<and>
    (fl' = [] \<and> (\<forall>va. lpte (mem t) root va = lpte (mem s) root va) \<and>
       (\<forall>alast. mappages_loop root a alast pa perm s = Ok (-1) t) \<or>
     (\<forall>va < MAXVA. lpte (mem t) root va = (if same_page a va then PA2PTE pa OR perm OR PTE_V else lpte (mem s) root va)) \<and>
       (\<forall>alast. mappages_loop root a alast pa perm s
          = (if a = alast then Ok 0 t else mappages_loop root (a + PGSIZE) alast (pa + PGSIZE) perm t)))"
proof -
  obtain pte t fl' where w: "walk root a True s = Ok pte t" "pt_inv root t fl'"
      "\<And>va. lpte (mem t) root va = lpte (mem s) root va" "vm_frame (tables (mem s) root \<union> set fl) s t"
      "tables (mem t) root \<union> set fl' = tables (mem s) root \<union> set fl"
      "if pte = 0 then fl' = [] else \<exists>p. node (mem t) root (vpath a) = Some p \<and> pte = slot p (px 0 a)"
    using walk_alloc [OF inv a] by blast
  show ?thesis
  proof (cases "pte = 0")
    case True
    then have "mappages_loop root a alast pa perm s = Ok (-1) t" for alast
      using w(1) by (subst mappages_loop.simps) (simp add: kM_simps)
    with True w show ?thesis by (intro exI [of _ t] exI [of _ "[]"]) simp
  next
    case False
    then obtain p where p: "node (mem t) root (vpath a) = Some p" "pte = slot p (px 0 a)" using w(6) by auto
    let ?v = "PA2PTE pa OR perm OR PTE_V"
    let ?u = "t\<lparr>mem := store64 (mem t) (slot p (px 0 a)) ?v\<rparr>"
    note se = set_entry(1-4) [OF w(2) p(1) a, where v = ?v]
    have "load64 (mem t) pte AND PTE_V = 0" using set_entry(5) [OF w(2) p(1) a] w(3) free p(2) by simp
    then have "mappages_loop root a alast pa perm s
        = (if a = alast then Ok 0 ?u else mappages_loop root (a + PGSIZE) alast (pa + PGSIZE) perm ?u)" for alast
      using w(1) a False p(2) by (subst mappages_loop.simps) (simp add: kM_simps)
    moreover have "vm_frame (tables (mem s) root \<union> set fl) s ?u"
      using vm_frame_trans [OF w(4) vm_frame_mono [OF se(2)]] w(5) by blast
    ultimately show ?thesis
      using se(1,3,4) w(3,5) by (intro exI [of _ ?u] exI [of _ fl']) simp
  qed
qed

lemma mappages_loop_spec:
  assumes "pt_inv root s fl" and "unat a + 4096 * n < 2 ^ 38"
    and "\<forall>va < MAXVA. vpn a \<le> vpn va \<and> vpn va \<le> vpn a + n \<longrightarrow> lpte (mem s) root va AND PTE_V = 0"
  shows "\<exists>r t fl' k. mappages_loop root a (a + of_nat (4096 * n)) pa perm s = Ok r t \<and> pt_inv root t fl' \<and>
    vm_frame (tables (mem s) root \<union> set fl) s t \<and>
    tables (mem t) root \<union> set fl' = tables (mem s) root \<union> set fl \<and>
    (\<forall>va < MAXVA. lpte (mem t) root va = map_range (lpte (mem s) root) a k pa perm va) \<and>
    (r = 0 \<and> k = Suc n \<or> r = -1 \<and> k \<le> n \<and> fl' = [])"
  using assms
proof (induction n arbitrary: s fl a pa rule: less_induct)
  case (less n)
  have a: "a < MAXVA" using less.prems(2) by (simp add: MAXVA_def word_less_nat_alt)
  have "lpte (mem s) root a AND PTE_V = 0" using less.prems(3) a by simp
  from mappages_step [OF less.prems(1) a this, of pa perm]
  obtain t fl' where t: "pt_inv root t fl'" "vm_frame (tables (mem s) root \<union> set fl) s t"
    "tables (mem t) root \<union> set fl' = tables (mem s) root \<union> set fl" and
    c: "fl' = [] \<and> (\<forall>va. lpte (mem t) root va = lpte (mem s) root va) \<and>
       (\<forall>alast. mappages_loop root a alast pa perm s = Ok (-1) t) \<or>
     (\<forall>va < MAXVA. lpte (mem t) root va = (if same_page a va then PA2PTE pa OR perm OR PTE_V else lpte (mem s) root va)) \<and>
       (\<forall>alast. mappages_loop root a alast pa perm s
          = (if a = alast then Ok 0 t else mappages_loop root (a + PGSIZE) alast (pa + PGSIZE) perm t))" by blast
  from c show ?case
  proof (elim disjE conjE)
    assume "fl' = []" "\<forall>va. lpte (mem t) root va = lpte (mem s) root va"
      "\<forall>alast. mappages_loop root a alast pa perm s = Ok (-1) t"
    with t show ?thesis by (intro exI [of _ "-1"] exI [of _ t] exI [of _ "[]"] exI [of _ 0]) simp
  next
    assume l: "\<forall>va < MAXVA. lpte (mem t) root va = (if same_page a va then PA2PTE pa OR perm OR PTE_V else lpte (mem s) root va)"
      and m: "\<forall>alast. mappages_loop root a alast pa perm s
          = (if a = alast then Ok 0 t else mappages_loop root (a + PGSIZE) alast (pa + PGSIZE) perm t)"
    show ?thesis
    proof (cases n)
      case 0
      have "mappages_loop root a (a + of_nat (4096 * 0)) pa perm s = Ok 0 t" using m [rule_format, of a] by simp
      with t l 0 show ?thesis
        by (intro exI [of _ 0] exI [of _ t] exI [of _ fl'] exI [of _ 1]) (simp add: map_range_Suc [OF a])
    next
      case (Suc k)
      let ?a = "a + PGSIZE"
      have "unat (of_nat (4096 * n) :: u64) = 4096 * n" using less.prems(2) by (intro unat_of_nat64) simp
      then have "of_nat (4096 * n) \<noteq> (0 :: u64)" using Suc by (metis mult_is_0 nat.distinct(1) unsigned_0 zero_neq_numeral)
      then have ne: "a \<noteq> a + of_nat (4096 * n)" by (metis add_cancel_right_right)
      have ua: "unat ?a = unat a + 4096"
        using next_page_less(2) [OF a] by (simp add: PGSIZE_def unat_word_ariths)
      have eq: "?a + of_nat (4096 * k) = a + of_nat (4096 * n)" by (simp add: Suc PGSIZE_def algebra_simps)
      have pre: "\<forall>va < MAXVA. vpn ?a \<le> vpn va \<and> vpn va \<le> vpn ?a + k \<longrightarrow> lpte (mem t) root va AND PTE_V = 0"
        using l less.prems(3) by (auto simp: vpn_next [OF a] same_page_vpn Suc)
      have lt: "unat ?a + 4096 * k < 2 ^ 38" using less.prems(2) by (simp add: ua Suc)
      obtain r u fl'' j where u: "mappages_loop root ?a (a + of_nat (4096 * n)) (pa + PGSIZE) perm t = Ok r u"
          "pt_inv root u fl''" "vm_frame (tables (mem t) root \<union> set fl') t u"
          "tables (mem u) root \<union> set fl'' = tables (mem t) root \<union> set fl'"
          "\<forall>va < MAXVA. lpte (mem u) root va = map_range (lpte (mem t) root) ?a j (pa + PGSIZE) perm va"
          "r = 0 \<and> j = Suc k \<or> r = -1 \<and> j \<le> k \<and> fl'' = []"
        using less.IH [OF _ t(1) lt pre, of "pa + PGSIZE", unfolded eq] Suc by blast
      have run: "mappages_loop root a (a + of_nat (4096 * n)) pa perm s = Ok r u"
        using m [rule_format, of "a + of_nat (4096 * n)"] ne u(1) by simp
      have "lpte (mem u) root va = map_range (lpte (mem s) root) a (Suc j) pa perm va" if "va < MAXVA" for va
        using u(5) that l map_range_agree [of "lpte (mem t) root"] by (simp add: map_range_Suc [OF a])
      moreover have "vm_frame (tables (mem s) root \<union> set fl) s u"
        using vm_frame_trans [OF t(2)] u(3) t(3) by simp
      ultimately show ?thesis
        using run u(2,4,6) t(3) Suc
        by (intro exI [of _ r] exI [of _ u] exI [of _ fl''] exI [of _ "Suc j"]) auto
    qed
  qed
qed


lemma mappages_run:
  assumes "aligned va" and "unat va + 4096 * Suc n \<le> 2 ^ 38"
  shows "mappages root va (of_nat (4096 * Suc n)) pa perm = mappages_loop root va (va + of_nat (4096 * n)) pa perm"
proof -
  have u: "unat (of_nat (4096 * Suc n) :: u64) = 4096 * Suc n" using assms(2) by (intro unat_of_nat64) simp
  have "aligned (of_nat (4096 * Suc n))" by (simp only: aligned_def u) simp
  moreover have "(of_nat (4096 * Suc n) :: u64) \<noteq> 0" using u by (metis mult_is_0 nat.distinct(1) unsigned_0 zero_neq_numeral)
  moreover have "va + of_nat (4096 * Suc n) - PGSIZE = va + of_nat (4096 * n)" by (simp add: PGSIZE_def)
  ultimately show ?thesis using assms(1) by (simp only: mappages_def aligned_word_mod) simp
qed

lemma walkaddr_run:
  assumes "wf_pt e m root" and "0 < e" and "mem s = m"
  shows "walkaddr root va s = Ok (if va < MAXVA \<and> lpte m root va AND PTE_V \<noteq> 0 \<and> lpte m root va AND PTE_U \<noteq> 0
     then PTE2PA (lpte m root va) else 0) s"
proof (cases "va < MAXVA")
  case True
  then have na: "\<not> MAXVA \<le> va" by simp
  have "slot p (px 0 va) \<noteq> 0" if "node m root (vpath va) = Some p" for p
  proof -
    have "p \<in> tables m root" using that tablesI [OF vpath_paths(1)] by blast
    with assms(1) have "page_ok e p" by (simp add: wf_pt_def)
    then show ?thesis using page_ok_nonzero [OF assms(2)] by (intro slot_nonzero) (auto simp: page_ok_def)
  qed
  with na True assms(3) show ?thesis
    by (auto simp: walkaddr_def kM_simps walk_lookup lpte_def split: option.split)
next
  case False
  then have "MAXVA \<le> va" by simp
  with False show ?thesis by (simp only: walkaddr_def if_True if_False returnK_def simp_thms)
qed

text \<open>
  C12. \<^verbatim>\<open>mappages\<close>, called for \<open>n + 1\<close> pages at an aligned address none of which is mapped, never panics
  and keeps the tables a tree of distinct pages, apart from the free list. If it returns 0, the map
  from virtual pages to entries has changed exactly as intended: page \<open>j\<close> of the range leads to
  \<open>pa + 4096 j\<close> with the given permissions, and no other page is affected. It returns \<open>-1\<close> only when
  memory has run out, with some initial part of the range mapped. In both cases only table pages and
  formerly free pages are written.
\<close>
theorem mappages_correct:
  assumes "pt_inv root s fl" and "aligned va" and "unat va + 4096 * Suc n \<le> 2 ^ 38"
    and "\<forall>a < MAXVA. vpn va \<le> vpn a \<and> vpn a \<le> vpn va + n \<longrightarrow> lpte (mem s) root a AND PTE_V = 0"
  shows "\<exists>r t fl' k. mappages root va (of_nat (4096 * Suc n)) pa perm s = Ok r t \<and> pt_inv root t fl' \<and>
    vm_frame (tables (mem s) root \<union> set fl) s t \<and>
    (\<forall>a < MAXVA. lpte (mem t) root a = map_range (lpte (mem s) root) va k pa perm a) \<and>
    (r = 0 \<and> k = Suc n \<or> r = -1 \<and> k \<le> n \<and> fl' = [])"
proof -
  have "unat va + 4096 * n < 2 ^ 38" using assms(3) by simp
  from mappages_loop_spec [OF assms(1) this assms(4), of pa perm] show ?thesis
    unfolding mappages_run [OF assms(2,3)] by blast
qed

lemma mapped_addr:
  assumes "aligned pa" and "perm AND 0x3FF = perm" and "perm AND PTE_U \<noteq> 0"
  defines "v \<equiv> PA2PTE pa OR perm OR PTE_V"
  shows "PTE2PA v = pa" and "v AND PTE_V \<noteq> 0" and "v AND PTE_U \<noteq> 0"
proof -
  have "(perm OR PTE_V) AND 0x3FF = perm OR PTE_V"
    using assms(2) by (simp add: bit.conj_disj_distrib2) (simp add: PTE_V_def)
  then show "PTE2PA v = pa" using assms(1) PTE2PA_PA2PTE [of pa "perm OR PTE_V"] by (simp add: v_def aligned_def or.assoc)
  show "v AND PTE_V \<noteq> 0" by (simp add: v_def PTE_bit bit_or_iff) (simp add: PTE_V_def)
  show "v AND PTE_U \<noteq> 0" using assms(3) by (simp add: v_def PTE_bit bit_or_iff)
qed


section \<open>An example machine\<close>

text \<open>Two free pages, and a third one that holds an empty root table.\<close>

definition vm0_root :: u64 where "vm0_root = PHYSTOP - 12288"

definition vm0 :: kmem_state where
  "vm0 = kmem0\<lparr>kend := PHYSTOP - 16384, freelist := PHYSTOP - 4096,
     mem := store64 (\<lambda>_. 0) (PHYSTOP - 4096) (PHYSTOP - 8192)\<rparr>"

lemma load64_zero [simp]: "load64 (\<lambda>_. 0) a = 0"
  by (simp add: load64_def mem_read_def le_word_zero)

lemma vm0_load:
  assumes "aligned q" "j < 512" "q \<noteq> PHYSTOP - 4096 \<or> j \<noteq> 0"
  shows "load64 (mem vm0) (slot q j) = 0"
  using load_store_slot [of "PHYSTOP - 4096" q 0 j "\<lambda>_. 0" "PHYSTOP - 8192"] assms
  by (auto simp: vm0_def aligned_def PHYSTOP_def KERNBASE_def slot_def)

lemma vm0_node: "is \<in> paths 3 \<Longrightarrow> node (mem vm0) vm0_root is = (if is = [] then Some vm0_root else None)"
proof (cases "is")
  case (Cons i js)
  assume "is \<in> paths 3"
  then have "i < 512" by (simp add: Cons paths_def)
  then have "load64 (mem vm0) (slot vm0_root i) = 0"
    by (intro vm0_load) (simp_all add: vm0_root_def aligned_def PHYSTOP_def KERNBASE_def)
  then show ?thesis by (simp add: Cons)
qed simp

lemma vm0_tables: "tables (mem vm0) vm0_root = {vm0_root}"
  using vm0_node by (auto simp: tables_def paths_mono split: if_splits)

lemma vm0_lpte: "lpte (mem vm0) vm0_root va = 0"
proof -
  have "vpath va \<noteq> []" by (simp add: vpath_def)
  with vm0_node [OF vpath_paths(2), of va] show ?thesis by (simp add: lpte_def)
qed

lemma vm0_inv: "pt_inv vm0_root vm0 [PHYSTOP - 4096, PHYSTOP - 8192]"
proof -
  have l: "load64 (mem vm0) (PHYSTOP - 4096) = PHYSTOP - 8192" by (simp add: vm0_def)
  have l': "load64 (mem vm0) (PHYSTOP - 8192) = 0"
    using vm0_load [of "PHYSTOP - 8192" 0] by (simp add: slot_def aligned_def PHYSTOP_def KERNBASE_def)
  have "kmem_inv vm0 [PHYSTOP - 4096, PHYSTOP - 8192]"
    using l l' unfolding kmem_inv_def
    by (simp add: vm0_def kmem0_def kmem_state.defs kstate.defs k0_def cpu_inv_def sie_def lock_free_def
        page_ok_def aligned_def PHYSTOP_def KERNBASE_def)
  moreover have "wf_pt (kend vm0) (mem vm0) vm0_root"
    unfolding wf_pt_def vm0_tables using vm0_node
    by (auto simp: paths_mono vm0_def vm0_root_def page_ok_def aligned_def PHYSTOP_def KERNBASE_def split: if_splits)
  ultimately show ?thesis
    by (simp add: pt_inv_def vm0_tables) (simp add: vm0_root_def PHYSTOP_def KERNBASE_def)
qed

theorem mappages_correct_witness:
  "\<exists>r t fl' k. mappages vm0_root 4096 (of_nat (4096 * Suc 1)) 0x80000000 (PTE_R OR PTE_U) vm0 = Ok r t \<and>
    pt_inv vm0_root t fl' \<and> vm_frame (tables (mem vm0) vm0_root \<union> set [PHYSTOP - 4096, PHYSTOP - 8192]) vm0 t \<and>
    (\<forall>a < MAXVA. lpte (mem t) vm0_root a
       = map_range (lpte (mem vm0) vm0_root) 4096 k 0x80000000 (PTE_R OR PTE_U) a) \<and>
    (r = 0 \<and> k = Suc 1 \<or> r = -1 \<and> k \<le> 1 \<and> fl' = [])"
  by (rule mappages_correct [OF vm0_inv]) (simp_all add: aligned_def vm0_lpte)

end
