(* ===== verification/Vm_Copy.thy ===== *)
theory Vm_Copy
  imports Vm_Map
begin

text \<open>
  \<^verbatim>\<open>copyin\<close>, \<^verbatim>\<open>copyinstr\<close> and \<^verbatim>\<open>copyout\<close> against the view of memory a user program has: \<open>uaddr\<close> translates
  a user address through the page table, \<open>uread\<close> reads bytes one by one through it. The page-wise loops
  of the kernel do the same.
\<close>

section \<open>User memory\<close>

definition user_pte :: "u64 \<Rightarrow> bool" where
  "user_pte e \<longleftrightarrow> e AND PTE_V \<noteq> 0 \<and> e AND PTE_U \<noteq> 0 \<and> PTE2PA e \<noteq> 0"

definition uaddr :: "memory \<Rightarrow> u64 \<Rightarrow> u64 \<Rightarrow> u64 option" where
  "uaddr m root va = (let e = lpte m root va in
     if va < MAXVA \<and> user_pte e then Some (PTE2PA e + (va - PGROUNDDOWN va)) else None)"

fun uread :: "memory \<Rightarrow> u64 \<Rightarrow> u64 \<Rightarrow> nat \<Rightarrow> u8 list option" where
  "uread m root va 0 = Some []"
| "uread m root va (Suc n) = (case uaddr m root va of None \<Rightarrow> None
     | Some a \<Rightarrow> map_option ((#) (m a)) (uread m root (va + 1) n))"

lemma map_option_Cons_bind:
  "map_option ((#) x) (Option.bind a (\<lambda>bs. map_option ((@) bs) b))
    = Option.bind (map_option ((#) x) a) (\<lambda>bs. map_option ((@) bs) b)"
  by (cases a; cases b) auto

lemma uread_add:
  "uread m root va (n + k) = Option.bind (uread m root va n) (\<lambda>bs. map_option ((@) bs) (uread m root (va + of_nat n) k))"
proof (induction n arbitrary: va)
  case 0
  show ?case by (simp add: option.map_ident_strong)
next
  case (Suc n)
  have e: "va + 1 + of_nat n = va + of_nat (Suc n)" by simp
  show ?case by (simp add: Suc e map_option_Cons_bind del: of_nat_Suc split: option.split)
qed

lemma unat_offset: "unat (va - PGROUNDDOWN va) = unat va mod 4096"
proof -
  have "unat (va - PGROUNDDOWN va) = unat va - unat (PGROUNDDOWN va)"
    using PGROUNDDOWN_le by (simp add: unat_sub)
  then show ?thesis by (simp add: unat_PGROUNDDOWN)
qed

text \<open>Addresses up to the end of the page of \<open>va\<close>.\<close>

lemma within_page:
  assumes "va < MAXVA" and "unat va mod 4096 + i < 4096"
  shows "unat (va + of_nat i) = unat va + i" "va + of_nat i < MAXVA"
    "PGROUNDDOWN (va + of_nat i) = PGROUNDDOWN va" "same_page va (va + of_nat i)"
proof -
  have b: "unat va < 2 ^ 38" using next_page_less(2) assms(1) by blast
  show u: "unat (va + of_nat i) = unat va + i"
    using b assms(2) by (simp add: unat_word_ariths unat_of_nat64)
  have d: "(unat va + i) div 4096 = unat va div 4096"
  proof -
    define q r where "q = unat va div 4096" and "r = unat va mod 4096"
    then have "unat va = 4096 * q + r" "r + i < 4096" using assms(2) by simp_all
    then show ?thesis unfolding q_def [symmetric] by (intro div_nat_eqI) simp_all
  qed
  then show "same_page va (va + of_nat i)" by (simp add: same_page_def u)
  have "unat (PGROUNDDOWN (va + of_nat i)) = unat (PGROUNDDOWN va)"
    by (simp only: unat_PGROUNDDOWN u minus_mod_eq_div_mult d)
  then show "PGROUNDDOWN (va + of_nat i) = PGROUNDDOWN va" by (simp add: word_unat_eq_iff)
  have "(unat va + i) div 4096 < 2 ^ 26" unfolding d using b by (simp add: less_mult_imp_div_less)
  then have "unat va + i < 2 ^ 38" by (simp add: div_less_iff_less_mult)
  then show "va + of_nat i < MAXVA" by (simp add: MAXVA_def word_less_nat_alt u)
qed

lemma lpte_same_page: "same_page va va' \<Longrightarrow> va < MAXVA \<Longrightarrow> va' < MAXVA \<Longrightarrow> lpte m root va' = lpte m root va"
  unfolding lpte_def using px_same_page [of va va'] by metis

lemma uaddr_within:
  assumes "uaddr m root va = Some a" and "unat va mod 4096 + i < 4096"
  shows "uaddr m root (va + of_nat i) = Some (a + of_nat i)"
proof -
  have va: "va < MAXVA" using assms(1) by (auto simp: uaddr_def Let_def split: if_splits)
  note w = within_page [OF va assms(2)]
  have "lpte m root (va + of_nat i) = lpte m root va" using lpte_same_page w(2,4) va by blast
  with assms(1) w(2,3) show ?thesis by (auto simp: uaddr_def Let_def split: if_splits)
qed

lemma uread_within:
  assumes "uaddr m root va = Some a" and "unat va mod 4096 + n \<le> 4096"
  shows "uread m root va n = Some (mem_read m a n)"
  using assms(2)
proof (induction n)
  case 0
  show ?case by (simp add: mem_read_def)
next
  case (Suc n)
  have "uread m root va (Suc n) = uread m root va (n + Suc 0)" by simp
  also have "\<dots> = Some (mem_read m a n @ [m (a + of_nat n)])"
    unfolding uread_add using Suc uaddr_within [OF assms(1), of n] by simp
  also have "\<dots> = Some (mem_read m a (Suc n))" by (simp add: mem_read_def)
  finally show ?case .
qed

section \<open>copyin\<close>

lemma chunk_le: "unat va mod 4096 + chunk va len \<le> 4096"
  using page_offset_less [of va] by (simp add: chunk_def chunk_room unat_offset)

lemma chunk_last: "chunk va len < len \<Longrightarrow> PGROUNDDOWN va + PGSIZE = va + of_nat (chunk va len)"
proof -
  assume "chunk va len < len"
  then have "chunk va len = unat (PGSIZE - (va - PGROUNDDOWN va))" by (simp add: chunk_def)
  then show ?thesis by (simp add: unat_of_nat)
qed

lemma uaddr_page:
  "uaddr m root va = (let va0 = PGROUNDDOWN va; e = lpte m root va0 in
     if va0 < MAXVA \<and> user_pte e then Some (PTE2PA e + (va - va0)) else None)"
proof -
  have vp: "vpn (PGROUNDDOWN va) = vpn va"
    by (simp add: vpn_def unat_PGROUNDDOWN minus_mod_eq_div_mult)
  have mx: "PGROUNDDOWN va < MAXVA \<longleftrightarrow> va < MAXVA"
  proof -
    have "x < MAXVA \<longleftrightarrow> vpn x < 2 ^ 26" for x
      by (simp add: vpn_def MAXVA_def word_less_nat_alt div_less_iff_less_mult)
    then show ?thesis by (simp add: vp)
  qed
  then have "va < MAXVA \<Longrightarrow> lpte m root (PGROUNDDOWN va) = lpte m root va"
    using lpte_same_page [of va "PGROUNDDOWN va"] by (simp add: same_page_vpn vp)
  with mx show ?thesis by (auto simp: uaddr_def Let_def)
qed

lemma copyin_spec:
  assumes "wf_pt e (mem s) root" and "0 < e"
  shows "\<exists>r bs. copyin root srcva len s = Ok (r, bs) s \<and>
    (case uread (mem s) root srcva len of Some bs' \<Rightarrow> r = 0 \<and> bs = bs' | None \<Rightarrow> r = -1)"
  using assms
proof (induction root srcva len rule: copyin.induct)
  case (1 root va len)
  let ?va0 = "PGROUNDDOWN va" and ?n = "chunk va len"
  have wa: "walkaddr root ?va0 s = Ok (case uaddr (mem s) root va of None \<Rightarrow> 0 | Some a \<Rightarrow> a - (va - ?va0)) s"
    unfolding walkaddr_run [OF "1.prems" refl] uaddr_page by (auto simp: Let_def user_pte_def)
  show ?case
  proof (cases "len = 0 \<or> uaddr (mem s) root va = None")
    case True
    then show ?thesis
      using wa by (subst copyin.simps, cases len) (auto simp: kM_simps Let_def)
  next
    case False
    then obtain a where a: "uaddr (mem s) root va = Some a" "len \<noteq> 0" by auto
    have pa: "a - (va - ?va0) \<noteq> 0" using a(1) by (auto simp: uaddr_page Let_def user_pte_def split: if_splits)
    have rd: "uread (mem s) root va ?n = Some (mem_read (mem s) a ?n)"
      using uread_within [OF a(1) chunk_le] .
    have n: "?n \<le> len" using chunk_pos(2) .
    obtain r bs where IH: "copyin root (?va0 + PGSIZE) (len - ?n) s = Ok (r, bs) s"
        "case uread (mem s) root (?va0 + PGSIZE) (len - ?n) of Some bs' \<Rightarrow> r = 0 \<and> bs = bs' | None \<Rightarrow> r = -1"
      using "1.IH" [OF a(2) refl pa refl] "1.prems" by blast
    have run: "copyin root va len s = Ok (r, mem_read (mem s) a ?n @ bs) s"
      using a pa wa IH(1) by (subst copyin.simps) (simp add: kM_simps Let_def)
    have "uread (mem s) root va len
        = map_option ((@) (mem_read (mem s) a ?n)) (uread (mem s) root (va + of_nat ?n) (len - ?n))"
      using uread_add [of "mem s" root va ?n "len - ?n"] n rd by simp
    moreover have "?n < len \<Longrightarrow> ?va0 + PGSIZE = va + of_nat ?n" using chunk_last .
    ultimately show ?thesis
      using run IH(2) n by (cases "?n < len") (auto split: option.splits)
  qed
qed

text \<open>
  C14. \<^verbatim>\<open>copyin\<close> equals a byte-by-byte read through the page table: it returns 0 with exactly the \<open>len\<close>
  bytes at \<open>srcva\<close> if all of them are in pages mapped for the user, and \<open>-1\<close> otherwise. It changes
  nothing in the kernel, whatever the page table maps.
\<close>
theorem copyin_correct:
  assumes "wf_pt e (mem s) root" and "0 < e"
  shows "\<exists>r bs. copyin root srcva len s = Ok (r, bs) s \<and>
    (case uread (mem s) root srcva len of Some bs' \<Rightarrow> r = 0 \<and> bs = bs' | None \<Rightarrow> r = -1)"
  using assms by (rule copyin_spec)

lemma vm0_user: "wf_pt (kend vm0) (mem vm0) vm0_root" "0 < kend vm0"
  using vm0_inv by (auto simp: pt_inv_def kmem_inv_def)

theorem copyin_correct_witness:
  "\<exists>bs. copyin vm0_root 5000 3 vm0 = Ok (-1, bs) vm0"
proof -
  have "uread (mem vm0) vm0_root 5000 3 = None"
    by (simp add: numeral_3_eq_3 uaddr_def vm0_lpte user_pte_def)
  with copyin_correct [OF vm0_user, of 5000 3] show ?thesis by auto
qed

section \<open>copyinstr\<close>

fun ustr :: "memory \<Rightarrow> u64 \<Rightarrow> u64 \<Rightarrow> nat \<Rightarrow> u8 list option" where
  "ustr m root va 0 = None"
| "ustr m root va (Suc n) = (case uaddr m root va of None \<Rightarrow> None
     | Some a \<Rightarrow> if m a = 0 then Some [0] else map_option ((#) (m a)) (ustr m root (va + 1) n))"

lemma append_single: "(@) [x] = (#) x" "(@) (x # ys) = (\<lambda>zs. x # ys @ zs)"
  by (simp_all add: fun_eq_iff)

lemma ustr_within:
  assumes "uaddr m root va = Some a" and "unat va mod 4096 + n \<le> 4096"
    and "copyinstr_page m a n = (got_null, bs)"
  shows "ustr m root va (n + k)
    = (if got_null then Some bs else map_option ((@) bs) (ustr m root (va + of_nat n) k))"
  using assms
proof (induction n arbitrary: va a got_null bs)
  case 0
  then show ?case by (simp add: option.map_ident_strong)
next
  case (Suc n)
  obtain g cs where gc: "copyinstr_page m (a + 1) n = (g, cs)" by force
  show ?case
  proof (cases "m a = 0 \<or> n = 0")
    case True
    with Suc.prems gc show ?thesis by (auto simp: append_single(1) split: option.splits if_splits)
  next
    case False
    then have nz: "m a \<noteq> 0" "1 < 4096 - unat va mod 4096" using Suc.prems(2) by auto
    have va: "va < MAXVA" using Suc.prems(1) by (auto simp: uaddr_def Let_def split: if_splits)
    have u1: "uaddr m root (va + 1) = Some (a + 1)"
      using uaddr_within [OF Suc.prems(1), of 1] nz(2) by simp
    have "unat (va + 1) = unat va + 1" using within_page(1) [OF va, of 1] nz(2) by simp
    then have "unat (va + 1) mod 4096 + n \<le> 4096"
      using Suc.prems(2) nz(2) by (simp add: mod_Suc)
    from Suc.IH [OF u1 this gc] nz(1) Suc.prems(1,3) gc show ?thesis
      by (auto simp: option.map_comp comp_def add.assoc append_single(2) split: if_splits)
  qed
qed

lemma copyinstr_spec:
  assumes "wf_pt e (mem s) root" and "0 < e"
  shows "\<exists>r bs. copyinstr root srcva mx s = Ok (r, bs) s \<and>
    (case ustr (mem s) root srcva mx of Some bs' \<Rightarrow> r = 0 \<and> bs = bs' | None \<Rightarrow> r = -1)"
  using assms
proof (induction root srcva mx rule: copyinstr.induct)
  case (1 root va mx)
  let ?va0 = "PGROUNDDOWN va" and ?n = "chunk va mx"
  have wa: "walkaddr root ?va0 s = Ok (case uaddr (mem s) root va of None \<Rightarrow> 0 | Some a \<Rightarrow> a - (va - ?va0)) s"
    unfolding walkaddr_run [OF "1.prems" refl] uaddr_page by (auto simp: Let_def user_pte_def)
  show ?case
  proof (cases "mx = 0 \<or> uaddr (mem s) root va = None")
    case True
    then show ?thesis
      using wa by (subst copyinstr.simps, cases mx) (auto simp: kM_simps Let_def)
  next
    case False
    then obtain a where a: "uaddr (mem s) root va = Some a" "mx \<noteq> 0" by auto
    have pa: "a - (va - ?va0) \<noteq> 0" using a(1) by (auto simp: uaddr_page Let_def user_pte_def split: if_splits)
    obtain g bs where gb: "copyinstr_page (mem s) a ?n = (g, bs)" by force
    note us = ustr_within [OF a(1) chunk_le gb, of "mx - ?n"]
    have n: "?n \<le> mx" using chunk_pos(2) .
    show ?thesis
    proof (cases g)
      case True
      then show ?thesis
        using a pa wa gb us n by (subst copyinstr.simps) (simp add: kM_simps Let_def)
    next
      case g: False
      obtain r cs where IH: "copyinstr root (?va0 + PGSIZE) (mx - ?n) s = Ok (r, cs) s"
          "case ustr (mem s) root (?va0 + PGSIZE) (mx - ?n) of Some bs' \<Rightarrow> r = 0 \<and> cs = bs' | None \<Rightarrow> r = -1"
        using "1.IH" [OF a(2) refl pa refl g] "1.prems" by blast
      have run: "copyinstr root va mx s = Ok (r, bs @ cs) s"
        using a pa wa IH(1) gb g by (subst copyinstr.simps) (simp add: kM_simps Let_def)
      moreover have "?n < mx \<Longrightarrow> ?va0 + PGSIZE = va + of_nat ?n" using chunk_last .
      ultimately show ?thesis
        using IH(2) us n g by (cases "?n < mx") (auto split: option.splits)
    qed
  qed
qed

text \<open>
  C15. \<^verbatim>\<open>copyinstr\<close> equals a byte-by-byte read up to the first NUL: it returns 0 with the string and its NUL
  exactly if a NUL occurs among the first \<open>max\<close> bytes and every byte up to it is mapped for the user,
  and \<open>-1\<close> otherwise.
\<close>
theorem copyinstr_correct:
  assumes "wf_pt e (mem s) root" and "0 < e"
  shows "\<exists>r bs. copyinstr root srcva mx s = Ok (r, bs) s \<and>
    (case ustr (mem s) root srcva mx of Some bs' \<Rightarrow> r = 0 \<and> bs = bs' | None \<Rightarrow> r = -1)"
  using assms by (rule copyinstr_spec)

theorem copyinstr_correct_witness: "\<exists>bs. copyinstr vm0_root 8190 64 vm0 = Ok (-1, bs) vm0"
proof -
  have "ustr (mem vm0) vm0_root 8190 64 = ustr (mem vm0) vm0_root 8190 (Suc 63)" by (simp only: numeral_eq_Suc pred_numeral_simps BitM.simps)
  also have "\<dots> = None" by (simp only: ustr.simps) (simp add: uaddr_def vm0_lpte user_pte_def)
  finally show ?thesis using copyinstr_correct [OF vm0_user, of 8190 64] by auto
qed


section \<open>copyout\<close>

text \<open>
  What the kernel maintains of a user page table: the pages mapped for the user are not tables, and no
  two virtual pages share one.
\<close>

definition user_inv :: "u64 \<Rightarrow> memory \<Rightarrow> u64 \<Rightarrow> bool" where
  "user_inv e m root \<longleftrightarrow> wf_pt e m root \<and> 0 < e \<and>
     (\<forall>va < MAXVA. lpte m root va AND PTE_V \<noteq> 0 \<and> lpte m root va AND PTE_U \<noteq> 0 \<longrightarrow>
        PTE2PA (lpte m root va) \<noteq> 0 \<and> PTE2PA (lpte m root va) \<notin> tables m root) \<and>
     (\<forall>va < MAXVA. \<forall>va' < MAXVA. user_pte (lpte m root va) \<longrightarrow> user_pte (lpte m root va') \<longrightarrow>
        PTE2PA (lpte m root va) = PTE2PA (lpte m root va') \<longrightarrow> same_page va va')"

lemma PTE2PA_aligned [simp]: "aligned (PTE2PA e)"
proof -
  have "take_bit 12 (PTE2PA e) = 0" by (rule bit_word_eqI) (auto simp: PTE2PA_def bit_simps)
  then have "unat (take_bit 12 (PTE2PA e)) = 0" by simp
  moreover have "unat (take_bit 12 (PTE2PA e)) = take_bit 12 (unat (PTE2PA e))" by (rule unsigned_take_bit_eq)
  ultimately show ?thesis by (simp add: aligned_def take_bit_eq_mod)
qed

lemma uaddr_Some:
  assumes "uaddr m root va = Some a"
  shows "va < MAXVA" "user_pte (lpte m root va)" "a = PTE2PA (lpte m root va) + of_nat (unat va mod 4096)"
    "unat a div 4096 = unat (PTE2PA (lpte m root va)) div 4096" "unat a mod 4096 = unat va mod 4096"
proof -
  show "va < MAXVA" "user_pte (lpte m root va)"
    using assms by (auto simp: uaddr_def Let_def split: if_splits)
  have "va - PGROUNDDOWN va = of_nat (unat va mod 4096)"
    by (simp add: word_unat_eq_iff unat_offset unat_of_nat64)
  then show a: "a = PTE2PA (lpte m root va) + of_nat (unat va mod 4096)"
    using assms by (auto simp: uaddr_def Let_def split: if_splits)
  note po = page_offset_div [OF PTE2PA_aligned, of "unat va mod 4096" "lpte m root va"]
  show "unat a div 4096 = unat (PTE2PA (lpte m root va)) div 4096" using po(2) by (simp add: a)
  have "unat a = unat (PTE2PA (lpte m root va)) + unat va mod 4096" using po(1) by (simp add: a)
  then show "unat a mod 4096 = unat va mod 4096"
    using PTE2PA_aligned [of "lpte m root va"] by (simp add: aligned_def mod_add_eq [symmetric] del: PTE2PA_aligned)
qed

lemma uaddr_inj:
  assumes "user_inv e m root" "uaddr m root va = Some a" "uaddr m root va' = Some a"
  shows "va = va'"
proof -
  note u = uaddr_Some [OF assms(2)] and u' = uaddr_Some [OF assms(3)]
  have "PTE2PA (lpte m root va) = PTE2PA (lpte m root va')"
    using u(4) u'(4) aligned_eq_iff by simp
  then have "same_page va va'" using assms(1) u(1,2) u'(1,2) unfolding user_inv_def by blast
  moreover have "unat va mod 4096 = unat va' mod 4096" using u(5) u'(5) by simp
  ultimately have "unat va = unat va'" unfolding same_page_def by (metis div_mult_mod_eq)
  then show ?thesis by (simp add: word_unat_eq_iff)
qed

lemma user_write:
  assumes inv: "user_inv e m root" and a: "uaddr m root va = Some a" and n: "unat va mod 4096 + length cs \<le> 4096"
  defines "m' \<equiv> mem_write m a cs"
  shows "lpte m' root va' = lpte m root va'" and "user_inv e m' root" and "uaddr m' root va' = uaddr m root va'"
proof -
  let ?p = "PTE2PA (lpte m root va)"
  note u = uaddr_Some [OF a]
  have p: "?p \<notin> tables m root" using inv u(1,2) by (simp add: user_inv_def user_pte_def)
  have wf: "wf_pt e m root" using inv by (simp add: user_inv_def)
  have out: "m' x = m x" if "4096 \<le> unat (x - ?p)" for x
  proof -
    have eq: "x - a = (x - ?p) - of_nat (unat va mod 4096)" by (simp add: u(3))
    have "unat va mod 4096 \<le> 4096" by simp
    then have "unat (x - a) = unat (x - ?p) - unat va mod 4096"
      unfolding eq using that by (intro unat_minus_of_nat) linarith
    with n that show ?thesis by (simp add: m'_def mem_write_outside)
  qed
  have ag: "load64 m' (slot q j) = load64 m (slot q j)" if "q \<in> tables m root" "j < 512" for q j
    using that wf_aligned [OF wf that(1)] p by (intro load_slot_other_page out other_page) auto
  show l: "lpte m' root va' = lpte m root va'" for va' using ag by (rule lpte_agree)
  show "uaddr m' root va' = uaddr m root va'" by (simp add: uaddr_def l)
  show "user_inv e m' root"
    using inv wf_agree [OF wf ag] tables_agree [OF ag, of root] unfolding user_inv_def by (simp add: l)
qed


definition uwritable :: "memory \<Rightarrow> u64 \<Rightarrow> u64 \<Rightarrow> bool" where
  "uwritable m root va \<longleftrightarrow> uaddr m root va \<noteq> None \<and> lpte m root va AND PTE_W \<noteq> 0"

lemma uaddr_lpte: "(\<And>va. lpte m' root va = lpte m root va) \<Longrightarrow> uaddr m' root va = uaddr m root va"
  by (simp add: uaddr_def)

lemma uwritable_lpte:
  assumes "\<And>va. lpte m' root va = lpte m root va"
  shows "uwritable m' root va = uwritable m root va"
  using assms uaddr_lpte [OF assms] by (simp add: uwritable_def)

text \<open>\<open>m'\<close> is \<open>m\<close> with the bytes \<open>bs\<close> written at user address \<open>va\<close>, and nothing else changed.\<close>

definition uwritten :: "memory \<Rightarrow> u64 \<Rightarrow> u64 \<Rightarrow> u8 list \<Rightarrow> memory \<Rightarrow> bool" where
  "uwritten m root va bs m' \<longleftrightarrow>
     (\<forall>i < length bs. \<forall>a. uaddr m root (va + of_nat i) = Some a \<longrightarrow> m' a = bs ! i) \<and>
     (\<forall>a. (\<forall>i < length bs. uaddr m root (va + of_nat i) \<noteq> Some a) \<longrightarrow> m' a = m a)"

lemma uwritten_page:
  assumes "user_inv e m root" "uaddr m root va = Some a" "unat va mod 4096 + length cs \<le> 4096"
  shows "uwritten m root va cs (mem_write m a cs)"
  unfolding uwritten_def
proof (intro conjI allI impI)
  fix i b assume i: "i < length cs" and b: "uaddr m root (va + of_nat i) = Some b"
  have "b = a + of_nat i" using uaddr_within [OF assms(2), of i] assms(3) i b by simp
  then show "mem_write m a cs b = cs ! i"
    using i assms(3) by (simp add: mem_write_def unat_of_nat64)
next
  fix b assume b: "\<forall>i < length cs. uaddr m root (va + of_nat i) \<noteq> Some b"
  have "length cs \<le> unat (b - a)"
  proof (rule ccontr)
    assume "\<not> length cs \<le> unat (b - a)"
    then have "unat (b - a) < length cs" by simp
    moreover from this have "uaddr m root (va + of_nat (unat (b - a))) = Some b"
      using uaddr_within [OF assms(2), of "unat (b - a)"] assms(3) by simp
    ultimately show False using b by blast
  qed
  then show "mem_write m a cs b = m b" by (rule mem_write_outside)
qed

lemma uwritten_append:
  assumes inv: "user_inv e m root" and w: "uwritten m root va bs m'" and ua: "\<And>va. uaddr m' root va = uaddr m root va"
    and w': "uwritten m' root (va + of_nat (length bs)) cs m''"
    and len: "length bs + length cs < 2 ^ 64"
  shows "uwritten m root va (bs @ cs) m''"
  unfolding uwritten_def
proof (intro conjI allI impI)
  fix i a assume i: "i < length (bs @ cs)" and a: "uaddr m root (va + of_nat i) = Some a"
  show "m'' a = (bs @ cs) ! i"
  proof (cases "i < length bs")
    case True
    have "uaddr m' root (va + of_nat (length bs) + of_nat j) \<noteq> Some a" if j: "j < length cs" for j
    proof
      assume "uaddr m' root (va + of_nat (length bs) + of_nat j) = Some a"
      then have "va + of_nat i = va + of_nat (length bs + j)"
        using uaddr_inj [OF inv a] by (simp add: ua add.assoc)
      then have "(of_nat i :: u64) = of_nat (length bs + j)" by simp
      then have "unat (of_nat i :: u64) = unat (of_nat (length bs + j) :: u64)" by simp
      moreover have "unat (of_nat i :: u64) = i" by (rule unat_of_nat64) (use True len in simp)
      moreover have "unat (of_nat (length bs + j) :: u64) = length bs + j"
        by (rule unat_of_nat64) (use j len in simp)
      ultimately show False using True by linarith
    qed
    then have "m'' a = m' a" using w' by (simp add: uwritten_def)
    also have "\<dots> = bs ! i" using w a True by (simp add: uwritten_def)
    finally show ?thesis using True by (simp add: nth_append)
  next
    case False
    have "uaddr m' root (va + of_nat (length bs) + of_nat (i - length bs)) = Some a"
      using a False by (simp add: ua add.assoc flip: of_nat_add)
    moreover have "i - length bs < length cs" using i False by simp
    ultimately show ?thesis using w' False by (simp add: uwritten_def nth_append)
  qed
next
  fix a assume a: "\<forall>i < length (bs @ cs). uaddr m root (va + of_nat i) \<noteq> Some a"
  have "uaddr m' root (va + of_nat (length bs) + of_nat j) \<noteq> Some a" if "j < length cs" for j
    using a [rule_format, of "length bs + j"] that by (simp add: ua add.assoc)
  then have "m'' a = m' a" using w' by (simp add: uwritten_def)
  also have "\<dots> = m a" using w a by (simp add: uwritten_def)
  finally show "m'' a = m a" .
qed


lemma uwritable_within:
  assumes "uwritable m root va" and "unat va mod 4096 + i < 4096"
  shows "uwritable m root (va + of_nat i)"
proof -
  obtain a where a: "uaddr m root va = Some a" using assms(1) by (auto simp: uwritable_def)
  note va = uaddr_Some(1) [OF a]
  note w = within_page [OF va assms(2)]
  show ?thesis
    using uaddr_within [OF a assms(2)] lpte_same_page [OF w(4) va w(2)] assms(1) by (simp add: uwritable_def)
qed

lemma copyout_walk:
  assumes "user_inv e (mem s) root" and "src \<noteq> []"
  shows "copyout root dstva src s = (if uwritable (mem s) root dstva
     then copyout root (PGROUNDDOWN dstva + PGSIZE) (drop (chunk dstva (length src)) src)
       (s\<lparr>mem := mem_write (mem s) (the (uaddr (mem s) root dstva)) (take (chunk dstva (length src)) src)\<rparr>)
     else Ok (-1) s)"
proof -
  let ?va0 = "PGROUNDDOWN dstva" and ?m = "mem s"
  have wf: "wf_pt e ?m root" "0 < e" using assms(1) by (auto simp: user_inv_def)
  show ?thesis
  proof (cases "?va0 < MAXVA")
    case False
    then have "\<not> uwritable ?m root dstva" by (simp add: uwritable_def uaddr_page)
    moreover have "MAXVA \<le> ?va0" using False by simp
    ultimately show ?thesis using assms(2) by (subst copyout.simps) (simp add: Let_def)
  next
    case True
    then have na: "\<not> MAXVA \<le> ?va0" by simp
    have nz: "slot p (px 0 ?va0) \<noteq> 0" if "node ?m root (vpath ?va0) = Some p" for p
      using that wf page_ok_nonzero [OF wf(2)] tablesI [OF vpath_paths(1) that]
      by (intro slot_nonzero) (auto simp: wf_pt_def page_ok_def)
    let ?e = "lpte ?m root ?va0"
    have pz: "?e AND PTE_V \<noteq> 0 \<and> ?e AND PTE_U \<noteq> 0 \<longrightarrow> PTE2PA ?e \<noteq> 0" using assms(1) True by (simp add: user_inv_def)
    have ud: "uaddr ?m root dstva = (if user_pte ?e then Some (PTE2PA ?e + (dstva - ?va0)) else None)"
      using True by (simp add: uaddr_page Let_def)
    have "lpte ?m root dstva = ?e" if "uaddr ?m root dstva \<noteq> None"
    proof -
      from that have d: "dstva < MAXVA" by (auto simp: uaddr_def Let_def split: if_splits)
      have "same_page ?va0 dstva" by (simp add: same_page_def unat_PGROUNDDOWN minus_mod_eq_div_mult)
      then show ?thesis using lpte_same_page True d by blast
    qed
    then have wr: "uwritable ?m root dstva \<longleftrightarrow> \<not> (?e AND PTE_V = 0 \<or> ?e AND PTE_U = 0 \<or> ?e AND PTE_W = 0)"
      using ud pz by (auto simp: uwritable_def user_pte_def)
    have z: "node ?m root (vpath ?va0) = None \<Longrightarrow> ?e = 0" by (simp add: lpte_def)
    have r: "\<And>p. node ?m root (vpath ?va0) = Some p \<Longrightarrow> load64 ?m (slot p (px 0 ?va0)) = ?e" by (simp add: lpte_def)
    show ?thesis
    proof (cases "node ?m root (vpath ?va0)")
      case None
      then show ?thesis using assms(2) na z wr
        by (subst copyout.simps) (simp add: kM_simps Let_def walk_lookup [OF True])
    next
      case (Some p)
      have "copyout root dstva src s = (if ?e AND PTE_V = 0 \<or> ?e AND PTE_U = 0 \<or> ?e AND PTE_W = 0 then Ok (-1) s
        else copyout root (?va0 + PGSIZE) (drop (chunk dstva (length src)) src)
          (s\<lparr>mem := mem_write ?m (PTE2PA ?e + (dstva - ?va0)) (take (chunk dstva (length src)) src)\<rparr>))"
        using Some assms(2) na nz r by (subst copyout.simps) (simp add: kM_simps Let_def walk_lookup [OF True])
      then show ?thesis using wr ud by (auto simp: uwritable_def split: if_splits)
    qed
  qed
qed

lemma copyout_spec:
  assumes "user_inv e (mem s) root" and "length src < 2 ^ 64"
  shows "\<exists>r m k. copyout root dstva src s = Ok r (s\<lparr>mem := m\<rparr>) \<and> user_inv e m root \<and>
    (\<forall>va. lpte m root va = lpte (mem s) root va) \<and> uwritten (mem s) root dstva (take k src) m \<and> k \<le> length src \<and>
    (\<forall>i < k. uwritable (mem s) root (dstva + of_nat i)) \<and>
    (r = 0 \<and> k = length src \<or> r = -1 \<and> k < length src \<and> \<not> uwritable (mem s) root (dstva + of_nat k))"
  using assms
proof (induction "length src" arbitrary: src dstva s rule: less_induct)
  case less
  let ?n = "chunk dstva (length src)"
  show ?case
  proof (cases "src = [] \<or> \<not> uwritable (mem s) root dstva")
    case True
    have s: "s = s\<lparr>mem := mem s\<rparr>" by simp
    show ?thesis
    proof (cases "src = []")
      case True
      then have "copyout root dstva src s = Ok 0 (s\<lparr>mem := mem s\<rparr>)" by (subst copyout.simps) simp
      with True less.prems show ?thesis by (intro exI [of _ 0] exI [of _ "mem s"]) (simp add: uwritten_def)
    next
      case ne: False
      then have "copyout root dstva src s = Ok (-1) (s\<lparr>mem := mem s\<rparr>)"
        using True copyout_walk [OF less.prems(1) ne, of dstva] by simp
      with True ne less.prems show ?thesis
        by (intro exI [of _ "-1"] exI [of _ "mem s"] exI [of _ 0]) (simp add: uwritten_def)
    qed
  next
    case False
    then have ne: "src \<noteq> []" and wr: "uwritable (mem s) root dstva" by auto
    obtain a where a: "uaddr (mem s) root dstva = Some a" using wr by (auto simp: uwritable_def)
    let ?m = "mem_write (mem s) a (take ?n src)" and ?va = "PGROUNDDOWN dstva + PGSIZE"
    let ?s = "s\<lparr>mem := ?m\<rparr>"
    have n: "0 < ?n" "?n \<le> length src" using chunk_pos ne by auto
    have fit: "unat dstva mod 4096 + length (take ?n src) \<le> 4096" using chunk_le n(2) by simp
    note uw = user_write [OF less.prems(1) a fit]
    have wrn: "\<forall>i < ?n. uwritable (mem s) root (dstva + of_nat i)"
      using uwritable_within [OF wr] chunk_le [of dstva "length src"] by auto
    have run: "copyout root dstva src s = copyout root ?va (drop ?n src) ?s"
      using copyout_walk [OF less.prems(1) ne, of dstva] wr a by simp
    obtain r m k where IH: "copyout root ?va (drop ?n src) ?s = Ok r (s\<lparr>mem := m\<rparr>)" "user_inv e m root"
        "\<forall>va. lpte m root va = lpte ?m root va" "uwritten ?m root ?va (take k (drop ?n src)) m" "k \<le> length src - ?n"
        "\<forall>i < k. uwritable ?m root (?va + of_nat i)"
        "r = 0 \<and> k = length src - ?n \<or> r = -1 \<and> k < length src - ?n \<and> \<not> uwritable ?m root (?va + of_nat k)"
    proof -
      have sm: "length (drop ?n src) < length src" using n by simp
      then have lt: "length (drop ?n src) < 2 ^ 64" using less.prems(2) by linarith
      have "user_inv e (mem ?s) root" using uw(2) by simp
      from less.hyps [OF sm this lt, of ?va] show ?thesis using that by (auto simp: length_drop)
    qed
    have wr': "uwritable ?m root va = uwritable (mem s) root va" for va by (simp add: uwritable_def uw(1,3))
    have va: "?va = dstva + of_nat ?n" if "?n < length src" using chunk_last [OF that] .
    have "uwritten (mem s) root dstva (take ?n src @ take k (drop ?n src)) m"
    proof (cases "k = 0")
      case True
      then have "m = ?m" using IH(4) by (auto simp: uwritten_def)
      then show ?thesis using uwritten_page [OF less.prems(1) a fit] True by simp
    next
      case False
      then have va': "?va = dstva + of_nat ?n" using va IH(5) by simp
      have ln: "length (take ?n src) = ?n" using n(2) by simp
      have "uwritten ?m root (dstva + of_nat (length (take ?n src))) (take k (drop ?n src)) m"
        using IH(4) va' by (simp only: ln)
      moreover have "length (take ?n src) + length (take k (drop ?n src)) < 2 ^ 64"
        unfolding ln using n(2) less.prems(2) by simp
      ultimately show ?thesis
        by (rule uwritten_append [OF less.prems(1) uwritten_page [OF less.prems(1) a fit] uw(3)])
    qed
    then have "uwritten (mem s) root dstva (take (?n + k) src) m" by (simp add: take_add)
    moreover have "uwritable (mem s) root (dstva + of_nat i)" if "i < ?n + k" for i
    proof (cases "i < ?n")
      case True
      then show ?thesis using wrn by simp
    next
      case False
      have "?n < length src" using False that IH(5) by simp
      with va False that IH(6) [rule_format, of "i - ?n"] show ?thesis by (simp add: wr' add.assoc flip: of_nat_add)
    qed
    moreover have "\<not> uwritable (mem s) root (dstva + of_nat (?n + k))" if "r = -1"
    proof -
      have k: "k < length src - ?n" "\<not> uwritable (mem s) root (?va + of_nat k)" using IH(7) that by (auto simp: wr')
      then show ?thesis using va by (simp add: add.assoc)
    qed
    ultimately show ?thesis
      using run IH(1,2,3,5,7) n uw(1) by (intro exI [of _ r] exI [of _ m] exI [of _ "?n + k"]) auto
  qed
qed


lemma uread_mapped:
  assumes "\<And>i. i < n \<Longrightarrow> uaddr m root (va + of_nat i) = Some (f i)"
  shows "uread m root va n = Some (map (\<lambda>i. m (f i)) [0..<n])"
  using assms
proof (induction n)
  case (Suc n)
  have "uread m root va (Suc n) = uread m root va (n + 1)" by simp
  also have "\<dots> = Some (map (\<lambda>i. m (f i)) [0..<n] @ [m (f n)])"
    unfolding uread_add using Suc by simp
  finally show ?case by simp
qed simp

section \<open>An example address space\<close>

text \<open>One page mapped for the user at address 0, read and write.\<close>

definition um0_root :: u64 where "um0_root = PHYSTOP - 4096"
definition um0_t1 :: u64 where "um0_t1 = PHYSTOP - 8192"
definition um0_t0 :: u64 where "um0_t0 = PHYSTOP - 12288"
definition um0_page :: u64 where "um0_page = PHYSTOP - 16384"
definition um0_end :: u64 where "um0_end = PHYSTOP - 20480"

definition um0_pte :: u64 where "um0_pte = PA2PTE um0_page OR (PTE_R OR PTE_W OR PTE_U OR PTE_V)"

definition um0 :: memory where
  "um0 = store64 (store64 (store64 (\<lambda>_. 0) (slot um0_root 0) (PA2PTE um0_t1 OR PTE_V))
     (slot um0_t1 0) (PA2PTE um0_t0 OR PTE_V)) (slot um0_t0 0) um0_pte"

lemmas um0_addrs = um0_root_def um0_t1_def um0_t0_def um0_page_def um0_end_def PHYSTOP_def KERNBASE_def

lemma um0_pages [simp]:
  "page_ok um0_end um0_root" "page_ok um0_end um0_t1" "page_ok um0_end um0_t0"
  "um0_t1 \<noteq> um0_root" "um0_t0 \<noteq> um0_root" "um0_t0 \<noteq> um0_t1" "um0_page \<noteq> um0_root" "um0_page \<noteq> um0_t1"
  "um0_page \<noteq> um0_t0" "um0_page \<noteq> 0" "0 < um0_end"
  by (simp_all add: page_ok_def aligned_def um0_addrs)

lemma um0_aligned [simp]: "aligned um0_root" "aligned um0_t1" "aligned um0_t0"
  by (rule page_ok_aligned, rule um0_pages)+

lemma um0_pte_props: "PTE2PA um0_pte = um0_page" "user_pte um0_pte" "um0_pte AND PTE_W \<noteq> 0"
proof -
  show a: "PTE2PA um0_pte = um0_page"
    unfolding um0_pte_def
    by (rule PTE2PA_PA2PTE) (simp_all add: um0_addrs PTE_R_def PTE_W_def PTE_U_def PTE_V_def)
  show "um0_pte AND PTE_W \<noteq> 0" "user_pte um0_pte"
    unfolding user_pte_def a
    by (simp_all add: um0_pte_def PA2PTE_def um0_addrs PTE_R_def PTE_W_def PTE_U_def PTE_V_def)
qed

lemma um0_tree:
  "wf_pt um0_end um0 um0_root" "va < MAXVA \<Longrightarrow> lpte um0 um0_root va = (if vpn va = 0 then um0_pte else 0)"
  "tables um0 um0_root = {um0_root, um0_t1, um0_t0}"
proof -
  let ?z = "(\<lambda>_. 0) :: memory"
  let ?m1 = "store64 ?z (slot um0_root 0) (PA2PTE um0_t1 OR PTE_V)"
  let ?m2 = "store64 ?m1 (slot um0_t1 0) (PA2PTE um0_t0 OR PTE_V)"
  have n0: "node ?z um0_root is = (if is = [] then Some um0_root else None)" for "is" by (cases "is") simp_all
  have t0: "tables ?z um0_root = {um0_root}" by (auto simp: tables_def n0 split: if_splits)
  have w0: "wf_pt um0_end ?z um0_root" by (auto simp: wf_pt_def t0 n0 split: if_splits)
  have l0: "lpte ?z um0_root va = 0" for va by (simp add: lpte_def n0 vpath_def)
  have p: "[] \<in> paths 1" "[0] \<in> paths 1" "[0] \<in> paths 3" "[0, 0] \<in> paths 3" by (simp_all add: paths_def)
  have nt1: "um0_t1 \<notin> tables ?z um0_root" by (simp add: t0)
  note a1 = add_table [OF w0 p(1) node.simps(1) _ _ um0_pages(2) nt1, of 0 ?z, simplified]
  have n1: "node ?m1 um0_root [0] = Some um0_t1" using a1(1) [OF p(3)] by simp
  have e1: "load64 ?m1 (slot um0_t1 j) = 0" "load64 ?m1 (slot um0_t0 j) = 0" if "j < 512" for j
    using load_store_slot [of um0_root um0_t1 0 j ?z] load_store_slot [of um0_root um0_t0 0 j ?z] that
    um0_pages(4,5) by auto
  have e10: "load64 ?m1 (slot um0_t1 0) AND PTE_V = 0" using e1(1) [of 0] by simp
  have nt0: "um0_t0 \<notin> tables ?m1 um0_root" by (simp add: a1(2) t0)
  note a2 = add_table [OF a1(3) p(2) n1 _ _ um0_pages(3) nt0, of 0 ?m1, simplified, OF e10 e1(2), simplified]
  have px0: "px l 0 = 0" for l by (simp add: px_alt)
  have n2: "node ?m2 um0_root (vpath 0) = Some um0_t0" using a2(1) [OF p(4)] by (simp add: vpath_def px0)
  have m0: "(0 :: u64) < MAXVA" by (simp add: MAXVA_def)
  note sl = store_leaf [OF a2(3) n2 m0, where v = um0_pte, unfolded px0, folded um0_def]
  show "wf_pt um0_end um0 um0_root" by (rule sl(3))
  show "tables um0 um0_root = {um0_root, um0_t1, um0_t0}" using sl(2) a2(2) a1(2) by (auto simp: t0)
  show "lpte um0 um0_root va = (if vpn va = 0 then um0_pte else 0)" if "va < MAXVA"
    using sl(4) [OF that] a2(4) a1(4) l0 by (simp add: same_page_def vpn_def)
qed

lemma um0_user: "user_inv um0_end um0 um0_root"
  using um0_tree(1) um0_pte_props
  by (auto simp: user_inv_def um0_tree(2,3) same_page_vpn user_pte_def)


section \<open>Correctness of copyout\<close>

text \<open>
  C13. \<^verbatim>\<open>copyout\<close> writes through the page table byte by byte: it returns 0 exactly if every target byte is in
  a page mapped for the user with write permission, and then memory holds the bytes there; otherwise it
  returns \<open>-1\<close> having written exactly the bytes before the first one that is not writable. No other byte
  of physical memory changes, and the page table still maps every page as before.
\<close>
theorem copyout_correct:
  assumes "user_inv e (mem s) root" and "length src < 2 ^ 64"
  shows "\<exists>r m k. copyout root dstva src s = Ok r (s\<lparr>mem := m\<rparr>) \<and> user_inv e m root \<and>
    (\<forall>va. lpte m root va = lpte (mem s) root va) \<and> uwritten (mem s) root dstva (take k src) m \<and>
    (\<forall>i < k. uwritable (mem s) root (dstva + of_nat i)) \<and>
    (r = 0 \<and> k = length src \<or> r = -1 \<and> k < length src \<and> \<not> uwritable (mem s) root (dstva + of_nat k))"
  using copyout_spec [OF assms, of dstva] by blast

definition um0_state :: kmem_state where
  "um0_state = kmem0\<lparr>mem := um0, kend := um0_end\<rparr>"

theorem copyout_correct_witness:
  "\<exists>r m k. copyout um0_root 4094 [1, 2, 3] um0_state = Ok r (um0_state\<lparr>mem := m\<rparr>) \<and>
    uwritten um0 um0_root 4094 (take k [1, 2, 3]) m \<and>
    (r = 0 \<and> k = length [1, 2, 3 :: u8] \<or> r = -1 \<and> k < length [1, 2, 3 :: u8] \<and> \<not> uwritable um0 um0_root (4094 + of_nat k))"
  using copyout_correct [of um0_end um0_state um0_root "[1, 2, 3]" 4094] um0_user
  by (simp add: um0_state_def) blast

text \<open>
  C28. What \<^verbatim>\<open>copyout\<close> has written, \<^verbatim>\<open>copyin\<close> reads back: after a successful \<^verbatim>\<open>copyout\<close> of \<open>src\<close> to \<open>va\<close>,
  \<^verbatim>\<open>copyin\<close> of as many bytes from \<open>va\<close> succeeds with \<open>src\<close>, and every user byte outside the range
  reads as before.
\<close>
theorem copyout_copyin:
  assumes "user_inv e (mem s) root" and "length src < 2 ^ 64" and "copyout root va src s = Ok 0 t"
  shows "copyin root va (length src) t = Ok (0, src) t \<and>
    (\<forall>va'. (\<forall>i < length src. va' \<noteq> va + of_nat i) \<longrightarrow> uread (mem t) root va' 1 = uread (mem s) root va' 1)"
proof -
  obtain m where t: "t = s\<lparr>mem := m\<rparr>" and inv: "user_inv e m root" and l: "\<And>va. lpte m root va = lpte (mem s) root va"
      and w: "uwritten (mem s) root va src m" and wr: "\<forall>i < length src. uwritable (mem s) root (va + of_nat i)"
    using copyout_spec [OF assms(1,2), of va] assms(3) by auto
  have ua: "uaddr m root va = uaddr (mem s) root va" for va by (simp add: uaddr_def l)
  define f where "f i = the (uaddr (mem s) root (va + of_nat i))" for i
  have f: "uaddr (mem s) root (va + of_nat i) = Some (f i)" if "i < length src" for i
    using wr that by (auto simp: f_def uwritable_def)
  have "uread m root va (length src) = Some (map (\<lambda>i. m (f i)) [0..<length src])"
    by (rule uread_mapped) (simp add: ua f)
  also have "map (\<lambda>i. m (f i)) [0..<length src] = src"
    using w f by (intro nth_equalityI) (simp_all add: uwritten_def)
  finally have "copyin root va (length src) t = Ok (0, src) t"
    using copyin_spec [of e t root va "length src"] inv by (auto simp: t user_inv_def)
  moreover have "uread m root va' 1 = uread (mem s) root va' 1" if "\<forall>i < length src. va' \<noteq> va + of_nat i" for va'
  proof (cases "uaddr (mem s) root va'")
    case (Some a)
    then have "\<forall>i < length src. uaddr (mem s) root (va + of_nat i) \<noteq> Some a"
      using uaddr_inj [OF assms(1) Some] that by blast
    then have "m a = mem s a" using w by (simp add: uwritten_def)
    with Some show ?thesis by (simp add: ua)
  qed (simp add: ua)
  ultimately show ?thesis by (simp add: t)
qed

lemma um0_writable: "unat va < 4096 \<Longrightarrow> uwritable um0 um0_root va"
proof -
  assume "unat va < 4096"
  moreover from this have "va < MAXVA" by (simp add: MAXVA_def word_less_nat_alt)
  ultimately show ?thesis
    using um0_pte_props by (simp add: uwritable_def uaddr_def um0_tree(2) vpn_def)
qed

theorem copyout_copyin_witness:
  "\<exists>t. copyout um0_root 16 [1, 2, 3] um0_state = Ok 0 t \<and> copyin um0_root 16 3 t = Ok (0, [1, 2, 3]) t"
proof -
  have inv: "user_inv um0_end (mem um0_state) um0_root" using um0_user by (simp add: um0_state_def)
  have wr: "uwritable (mem um0_state) um0_root (16 + of_nat k)" if "k < 3" for k
    using that by (simp add: um0_state_def, intro um0_writable) (auto simp: less_Suc_eq numeral_3_eq_3)
  have l: "length [1, 2, 3 :: u8] < 2 ^ 64" "length [1, 2, 3 :: u8] = 3" by simp_all
  obtain t where t: "copyout um0_root 16 [1, 2, 3] um0_state = Ok 0 t"
    using copyout_spec [OF inv l(1), of 16] wr unfolding l(2) by blast
  with copyout_copyin [OF inv l(1) t] show ?thesis unfolding l(2) by blast
qed

end
