(* ===== verification/Fs_Inode.thy ===== *)
theory Fs_Inode
  imports Fs_Block Vm_Copy
begin

text \<open>
  Reading files (\<^verbatim>\<open>bmap\<close> and \<^verbatim>\<open>readi\<close> of \<^verbatim>\<open>kernel/fs.c\<close>): the blocks of an inode, direct and indirect, stand for a sequence
  of bytes, and \<^verbatim>\<open>readi\<close> delivers parts of it to user memory, to a kernel page, or to the kernel stack.
\<close>

section \<open>Delivering bytes\<close>

text \<open>
  What copying \<open>bs\<close> to a destination does to memory, and when it succeeds. \<open>root\<close> is the page table of the process.
\<close>

fun delivered :: "cdst \<Rightarrow> u64 \<Rightarrow> memory \<Rightarrow> u8 list \<Rightarrow> memory \<Rightarrow> bool" where
  "delivered LocalDst root m bs m' = (m' = m)"
| "delivered (KernDst a) root m bs m' = (m' = mem_write m a bs)"
| "delivered (UserDst a) root m bs m' = (uwritten m root a bs m' \<and> (\<forall>va. lpte m' root va = lpte m root va))"

fun deliverable :: "u64 \<Rightarrow> cdst \<Rightarrow> u64 \<Rightarrow> memory \<Rightarrow> nat \<Rightarrow> bool" where
  "deliverable e LocalDst root m n = True"
| "deliverable e (KernDst a) root m n = True"
| "deliverable e (UserDst a) root m n = (user_inv e m root \<and> (\<forall>j < n. uwritable m root (a + of_nat j)))"

lemma delivered_Nil: "delivered dst root m [] m"
  by (cases dst) (simp_all add: mem_write_def uwritten_def)

lemma mem_write_append:
  assumes "length bs + length cs < 2 ^ 64"
  shows "mem_write (mem_write m a bs) (a + of_nat (length bs)) cs = mem_write m a (bs @ cs)"
proof
  fix x
  have u: "unat (of_nat (length bs) :: u64) = length bs" using assms by (intro unat_of_nat64) simp
  have e: "x - (a + of_nat (length bs)) = (x - a) - of_nat (length bs)" by simp
  show "mem_write (mem_write m a bs) (a + of_nat (length bs)) cs x = mem_write m a (bs @ cs) x"
  proof (cases "length bs \<le> unat (x - a)")
    case True
    then have "unat (x - (a + of_nat (length bs))) = unat (x - a) - length bs" unfolding e by (intro unat_minus_of_nat)
    then show ?thesis using True by (auto simp: mem_write_def nth_append)
  next
    case False
    then have "unat ((x - a) - of_nat (length bs)) = 2 ^ 64 + unat (x - a) - length bs"
      using u unat_sub_if' [of "x - a" "of_nat (length bs)"] by simp
    then have "\<not> unat (x - (a + of_nat (length bs))) < length cs" using assms False unfolding e by simp
    then show ?thesis using False by (simp add: mem_write_def nth_append)
  qed
qed

lemma either_copyout_run:
  assumes "proc_ctx p s" "deliverable e dst (p_pagetable (procs s ! p)) (mem s) (length bs + n)" "length bs < 2 ^ 64"
  shows "\<exists>m. either_copyout dst bs s = Ok 0 ((touch s)\<lparr>mem := m\<rparr>) \<and> delivered dst (p_pagetable (procs s ! p)) (mem s) bs m \<and>
    deliverable e (cdst_add dst (length bs)) (p_pagetable (procs s ! p)) m n"
proof (cases dst)
  case (UserDst a)
  let ?r = "p_pagetable (procs s ! p)"
  have "user_inv e (mem (touch s)) ?r" using assms(2) UserDst by simp
  from copyout_spec [OF this assms(3), of a]
  obtain r m k where m: "copyout ?r a bs (touch s) = Ok r ((touch s)\<lparr>mem := m\<rparr>)" "user_inv e m ?r"
      "\<And>va. lpte m ?r va = lpte (mem s) ?r va" "uwritten (mem s) ?r a (take k bs) m"
      "r = 0 \<and> k = length bs \<or> r = -1 \<and> k < length bs \<and> \<not> uwritable (mem s) ?r (a + of_nat k)"
    by auto
  have w: "uwritable (mem s) ?r (a + of_nat j)" if "j < length bs + n" for j using assms(2) UserDst that by simp
  then have "r = 0" "k = length bs" using m(5) by auto
  moreover have "uwritable m ?r (a + of_nat (length bs) + of_nat j)" if "j < n" for j
    using w [of "length bs + j"] that uwritable_lpte [OF m(3)] by (simp add: add.assoc)
  ultimately show ?thesis
    using m UserDst proc_ctxD [OF assms(1)] by (intro exI [of _ m]) (simp add: either_copyout_def kM_simps curproc_run)
next
  case (KernDst a)
  then show ?thesis using proc_ctxD [OF assms(1)] by (auto simp: either_copyout_def kM_simps curproc_run)
next
  case LocalDst
  have "touch s = (touch s)\<lparr>mem := mem s\<rparr>" by (cases s) (simp add: touch_def Let_def)
  then show ?thesis using LocalDst proc_ctxD [OF assms(1)] by (intro exI [of _ "mem s"]) (simp add: either_copyout_def kM_simps curproc_run)
qed

lemma delivered_append:
  assumes "delivered dst root m bs m'" "deliverable e dst root m k" "delivered (cdst_add dst (length bs)) root m' cs m''"
    "length bs + length cs < 2 ^ 64"
  shows "delivered dst root m (bs @ cs) m''"
proof (cases dst)
  case (UserDst a)
  have "\<And>va. uaddr m' root va = uaddr m root va" using assms(1) UserDst by (simp add: uaddr_def)
  then show ?thesis using assms UserDst uwritten_append [of e m root a bs m' cs m''] by simp
qed (use assms mem_write_append in auto)

section \<open>The blocks of a file\<close>

text \<open>The address of block \<open>bn\<close> of a file (0 where there is none), and its bytes.\<close>

definition baddr :: "(u32 \<Rightarrow> u8 list) \<Rightarrow> inode \<Rightarrow> nat \<Rightarrow> u32" where
  "baddr V i bn = (if bn < NDIRECT then i_addrs i ! bn
     else if i_addrs i ! NDIRECT = 0 then 0 else get32 (4 * (bn - NDIRECT)) (V (i_addrs i ! NDIRECT)))"

definition fbyte :: "(u32 \<Rightarrow> u8 list) \<Rightarrow> inode \<Rightarrow> nat \<Rightarrow> u8" where
  "fbyte V i off = V (baddr V i (off div BSIZE)) ! (off mod BSIZE)"

definition fbytes :: "(u32 \<Rightarrow> u8 list) \<Rightarrow> inode \<Rightarrow> nat \<Rightarrow> nat \<Rightarrow> u8 list" where
  "fbytes V i off n = map (fbyte V i) [off..<off + n]"

text \<open>A file without holes, none of whose blocks is locked.\<close>

definition file_ok :: "(u32 \<Rightarrow> nat option) \<Rightarrow> (u32 \<Rightarrow> u8 list) \<Rightarrow> inode \<Rightarrow> bool" where
  "file_ok H V i \<longleftrightarrow> i_dev i = ROOTDEV \<and> unat (i_size i) \<le> MAXFILE * BSIZE \<and> H (i_addrs i ! NDIRECT) = None \<and>
     (\<forall>off < unat (i_size i). baddr V i (off div BSIZE) \<noteq> 0 \<and> H (baddr V i (off div BSIZE)) = None \<and>
        length (V (baddr V i (off div BSIZE))) = BSIZE)"

lemma bmap_lookup:
  assumes tx: "tx p ls L H V s" and dev: "i_dev (inodes s ip) = ROOTDEV" and bn: "bn < MAXFILE" "baddr V (inodes s ip) bn \<noteq> 0"
    and H: "H (i_addrs (inodes s ip) ! NDIRECT) = None" and room: "length L + card (dom H) < NBUF"
  shows "\<exists>t. bmap ip bn s = Ok (baddr V (inodes s ip) bn) t \<and> tx p ls L H V t \<and> tframe p s t"
proof (cases "bn < NDIRECT")
  case True
  then show ?thesis using tx bn tframe_refl by (auto simp: bmap_def kM_simps getinode_def baddr_def)
next
  case False
  let ?a = "i_addrs (inodes s ip) ! NDIRECT"
  have a: "?a \<noteq> 0" "get32 (4 * (bn - NDIRECT)) (V ?a) \<noteq> 0" "baddr V (inodes s ip) bn = get32 (4 * (bn - NDIRECT)) (V ?a)"
    using False bn(2) by (auto simp: baddr_def split: if_splits)
  have n: "bn - NDIRECT < NINDIRECT" using bn(1) False by (simp add: MAXFILE_def)
  obtain x t where t: "bread ROOTDEV ?a s = Ok x t" "tx p ls L (H(?a \<mapsto> x)) V t" "tframe p s t" "bdata x t = Ok (V ?a) t"
      "?a \<in> set L \<or> V ?a = disk t ?a"
    using lb.open_block [OF tx H room] .
  obtain u where u: "brelse x t = Ok () u" "tx p ls L H V u" "tframe p t u" using lb.close_block [OF t(2) H t(5)] .
  have "bmap ip bn s = Ok (baddr V (inodes s ip) bn) u"
    using False a n t(1,4) u(1) dev by (simp add: bmap_def kM_simps getinode_def Let_def)
  then show ?thesis using u(2) tframe_trans [OF t(3) u(3)] by blast
qed

section \<open>Reading\<close>

definition rframe :: "nat \<Rightarrow> 'a fs_state_scheme \<Rightarrow> 'a fs_state_scheme \<Rightarrow> bool" where
  "rframe p s t \<longleftrightarrow> tframe p (s\<lparr>mem := mem t\<rparr>) t"

lemma rframe_trans: "rframe p s t \<Longrightarrow> rframe p t u \<Longrightarrow> rframe p s u"
  unfolding rframe_def tframe_def by (auto intro: procs_frame_trans)

lemma tframe_rframe: "tframe p s t \<Longrightarrow> rframe p s t"
  by (simp add: rframe_def tframe_def)

lemma rframe_mem: "rframe p s ((touch s)\<lparr>mem := m\<rparr>)" "rframe p s (s\<lparr>mem := m\<rparr>)"
  by (simp_all add: rframe_def tframe_def procs_frame_refl)

lemma rframeD: "rframe p s t \<Longrightarrow> inodes t = inodes s" "rframe p s t \<Longrightarrow> procs t ! p = procs s ! p" "rframe p s t \<Longrightarrow> sb t = sb s"
  by (simp_all add: rframe_def tframe_def procs_frame_def)

lemma tx_mem [simp]: "tx p ls L H V (s\<lparr>mem := m\<rparr>) = tx p ls L H V s" "tx p ls L H V (touch s) = tx p ls L H V s"
proof -
  have "bc p H V (holds H L) (s\<lparr>mem := m\<rparr>) = bc p H V (holds H L) s"
    by (rule bc_cong) (simp_all add: proc_ctx_def cpu_inv_def lock_free_def sie_def)
  then show "tx p ls L H V (s\<lparr>mem := m\<rparr>) = tx p ls L H V s" by (simp add: tx_def log_hdr_def)
qed (simp add: tx_def log_hdr_def)

lemma tx_ctx: "tx p ls L H V s \<Longrightarrow> proc_ctx p s"
  by (simp add: tx_def bc_def)

lemma length_fbytes [simp]: "length (fbytes V i off n) = n"
  by (simp add: fbytes_def)

lemma fbytes_split: "m \<le> n \<Longrightarrow> fbytes V i off n = fbytes V i off m @ fbytes V i (off + m) (n - m)"
proof -
  assume "m \<le> n"
  then have "[off..<off + n] = [off..<off + m] @ [off + m..<off + n]" by (metis add_le_cancel_left le_add1 upt_add_eq_append ordered_cancel_comm_monoid_diff_class.add_diff_inverse)
  then show ?thesis using \<open>m \<le> n\<close> by (simp add: fbytes_def)
qed

lemma fbytes_block:
  assumes "off mod BSIZE + m \<le> BSIZE" "length (V (baddr V i (off div BSIZE))) = BSIZE"
  shows "fbytes V i off m = take m (drop (off mod BSIZE) (V (baddr V i (off div BSIZE))))"
proof (rule nth_equalityI)
  fix j assume "j < length (fbytes V i off m)"
  then have j: "j < m" by simp
  then have "off mod BSIZE + j < BSIZE" using assms(1) by simp
  then have "(off + j) div BSIZE = off div BSIZE" "(off + j) mod BSIZE = off mod BSIZE + j"
    by (metis add.assoc div_less div_mult_mod_eq div_mult_self3 add_0_right not_less_zero mult.commute, metis add.assoc add.commute mod_less mod_add_left_eq)
  then show "fbytes V i off m ! j = take m (drop (off mod BSIZE) (V (baddr V i (off div BSIZE)))) ! j"
    using j assms by (simp add: fbytes_def fbyte_def)
qed (use assms in simp)

text \<open>One round of the loop of \<^verbatim>\<open>readi\<close>.\<close>

lemma readi_round:
  assumes tx: "tx p ls L H V s" and ip: "inodes s ip = i" and ok: "file_ok H V i" and sz: "off + left \<le> unat (i_size i)" "0 < left"
    and room: "length L + card (dom H) < NBUF" and root: "p_pagetable (procs s ! p) = root" and dv: "deliverable e dst root (mem s) left"
    and m: "m = min left (BSIZE - off mod BSIZE)"
  shows "\<exists>t. (\<forall>tot. readi_loop ip dst off left tot s = bindO (readi_loop ip (cdst_add dst m) (off + m) (left - m) (tot + int m) t)
      (\<lambda>(r, rest). returnK (r, fbytes V i off m @ rest))) \<and> tx p ls L H V t \<and> rframe p s t \<and>
    delivered dst root (mem s) (fbytes V i off m) (mem t) \<and> deliverable e (cdst_add dst m) root (mem t) (left - m)"
proof -
  let ?bn = "off div BSIZE"
  let ?b = "baddr V i ?bn"
  have m': "m \<le> left" "off mod BSIZE + m \<le> BSIZE" using sz(2) by (auto simp: m BSIZE_def)
  have i: "i_dev i = ROOTDEV" "?b \<noteq> 0" "H ?b = None" "length (V ?b) = BSIZE" "H (i_addrs i ! NDIRECT) = None" "?bn < MAXFILE"
    using ok sz by (auto simp: file_ok_def less_mult_imp_div_less)
  obtain t1 where t1: "bmap ip ?bn s = Ok ?b t1" "tx p ls L H V t1" "tframe p s t1"
    using bmap_lookup [OF tx, of ip ?bn] ip i room by auto
  have f1: "inodes t1 = inodes s" "mem t1 = mem s" using t1(3) by (simp_all add: tframe_def)
  obtain x t2 where t2: "bread ROOTDEV ?b t1 = Ok x t2" "tx p ls L (H(?b \<mapsto> x)) V t2" "tframe p t1 t2" "bdata x t2 = Ok (V ?b) t2"
      "?b \<in> set L \<or> V ?b = disk t2 ?b"
    using lb.open_block [OF t1(2) i(3) room] .
  have s2: "rframe p s t2" using tframe_rframe [OF tframe_trans [OF t1(3) t2(3)]] .
  have r2: "p_pagetable (procs t2 ! p) = root" "mem t2 = mem s" using rframeD [OF s2] t2(3) f1 root by (simp_all add: tframe_def)
  let ?bs = "take m (drop (off mod BSIZE) (V ?b))"
  have bs: "?bs = fbytes V i off m" "length ?bs = m" using fbytes_block [of off m V i] m'(2) i(4) by simp_all
  have d2: "deliverable e dst (p_pagetable (procs t2 ! p)) (mem t2) (length ?bs + (left - m))" "length ?bs < 2 ^ 64"
    using dv r2 bs(2) m' by (simp_all add: BSIZE_def)
  obtain mm where c: "either_copyout dst ?bs t2 = Ok 0 ((touch t2)\<lparr>mem := mm\<rparr>)" "delivered dst root (mem s) ?bs mm"
      "deliverable e (cdst_add dst m) root mm (left - m)"
    using either_copyout_run [OF tx_ctx [OF t2(2)] d2] r2 bs(2) by auto
  let ?t3 = "(touch t2)\<lparr>mem := mm\<rparr>"
  have t3: "tx p ls L (H(?b \<mapsto> x)) V ?t3" "?b \<in> set L \<or> V ?b = disk ?t3 ?b" using t2(2,5) by simp_all
  obtain t4 where t4: "brelse x ?t3 = Ok () t4" "tx p ls L H V t4" "tframe p ?t3 t4" using lb.close_block [OF t3(1) i(3) t3(2)] .
  have "rframe p s t4" using rframe_trans [OF s2 rframe_trans [OF rframe_mem(1) tframe_rframe [OF t4(3)]]] .
  moreover have "mem t4 = mm" using t4(3) by (simp add: tframe_def)
  moreover have "readi_loop ip dst off left tot s = bindO (readi_loop ip (cdst_add dst m) (off + m) (left - m) (tot + int m) t4)
      (\<lambda>(r, rest). returnK (r, fbytes V i off m @ rest))" for tot
    using sz(2) t1(1) t2(1,4) c(1) t4(1) i(1,2) f1 ip bs(1)
    by (subst readi_loop.simps) (simp add: kM_simps getinode_def Let_def m [symmetric])
  ultimately show ?thesis using t4(2) c(2,3) bs(1) by (intro exI [of _ t4]) simp
qed

lemma readi_loop_run:
  assumes "tx p ls L H V s" "inodes s ip = i" "file_ok H V i" "off + left \<le> unat (i_size i)" "length L + card (dom H) < NBUF"
    "p_pagetable (procs s ! p) = root" "deliverable e dst root (mem s) left"
  shows "\<exists>t. readi_loop ip dst off left tot s = Ok (tot + int left, fbytes V i off left) t \<and> tx p ls L H V t \<and> rframe p s t \<and>
    delivered dst root (mem s) (fbytes V i off left) (mem t)"
  using assms(1,2,4,6,7)
proof (induction left arbitrary: s dst off tot rule: less_induct)
  case (less left)
  show ?case
  proof (cases "left = 0")
    case True
    then show ?thesis using less.prems(1) delivered_Nil tframe_rframe [OF tframe_refl] by (auto simp: readi_loop.simps kM_simps fbytes_def)
  next
    case False
    define m where "m = min left (BSIZE - off mod BSIZE)"
    have m: "0 < m" "m \<le> left" using False by (auto simp: m_def BSIZE_def)
    obtain t1 where t1: "\<And>tot. readi_loop ip dst off left tot s = bindO (readi_loop ip (cdst_add dst m) (off + m) (left - m) (tot + int m) t1)
        (\<lambda>(r, rest). returnK (r, fbytes V i off m @ rest))" "tx p ls L H V t1" "rframe p s t1"
        "delivered dst root (mem s) (fbytes V i off m) (mem t1)" "deliverable e (cdst_add dst m) root (mem t1) (left - m)"
      using readi_round [OF less.prems(1,2) assms(3) less.prems(3) _ assms(5) less.prems(4,5) m_def] False by auto
    obtain t where t: "readi_loop ip (cdst_add dst m) (off + m) (left - m) (tot + int m) t1 =
          Ok (tot + int m + int (left - m), fbytes V i (off + m) (left - m)) t" "tx p ls L H V t" "rframe p t1 t"
        "delivered (cdst_add dst m) root (mem t1) (fbytes V i (off + m) (left - m)) (mem t)"
      using less.IH [OF _ t1(2), of "left - m" "off + m" "cdst_add dst m" "tot + int m"] less.prems(2-4) rframeD [OF t1(3)] m t1(5) by auto
    have "unat (i_size i) < 2 ^ 32" using unsigned_less [of "i_size i"] by simp
    then have "left < 2 ^ 64" using less.prems(3) by simp
    then have "delivered dst root (mem s) (fbytes V i off m @ fbytes V i (off + m) (left - m)) (mem t)"
      using delivered_append [OF t1(4) less.prems(5)] t(4) m(2) by simp
    then show ?thesis
      using t1(1) t(1,2) rframe_trans [OF t1(3) t(3)] fbytes_split [OF m(2), of V i off] m(2) by (auto simp: kM_simps)
  qed
qed

text \<open>The number of bytes that \<^verbatim>\<open>readi\<close> delivers.\<close>

definition read_count :: "inode \<Rightarrow> u32 \<Rightarrow> u32 \<Rightarrow> nat" where
  "read_count i off n = (if i_size i < off \<or> off + n < off then 0 else min (unat n) (unat (i_size i) - unat off))"

lemma read_count_le: "read_count i off n \<noteq> 0 \<Longrightarrow> unat off + read_count i off n \<le> unat (i_size i)"
  by (auto simp: read_count_def word_less_nat_alt)

lemma readi_run:
  assumes "tx p ls L H V s" "inodes s ip = i" "file_ok H V i" "length L + card (dom H) < NBUF"
    "p_pagetable (procs s ! p) = root" "deliverable e dst root (mem s) (read_count i off n)"
  shows "\<exists>t. readi ip dst off n s = Ok (int (read_count i off n), fbytes V i (unat off) (read_count i off n)) t \<and> tx p ls L H V t \<and>
    rframe p s t \<and> delivered dst root (mem s) (fbytes V i (unat off) (read_count i off n)) (mem t)"
proof (cases "i_size i < off \<or> off + n < off")
  case True
  then show ?thesis
    using assms(1,2) delivered_Nil tframe_rframe [OF tframe_refl]
    by (auto simp: readi_def kM_simps getinode_def read_count_def fbytes_def)
next
  case False
  have "unat n < 2 ^ 32" using unsigned_less [of n] by simp
  then have on: "unat (off + n) = unat off + unat n" using False by (auto simp: unat_plus_if' word_less_nat_alt split: if_splits)
  have k: "unat (if i_size i < off + n then i_size i - off else n) = read_count i off n"
  proof (cases "i_size i < off + n")
    case True
    have "unat (i_size i - off) = unat (i_size i) - unat off" using False by (intro unat_sub) (simp add: not_less)
    then show ?thesis using True False on by (simp add: read_count_def word_less_nat_alt)
  next
    case le: False
    then show ?thesis using False on by (simp add: read_count_def word_less_nat_alt)
  qed
  have "unat off + read_count i off n \<le> unat (i_size i)" using False by (auto simp: read_count_def word_less_nat_alt)
  then show ?thesis
    using readi_loop_run [OF assms(1-3) _ assms(4-6), of "unat off" 0] False assms(2) k
    by (simp add: readi_def kM_simps getinode_def Let_def)
qed

text \<open>
  C8. \<^verbatim>\<open>readi\<close> reads the file: for a file without holes it returns the number of bytes from the offset on, at most the
  number asked for and at most up to the end of the file (0 past the end, or when offset and count overflow), copies
  exactly these bytes of the file, in order, through direct and indirect blocks, to the destination in user memory, in
  a kernel page or on the kernel stack, and changes neither the file nor other memory.
\<close>

theorem readi_correct:
  assumes "tx p ls L H V s" and "file_ok H V (inodes s ip)" and "length L + card (dom H) < NBUF"
    and "deliverable e dst (p_pagetable (procs s ! p)) (mem s) (read_count (inodes s ip) off n)"
  shows "\<exists>t. readi ip dst off n s =
      Ok (int (read_count (inodes s ip) off n), fbytes V (inodes s ip) (unat off) (read_count (inodes s ip) off n)) t \<and>
    delivered dst (p_pagetable (procs s ! p)) (mem s) (fbytes V (inodes s ip) (unat off) (read_count (inodes s ip) off n)) (mem t) \<and>
    tx p ls L H V t \<and> rframe p s t"
  using readi_run [OF assms(1) refl assms(2,3) refl assms(4)] by blast

definition ino0 :: inode where
  "ino0 = \<lparr>i_dev = ROOTDEV, i_inum = 5, i_ref = 1, i_valid = True, i_type = T_FILE, i_major = 0, i_minor = 0, i_nlink = 1, i_size = 1024,
     i_addrs = 50 # replicate 12 0\<rparr>"

lemma ino0_ok: "file_ok Map.empty (fsw_D(50 := replicate BSIZE 7)) ino0"
  by (auto simp: file_ok_def ino0_def baddr_def NDIRECT_def MAXFILE_def NINDIRECT_def BSIZE_def)

theorem readi_correct_witness: "\<exists>(s :: fs_state) t. readi 3 LocalDst 1020 10 s = Ok (4, [7, 7, 7, 7]) t"
proof -
  obtain s :: fs_state where s: "tx 0 2 [] Map.empty (fsw_D(50 := replicate BSIZE 7)) s" "inodes s = (\<lambda>_. ino0)"
    using tx_exists [of "fsw_D(50 := replicate BSIZE 7)" fsw_S "\<lambda>_. ino0"] by blast
  have "read_count ino0 1020 10 = 4" by (simp add: read_count_def ino0_def)
  moreover have "fbytes (fsw_D(50 := replicate BSIZE 7)) ino0 1020 4 = [7, 7, 7, 7]"
    by (simp add: fbytes_def fbyte_def baddr_def ino0_def NDIRECT_def BSIZE_def upt_rec)
  ultimately show ?thesis
    using readi_correct [OF s(1), of 3 0 LocalDst 1020 10] ino0_ok by (auto simp: s(2) NBUF_def MAXOPBLOCKS_def)
qed

end
