(* ===== verification/Fs_Itable.thy ===== *)
theory Fs_Itable
  imports Fs_Inode
begin

text \<open>
  The inode table (\<^verbatim>\<open>iget\<close>, \<^verbatim>\<open>idup\<close>, \<^verbatim>\<open>ilock\<close>, \<^verbatim>\<open>iunlock\<close>, \<^verbatim>\<open>iput\<close> of \<^verbatim>\<open>kernel/fs.c\<close>): the table has at most one entry for an
  inode, a valid entry is a copy of the inode on disk, and each call changes the reference count of one inode.
\<close>

section \<open>The inode table\<close>

text \<open>The inode on disk, and that a table entry is a copy of it.\<close>

definition dino :: "(u32 \<Rightarrow> u8 list) \<Rightarrow> superblock \<Rightarrow> u32 \<Rightarrow> dinode" where
  "dino V S inum = get_dinode (dinode_off inum) (V (IBLOCK inum S))"

definition copy_of :: "inode \<Rightarrow> dinode \<Rightarrow> bool" where
  "copy_of i di \<longleftrightarrow> i_type i = di_type di \<and> i_major i = di_major di \<and> i_minor i = di_minor di \<and> i_nlink i = di_nlink di \<and>
     i_size i = di_size di \<and> i_addrs i = di_addrs di"

definition entry_ok :: "(u32 \<Rightarrow> u8 list) \<Rightarrow> superblock \<Rightarrow> inode \<Rightarrow> bool" where
  "entry_ok V S i \<longleftrightarrow> 0 \<le> i_ref i \<and> (0 < i_ref i \<longrightarrow> i_dev i = ROOTDEV \<and> (i_valid i \<longrightarrow> copy_of i (dino V S (i_inum i))))"

definition itab :: "(u32 \<Rightarrow> u8 list) \<Rightarrow> superblock \<Rightarrow> (nat \<Rightarrow> inode) \<Rightarrow> bool" where
  "itab V S T \<longleftrightarrow> (\<forall>ip < NINODE. entry_ok V S (T ip)) \<and>
     (\<forall>ip < NINODE. \<forall>jp < NINODE. 0 < i_ref (T ip) \<and> 0 < i_ref (T jp) \<and> i_inum (T ip) = i_inum (T jp) \<longrightarrow> ip = jp)"

lemma itabD:
  assumes "itab V S T" "ip < NINODE"
  shows "0 \<le> i_ref (T ip)" "0 < i_ref (T ip) \<Longrightarrow> i_dev (T ip) = ROOTDEV"
    "0 < i_ref (T ip) \<Longrightarrow> i_valid (T ip) \<Longrightarrow> copy_of (T ip) (dino V S (i_inum (T ip)))"
    "jp < NINODE \<Longrightarrow> 0 < i_ref (T ip) \<Longrightarrow> 0 < i_ref (T jp) \<Longrightarrow> i_inum (T ip) = i_inum (T jp) \<Longrightarrow> ip = jp"
  using assms unfolding itab_def entry_ok_def by blast+

lemma itab_upd:
  assumes "itab V S T" "ip < NINODE" "entry_ok V S j"
    "\<And>jp. jp < NINODE \<Longrightarrow> jp \<noteq> ip \<Longrightarrow> 0 < i_ref (T jp) \<Longrightarrow> 0 < i_ref j \<Longrightarrow> i_inum (T jp) \<noteq> i_inum j"
  shows "itab V S (T(ip := j))"
  using assms unfolding itab_def fun_upd_apply by metis

text \<open>The number of references to an inode number.\<close>

definition refc :: "(nat \<Rightarrow> inode) \<Rightarrow> u32 \<Rightarrow> int" where
  "refc T n = (\<Sum>ip<NINODE. if i_inum (T ip) = n then i_ref (T ip) else 0)"

lemma refc_upd:
  assumes "ip < NINODE"
  shows "refc (T(ip := j)) n = refc T n - (if i_inum (T ip) = n then i_ref (T ip) else 0) + (if i_inum j = n then i_ref j else 0)"
proof -
  let ?f = "\<lambda>T ip. if i_inum (T ip) = n then i_ref (T ip) else 0"
  have "refc U n = ?f U ip + (\<Sum>k \<in> {..<NINODE} - {ip}. ?f U k)" for U
    unfolding refc_def using assms by (intro sum.remove) auto
  moreover have "(\<Sum>k \<in> {..<NINODE} - {ip}. ?f (T(ip := j)) k) = (\<Sum>k \<in> {..<NINODE} - {ip}. ?f T k)"
    by (rule sum.cong) auto
  ultimately show ?thesis by simp
qed

lemma refc_pos:
  assumes "itab V S T" "ip < NINODE" "0 < i_ref (T ip)"
  shows "refc T (i_inum (T ip)) = i_ref (T ip)"
proof -
  have "i_ref (T k) = 0" if "k < NINODE" "k \<noteq> ip" "i_inum (T k) = i_inum (T ip)" for k
  proof -
    have "0 \<le> i_ref (T k)" "\<not> 0 < i_ref (T k)" using itabD [OF assms(1) that(1)] assms that by metis+
    then show ?thesis by simp
  qed
  then have "(\<Sum>k \<in> {..<NINODE} - {ip}. if i_inum (T k) = i_inum (T ip) then i_ref (T k) else 0) = 0"
    by (intro sum.neutral) simp
  then show ?thesis
    using assms(2) sum.remove [of "{..<NINODE}" ip "\<lambda>k. if i_inum (T k) = i_inum (T ip) then i_ref (T k) else 0"]
    by (simp add: refc_def)
qed

lemma refc_nonzero:
  assumes "itab V S T" "refc T n \<noteq> 0"
  shows "\<exists>ip < NINODE. 0 < i_ref (T ip) \<and> i_inum (T ip) = n"
proof (rule ccontr)
  assume *: "\<not> ?thesis"
  have "(if i_inum (T ip) = n then i_ref (T ip) else 0) = 0" if "ip < NINODE" for ip
  proof -
    have "0 \<le> i_ref (T ip)" using itabD(1) [OF assms(1) that] .
    then show ?thesis using * that by force
  qed
  then have "refc T n = 0" unfolding refc_def by (intro sum.neutral) simp
  then show False using assms(2) by simp
qed

text \<open>A slot is free as long as fewer inodes are referenced than the table has slots.\<close>

lemma free_slot:
  assumes "itab V S T" "card {n. refc T n \<noteq> 0} < NINODE"
  shows "\<exists>ip < NINODE. i_ref (T ip) = 0"
proof (rule ccontr)
  assume "\<not> ?thesis"
  then have pos: "0 < i_ref (T ip)" if "ip < NINODE" for ip using itabD(1) [OF assms(1) that] that by (metis less_le)
  have inj: "inj_on (\<lambda>ip. i_inum (T ip)) {..<NINODE}" using itabD(4) [OF assms(1)] pos by (auto simp: inj_on_def)
  have "(\<lambda>ip. i_inum (T ip)) ` {..<NINODE} \<subseteq> {n. refc T n \<noteq> 0}" using refc_pos [OF assms(1)] pos by force
  moreover have "finite {n. refc T n \<noteq> 0}" by simp
  ultimately have "card ((\<lambda>ip. i_inum (T ip)) ` {..<NINODE}) \<le> card {n. refc T n \<noteq> 0}" by (intro card_mono)
  then show False using assms(2) card_image [OF inj] by simp
qed

lemma iget_scan_spec:
  "fst (iget_scan T dev n ips emp) = find (\<lambda>ip. i_ref (T ip) > 0 \<and> i_dev (T ip) = dev \<and> i_inum (T ip) = n) ips"
  "fst (iget_scan T dev n ips emp) = None \<Longrightarrow>
     snd (iget_scan T dev n ips emp) = (case emp of None \<Rightarrow> find (\<lambda>ip. i_ref (T ip) = 0) ips | Some _ \<Rightarrow> emp)"
  by (induction ips arbitrary: emp) (auto split: option.splits if_splits)

section \<open>References\<close>

lemma fs_commute [lock_commute]:
  "rel lk (s\<lparr>inodes := T\<rparr>) = (rel lk s)\<lparr>inodes := T\<rparr>" "acq lk (s\<lparr>inodes := T\<rparr>) = (acq lk s)\<lparr>inodes := T\<rparr>"
  "touch (s\<lparr>inodes := T\<rparr>) = (touch s)\<lparr>inodes := T\<rparr>"
  by (simp_all add: rel_def popped_def acq_def pushed_def touch_def Let_def sie_def)

lemma itable_section:
  assumes "proc_ctx p s"
  shows "release ItableLock ((acq ItableLock s)\<lparr>inodes := T\<rparr>) = Ok () ((touch s)\<lparr>inodes := T\<rparr>)"
proof -
  note d = proc_ctxD [OF assms]
  have "release ItableLock ((acq ItableLock s)\<lparr>inodes := T\<rparr>) = Ok () (rel ItableLock ((acq ItableLock s)\<lparr>inodes := T\<rparr>))"
    by (rule section_release [OF assms]) (simp add: hart_eq_def)
  also have "rel ItableLock ((acq ItableLock s)\<lparr>inodes := T\<rparr>) = (touch s)\<lparr>inodes := T\<rparr>" using d by (simp add: lock_commute rel_acq)
  finally show ?thesis .
qed

text \<open>The table after a reference to inode \<open>n\<close> was taken in slot \<open>ip\<close>.\<close>

definition taken :: "u32 \<Rightarrow> nat \<Rightarrow> (nat \<Rightarrow> inode) \<Rightarrow> nat \<Rightarrow> inode" where
  "taken n ip T = T(ip := if 0 < i_ref (T ip) then (T ip)\<lparr>i_ref := i_ref (T ip) + 1\<rparr>
     else (T ip)\<lparr>i_dev := ROOTDEV, i_inum := n, i_ref := 1, i_valid := False\<rparr>)"

lemma iget_run:
  assumes ctx: "proc_ctx p s" and it: "itab V S (inodes s)" and room: "card {n. refc (inodes s) n \<noteq> 0} < NINODE"
  shows "\<exists>ip < NINODE. iget ROOTDEV n s = Ok ip ((touch s)\<lparr>inodes := taken n ip (inodes s)\<rparr>) \<and>
    (0 < i_ref (inodes s ip) \<longrightarrow> i_inum (inodes s ip) = n) \<and>
    (\<not> 0 < i_ref (inodes s ip) \<longrightarrow> refc (inodes s) n = 0)"
proof -
  let ?T = "inodes s"
  obtain f g where fg: "iget_scan ?T ROOTDEV n [0..<NINODE] None = (f, g)" by fastforce
  have sc: "f = find (\<lambda>ip. i_ref (?T ip) > 0 \<and> i_dev (?T ip) = ROOTDEV \<and> i_inum (?T ip) = n) [0..<NINODE]"
      "f = None \<Longrightarrow> g = find (\<lambda>ip. i_ref (?T ip) = 0) [0..<NINODE]"
    using iget_scan_spec [of ?T ROOTDEV n "[0..<NINODE]" None] fg by auto
  have acq: "acquire ItableLock s = Ok () (acq ItableLock s)" using proc_ctxD [OF ctx] by (simp add: acquire_free)
  show ?thesis
  proof (cases f)
    case (Some ip)
    then have ip: "ip < NINODE" "0 < i_ref (?T ip)" "i_inum (?T ip) = n" using sc(1) by (auto simp: find_Some_iff)
    then show ?thesis
      using acq fg Some itable_section [OF ctx]
      by (intro exI [of _ ip]) (simp add: iget_def kM_simps modinode_def taken_def)
  next
    case None
    then have "find (\<lambda>ip. i_ref (?T ip) = 0) [0..<NINODE] \<noteq> None" using free_slot [OF it room] by (auto simp: find_None_iff)
    then obtain ip where g: "g = Some ip" using sc(2) [OF None] by auto
    then have ip: "ip < NINODE" "i_ref (?T ip) = 0" using sc(2) [OF None] by (auto simp: find_Some_iff)
    have "refc ?T n = 0"
    proof (rule ccontr)
      assume "refc ?T n \<noteq> 0"
      then obtain jp where "jp < NINODE" "0 < i_ref (?T jp)" "i_inum (?T jp) = n" using refc_nonzero [OF it] by blast
      then show False using itabD(2) [OF it] None sc(1) by (auto simp: find_None_iff)
    qed
    then show ?thesis
      using acq fg None g ip itable_section [OF ctx]
      by (intro exI [of _ ip]) (simp add: iget_def kM_simps modinode_def taken_def)
  qed
qed

lemma taken_props:
  assumes it: "itab V S T" and ip: "ip < NINODE" and m: "0 < i_ref (T ip) \<Longrightarrow> i_inum (T ip) = n" "\<not> 0 < i_ref (T ip) \<Longrightarrow> refc T n = 0"
  shows "itab V S (taken n ip T)" "refc (taken n ip T) = (refc T)(n := refc T n + 1)" "i_inum (taken n ip T ip) = n"
    "0 < i_ref (taken n ip T ip)" "i_dev (taken n ip T ip) = ROOTDEV"
    "\<And>jp. jp \<noteq> ip \<Longrightarrow> taken n ip T jp = T jp"
proof -
  have nn: "0 \<le> i_ref (T ip)" using itabD(1) [OF it ip] .
  show "refc (taken n ip T) = (refc T)(n := refc T n + 1)"
    using m(1) nn by (auto simp: taken_def refc_upd [OF ip] fun_eq_iff)
  show "i_inum (taken n ip T ip) = n" "0 < i_ref (taken n ip T ip)" using m(1) by (auto simp: taken_def)
  show "i_dev (taken n ip T ip) = ROOTDEV" using itabD(2) [OF it ip] by (simp add: taken_def)
  show "\<And>jp. jp \<noteq> ip \<Longrightarrow> taken n ip T jp = T jp" by (simp add: taken_def)
  have uniq: "jp = ip" if "jp < NINODE" "0 < i_ref (T jp)" "i_inum (T jp) = n" for jp
  proof (cases "0 < i_ref (T ip)")
    case True
    then show ?thesis using itabD(4) [OF it that(1) ip] m(1) that by simp
  next
    case False
    then show ?thesis using refc_pos [OF it that(1,2)] m(2) that by simp
  qed
  let ?j = "if 0 < i_ref (T ip) then (T ip)\<lparr>i_ref := i_ref (T ip) + 1\<rparr>
     else (T ip)\<lparr>i_dev := ROOTDEV, i_inum := n, i_ref := 1, i_valid := False\<rparr>"
  have "entry_ok V S ?j" using itabD [OF it ip] by (auto simp: entry_ok_def copy_of_def)
  moreover have "i_inum ?j = n" using m(1) by simp
  ultimately show "itab V S (taken n ip T)" unfolding taken_def using uniq by (intro itab_upd [OF it ip]) auto
qed

section \<open>Locking and releasing inodes\<close>

text \<open>What the operations on the inode table leave alone.\<close>

definition nframe :: "nat \<Rightarrow> 'a fs_state_scheme \<Rightarrow> 'a fs_state_scheme \<Rightarrow> bool" where
  "nframe p s t \<longleftrightarrow> tframe p (s\<lparr>inodes := inodes t, sleeplocks := sleeplocks t\<rparr>) t"

lemma nframe_trans: "nframe p s t \<Longrightarrow> nframe p t u \<Longrightarrow> nframe p s u"
  unfolding nframe_def tframe_def by (auto intro: procs_frame_trans)

lemma nframe_refl: "nframe p s s"
  by (simp add: nframe_def tframe_def procs_frame_refl)

lemma tframe_nframe: "tframe p s t \<Longrightarrow> nframe p s t"
  by (simp add: nframe_def tframe_def)

lemma nframe_inodes: "nframe p s ((touch s)\<lparr>inodes := T\<rparr>)" "nframe p s (s\<lparr>inodes := T\<rparr>)"
  by (simp_all add: nframe_def tframe_def procs_frame_refl)

lemma nframeD: "nframe p s t \<Longrightarrow> sb t = sb s" "nframe p s t \<Longrightarrow> procs t ! p = procs s ! p" "nframe p s t \<Longrightarrow> mem t = mem s"
  by (simp_all add: nframe_def tframe_def procs_frame_def)

lemma bc_inodelock:
  assumes "\<And>b. sl (BufLock b) = sleeplocks s (BufLock b)" "p_pid (ps ! p) = p_pid (procs s ! p)" "length ps = length (procs s)"
  shows "bc p H V R (s\<lparr>sleeplocks := sl, procs := ps\<rparr>) = bc p H V R s"
proof -
  let ?t = "s\<lparr>sleeplocks := sl, procs := ps\<rparr>"
  have f: "find_buf ?t = find_buf s" by (auto simp: find_buf_def caches_def [abs_def])
  then have "view ?t = view s" "refs ?t = refs s" by (simp_all add: fun_eq_iff view_def refs_def cong: option.case_cong)
  then show ?thesis using assms f by (simp add: bc_def bcache_inv_def proc_ctx_def cpu_inv_def lock_free_def sie_def)
qed

lemma tx_inodelock:
  assumes "p_pid (ps ! p) = p_pid (procs s ! p)" "length ps = length (procs s)"
  shows "tx p ls L H V ((touch s)\<lparr>sleeplocks := (sleeplocks s)(InodeLock ip := x), procs := ps\<rparr>) = tx p ls L H V s"
proof -
  have "bc p H V (holds H L) ((touch s)\<lparr>sleeplocks := (sleeplocks s)(InodeLock ip := x), procs := ps\<rparr>) = bc p H V (holds H L) (touch s)"
    using assms by (intro bc_inodelock) simp_all
  then show ?thesis by (simp add: tx_def log_hdr_def)
qed

lemma tx_inodes [simp]: "tx p ls L H V (s\<lparr>inodes := T\<rparr>) = tx p ls L H V s"
proof -
  have "bc p H V (holds H L) (s\<lparr>inodes := T\<rparr>) = bc p H V (holds H L) s"
    by (rule bc_cong) (simp_all add: proc_ctx_def cpu_inv_def lock_free_def sie_def)
  then show ?thesis by (simp add: tx_def log_hdr_def)
qed

definition ilocked :: "nat \<Rightarrow> nat \<Rightarrow> 'a kstate_scheme \<Rightarrow> bool" where
  "ilocked p ip s \<longleftrightarrow> sl_locked (sleeplocks s (InodeLock ip)) \<and> sl_pid (sleeplocks s (InodeLock ip)) = p_pid (procs s ! p)"

text \<open>Table entry \<open>i\<close> filled in from the disk.\<close>

definition load_inode :: "dinode \<Rightarrow> inode \<Rightarrow> inode" where
  "load_inode di i = (if i_valid i then i else i\<lparr>i_type := di_type di, i_major := di_major di, i_minor := di_minor di,
     i_nlink := di_nlink di, i_size := di_size di, i_addrs := di_addrs di, i_valid := True\<rparr>)"

lemma ilock_run:
  assumes tx: "tx p ls L Map.empty V s" and S: "sb s = S" and it: "itab V S (inodes s)" and ip: "ip < NINODE" "0 < i_ref (inodes s ip)"
    and free: "\<not> sl_locked (sleeplocks s (InodeLock ip))" and ty: "di_type (dino V S (i_inum (inodes s ip))) \<noteq> 0" and L: "length L < NBUF"
  shows "\<exists>t. ilock (Some ip) s = Ok () t \<and> tx p ls L Map.empty V t \<and> nframe p s t \<and>
    inodes t = (inodes s)(ip := load_inode (dino V S (i_inum (inodes s ip))) (inodes s ip)) \<and> ilocked p ip t \<and>
    (\<forall>k. k \<noteq> ip \<longrightarrow> sleeplocks t (InodeLock k) = sleeplocks s (InodeLock k))"
proof -
  let ?i = "inodes s ip"
  let ?s1 = "(touch s)\<lparr>sleeplocks := (sleeplocks s)(InodeLock ip := (sleeplocks s (InodeLock ip))\<lparr>sl_locked := True, sl_pid := p_pid (procs s ! p)\<rparr>)\<rparr>"
  have a: "acquiresleep (InodeLock ip) s = Ok () ?s1" by (rule acquiresleep_free [OF tx_ctx [OF tx] free])
  have e: "?s1 = (touch s)\<lparr>sleeplocks := (sleeplocks s)(InodeLock ip := (sleeplocks s (InodeLock ip))\<lparr>sl_locked := True, sl_pid := p_pid (procs s ! p)\<rparr>),
      procs := procs s\<rparr>" by (cases s) (simp add: touch_def Let_def)
  have t1: "tx p ls L Map.empty V ?s1" using tx by (subst e) (simp add: tx_inodelock)
  have f1: "nframe p s ?s1" "ilocked p ip ?s1" by (simp_all add: nframe_def tframe_def procs_frame_refl ilocked_def)
  show ?thesis
  proof (cases "i_valid ?i")
    case True
    then have "ilock (Some ip) s = Ok () ?s1" using a ip(2) by (simp add: ilock_def kM_simps getinode_def)
    then show ?thesis using t1 f1 True by (intro exI [of _ ?s1]) (simp add: load_inode_def)
  next
    case False
    let ?b = "IBLOCK (i_inum ?i) S" and ?di = "dino V S (i_inum ?i)"
    have dev: "i_dev ?i = ROOTDEV" using itabD(2) [OF it ip] .
    obtain x t2 where t2: "bread ROOTDEV ?b ?s1 = Ok x t2" "tx p ls L (Map.empty(?b \<mapsto> x)) V t2" "tframe p ?s1 t2" "bdata x t2 = Ok (V ?b) t2"
        "?b \<in> set L \<or> V ?b = disk t2 ?b"
      using lb.open_block [OF t1 _ , of ?b] L by auto
    let ?j = "?i\<lparr>i_type := di_type ?di, i_major := di_major ?di, i_minor := di_minor ?di,
      i_nlink := di_nlink ?di, i_size := di_size ?di, i_addrs := di_addrs ?di\<rparr>"
    have i2: "inodes t2 = inodes s" using t2(3) by (simp add: tframe_def)
    let ?t3 = "t2\<lparr>inodes := (inodes s)(ip := ?j)\<rparr>"
    have "tx p ls L (Map.empty(?b \<mapsto> x)) V ?t3" "?b \<in> set L \<or> V ?b = disk ?t3 ?b" using t2(2,5) by simp_all
    then obtain t4 where t4: "brelse x ?t3 = Ok () t4" "tx p ls L Map.empty V t4" "tframe p ?t3 t4" using lb.close_block by blast
    have i4: "inodes t4 = (inodes s)(ip := ?j)" using t4(3) by (simp add: tframe_def)
    let ?t = "t4\<lparr>inodes := (inodes s)(ip := ?j\<lparr>i_valid := True\<rparr>)\<rparr>"
    have "ilock (Some ip) s = Ok () ?t"
      using a ip(2) False dev t2(1,4) t4(1) ty i2 i4 S
      by (simp add: ilock_def kM_simps getinode_def modinode_def dino_def Let_def)
    moreover have "nframe p s ?t"
      using nframe_trans [OF f1(1) nframe_trans [OF tframe_nframe [OF t2(3)] nframe_trans [OF nframe_inodes(2) nframe_trans [OF tframe_nframe [OF t4(3)] nframe_inodes(2)]]]] .
    moreover have "ilocked p ip ?t" "\<forall>k. k \<noteq> ip \<longrightarrow> sleeplocks ?t (InodeLock k) = sleeplocks s (InodeLock k)"
      using f1(2) t2(3) t4(3) by (simp_all add: ilocked_def tframe_def procs_frame_def)
    ultimately show ?thesis using t4(2) False by (intro exI [of _ ?t]) (simp add: load_inode_def)
  qed
qed

lemma iunlock_run:
  assumes tx: "tx p ls L H V s" and ip: "0 < i_ref (inodes s ip)" and lk: "ilocked p ip s"
  shows "\<exists>t. iunlock (Some ip) s = Ok () t \<and> tx p ls L H V t \<and> nframe p s t \<and> inodes t = inodes s \<and>
    \<not> sl_locked (sleeplocks t (InodeLock ip)) \<and> (\<forall>k. k \<noteq> ip \<longrightarrow> sleeplocks t (InodeLock k) = sleeplocks s (InodeLock k))"
proof -
  note ctx = tx_ctx [OF tx]
  let ?ps = "woken (Some p) (ChanSleep (InodeLock ip)) (procs s)"
  let ?t = "(touch s)\<lparr>sleeplocks := (sleeplocks s)(InodeLock ip := (sleeplocks s (InodeLock ip))\<lparr>sl_locked := False, sl_pid := 0\<rparr>), procs := ?ps\<rparr>"
  have pl: "p < length (procs s)" using proc_ctxD [OF ctx] by simp
  have "holdingsleep (InodeLock ip) s = Ok True (touch s)" using lk by (simp add: holdingsleep_run [OF ctx] ilocked_def)
  moreover have c2: "proc_ctx p (touch s)" using ctx proc_ctxD(1) [OF ctx] by (simp add: proc_ctx_def cpu_inv_def lock_free_def sie_def)
  have "releasesleep (InodeLock ip) (touch s) = Ok () ?t"
    using releasesleep_run [OF c2, of "InodeLock ip"] by simp
  ultimately have "iunlock (Some ip) s = Ok () ?t" using ip by (simp add: iunlock_def kM_simps getinode_def)
  moreover have "tx p ls L H V ?t" using tx procs_frame_woken [OF pl, of "ChanSleep (InodeLock ip)"]
    by (subst tx_inodelock) (simp_all add: procs_frame_def)
  moreover have "nframe p s ?t" using procs_frame_woken [OF pl] by (simp add: nframe_def tframe_def)
  ultimately show ?thesis by (intro exI [of _ ?t]) simp
qed

definition dropped :: "nat \<Rightarrow> (nat \<Rightarrow> inode) \<Rightarrow> nat \<Rightarrow> inode" where
  "dropped ip T = T(ip := (T ip)\<lparr>i_ref := i_ref (T ip) - 1\<rparr>)"

text \<open>\<^verbatim>\<open>iput\<close> of an inode that is still linked only drops the reference.\<close>

lemma iput_run:
  assumes ctx: "proc_ctx p s" and nt: "\<not> (i_ref (inodes s ip) = 1 \<and> i_valid (inodes s ip) \<and> i_nlink (inodes s ip) = 0)"
  shows "iput ip s = Ok () ((touch s)\<lparr>inodes := dropped ip (inodes s)\<rparr>)"
proof -
  have acq: "acquire ItableLock s = Ok () (acq ItableLock s)" using proc_ctxD [OF ctx] by (simp add: acquire_free)
  show ?thesis using acq nt itable_section [OF ctx]
    by (auto simp: iput_def kM_simps getinode_def modinode_def dropped_def)
qed

lemma idup_run:
  assumes ctx: "proc_ctx p s" and "0 < i_ref (inodes s ip)"
  shows "idup ip s = Ok ip ((touch s)\<lparr>inodes := taken (i_inum (inodes s ip)) ip (inodes s)\<rparr>)"
proof -
  have acq: "acquire ItableLock s = Ok () (acq ItableLock s)" using proc_ctxD [OF ctx] by (simp add: acquire_free)
  show ?thesis using acq assms itable_section [OF ctx]
    by (simp add: idup_def kM_simps getinode_def modinode_def taken_def)
qed

lemma dropped_props:
  assumes "itab V S T" "ip < NINODE" "0 < i_ref (T ip)"
  shows "itab V S (dropped ip T)" "refc (dropped ip T) = (refc T)(i_inum (T ip) := refc T (i_inum (T ip)) - 1)"
proof -
  have "entry_ok V S (T ip)" using assms(1,2) by (simp add: itab_def)
  then have e: "entry_ok V S ((T ip)\<lparr>i_ref := i_ref (T ip) - 1\<rparr>)" using assms(3) by (simp add: entry_ok_def copy_of_def)
  show "itab V S (dropped ip T)" unfolding dropped_def
  proof (rule itab_upd [OF assms(1,2) e])
    fix jp assume "jp < NINODE" "jp \<noteq> ip" "0 < i_ref (T jp)"
    then show "i_inum (T jp) \<noteq> i_inum ((T ip)\<lparr>i_ref := i_ref (T ip) - 1\<rparr>)" using itabD(4) [OF assms(1,2) _ assms(3)] by fastforce
  qed
  show "refc (dropped ip T) = (refc T)(i_inum (T ip) := refc T (i_inum (T ip)) - 1)"
    using assms(2) by (auto simp: dropped_def refc_upd fun_eq_iff)
qed

lemma load_props:
  assumes "itab V S T" "ip < NINODE" "0 < i_ref (T ip)"
  shows "itab V S (T(ip := load_inode (dino V S (i_inum (T ip))) (T ip)))"
    "refc (T(ip := load_inode (dino V S (i_inum (T ip))) (T ip))) = refc T"
    "copy_of (load_inode (dino V S (i_inum (T ip))) (T ip)) (dino V S (i_inum (T ip)))"
proof -
  let ?j = "load_inode (dino V S (i_inum (T ip))) (T ip)"
  have j: "i_ref ?j = i_ref (T ip)" "i_inum ?j = i_inum (T ip)" "i_dev ?j = i_dev (T ip)" by (simp_all add: load_inode_def)
  show c: "copy_of ?j (dino V S (i_inum (T ip)))" using itabD(3) [OF assms] by (simp add: load_inode_def copy_of_def)
  then have e: "entry_ok V S ?j" using itabD(2) [OF assms] assms(3) j by (simp add: entry_ok_def)
  show "itab V S (T(ip := ?j))"
  proof (rule itab_upd [OF assms(1,2) e])
    fix jp assume "jp < NINODE" "jp \<noteq> ip" "0 < i_ref (T jp)"
    then show "i_inum (T jp) \<noteq> i_inum ?j" using itabD(4) [OF assms(1,2) _ assms(3)] j by fastforce
  qed
  show "refc (T(ip := ?j)) = refc T" using assms(2) j by (auto simp: refc_upd fun_eq_iff)
qed

end
