(* ===== verification/Fs_Dir.thy ===== *)
theory Fs_Dir
  imports Fs_Itable
begin

text \<open>
  Directories (\<^verbatim>\<open>dirlookup\<close> of \<^verbatim>\<open>kernel/fs.c\<close>): the bytes of a directory stand for a list of entries, which is searched in
  order.
\<close>

section \<open>Directories\<close>

text \<open>The entries of a directory, in order, and the one a name selects.\<close>

definition dirents :: "(u32 \<Rightarrow> u8 list) \<Rightarrow> inode \<Rightarrow> dirent list" where
  "dirents V i = map (\<lambda>k. get_dirent (fbytes V i (16 * k) 16)) [0..<unat (i_size i) div 16]"

definition names :: "u8 list \<Rightarrow> dirent \<Rightarrow> bool" where
  "names name de \<longleftrightarrow> de_inum de \<noteq> 0 \<and> cstr (nthz name) DIRSIZ = cstr (nthz (de_name de)) DIRSIZ"

lemma namecmp_names: "de_inum de \<noteq> 0 \<and> namecmp name (de_name de) = 0 \<longleftrightarrow> names name de"
  using strncmp_loop_0 [of "nthz name" "nthz (de_name de)" 0 DIRSIZ] by (simp add: names_def namecmp_def strncmp_def cstr_def)

definition dir_ok :: "(u32 \<Rightarrow> u8 list) \<Rightarrow> inode \<Rightarrow> bool" where
  "dir_ok V i \<longleftrightarrow> i_type i = T_DIR \<and> file_ok Map.empty V i \<and> unat (i_size i) mod 16 = 0"

lemma readi_entry:
  assumes tx: "tx p ls L Map.empty V s" and i: "inodes s dp = i" "dir_ok V i" and L: "length L < NBUF" and k: "k < unat (i_size i) div 16"
  shows "\<exists>t. readi dp LocalDst (of_nat (16 * k)) (of_nat sizeof_dirent) s = Ok (16, fbytes V i (16 * k) 16) t \<and>
    tx p ls L Map.empty V t \<and> tframe p s t"
proof -
  have f: "file_ok Map.empty V i" "unat (i_size i) mod 16 = 0" using i(2) by (simp_all add: dir_ok_def)
  have sz: "unat (i_size i) < 2 ^ 32 - 16"
  proof -
    have "unat (i_size i) \<le> MAXFILE * BSIZE" using f(1) by (simp add: file_ok_def)
    then show ?thesis by (simp add: MAXFILE_def NDIRECT_def NINDIRECT_def BSIZE_def)
  qed
  have le: "16 * k + 16 \<le> unat (i_size i)" using k by linarith
  have u: "unat (of_nat (16 * k) :: u32) = 16 * k" "unat (of_nat (16 * k) + 16 :: u32) = 16 * k + 16"
  proof -
    have "(of_nat (16 * k) + 16 :: u32) = of_nat (16 * k + 16)" by simp
    then show "unat (of_nat (16 * k) :: u32) = 16 * k" "unat (of_nat (16 * k) + 16 :: u32) = 16 * k + 16"
      using le sz by (simp_all only: unat_of_nat) auto
  qed
  have rc: "read_count i (of_nat (16 * k)) (of_nat sizeof_dirent) = 16"
    using le u by (simp add: read_count_def word_less_nat_alt sizeof_dirent_def)
  obtain t where t: "readi dp LocalDst (of_nat (16 * k)) (of_nat sizeof_dirent) s = Ok (16, fbytes V i (16 * k) 16) t"
      "tx p ls L Map.empty V t" "rframe p s t" "delivered LocalDst (p_pagetable (procs s ! p)) (mem s) (fbytes V i (16 * k) 16) (mem t)"
    using readi_run [OF tx i(1) f(1) _ refl, of undefined LocalDst "of_nat (16 * k)" "of_nat sizeof_dirent"] rc L u by auto
  then have "mem t = mem s" by simp
  then show ?thesis using t by (auto simp: rframe_def tframe_def)
qed

definition same_ilocks :: "'a kstate_scheme \<Rightarrow> 'a kstate_scheme \<Rightarrow> bool" where
  "same_ilocks s t \<longleftrightarrow> (\<forall>k. sleeplocks t (InodeLock k) = sleeplocks s (InodeLock k))"

lemma tframe_ilocks: "tframe p s t \<Longrightarrow> same_ilocks s t"
  by (simp add: tframe_def same_ilocks_def)

text \<open>\<^verbatim>\<open>dirlookup\<close> finds the first entry with the name, and takes a reference to its inode.\<close>

definition lookup_result :: "nat \<Rightarrow> u32 \<Rightarrow> u32 list \<Rightarrow> (u32 \<Rightarrow> u8 list) \<Rightarrow> nat \<Rightarrow> dirent option \<Rightarrow> 'a fs_state_scheme \<Rightarrow>
    (nat \<times> nat) option \<Rightarrow> 'a fs_state_scheme \<Rightarrow> bool" where
  "lookup_result p ls L V dp e s r t \<longleftrightarrow> tx p ls L Map.empty V t \<and> nframe p s t \<and> same_ilocks s t \<and>
     (case e of None \<Rightarrow> r = None \<and> inodes t = inodes s
      | Some de \<Rightarrow> \<exists>ip k. r = Some (ip, 16 * k) \<and> dirents V (inodes s dp) ! k = de \<and> k < length (dirents V (inodes s dp)) \<and>
          ip < NINODE \<and> inodes t = taken (ucast (de_inum de)) ip (inodes s) \<and>
          (0 < i_ref (inodes s ip) \<longrightarrow> i_inum (inodes s ip) = ucast (de_inum de)) \<and>
          (\<not> 0 < i_ref (inodes s ip) \<longrightarrow> refc (inodes s) (ucast (de_inum de)) = 0))"

lemma lookup_result_step:
  assumes "tframe p s s'" "lookup_result p ls L V dp e s' r t"
  shows "lookup_result p ls L V dp e s r t"
proof -
  have "inodes s' = inodes s" "same_ilocks s s'" using assms(1) by (auto simp: tframe_def same_ilocks_def)
  then show ?thesis
    using assms(2) nframe_trans [OF tframe_nframe [OF assms(1)]] by (simp add: lookup_result_def same_ilocks_def cong: option.case_cong)
qed

lemma dirlookup_loop_run:
  assumes "tx p ls L Map.empty V s" "inodes s dp = i" "dir_ok V i" "length L < NBUF"
    "itab V S (inodes s)" "card {n. refc (inodes s) n \<noteq> 0} < NINODE" "k \<le> length (dirents V i)"
  shows "\<exists>r t. dirlookup_loop dp name (16 * k) (unat (i_size i)) s = Ok r t \<and>
    lookup_result p ls L V dp (find (names name) (drop k (dirents V i))) s r t"
  using assms
proof (induction "length (dirents V i) - k" arbitrary: k s)
  case 0
  then have k: "k = length (dirents V i)" by simp
  have "unat (i_size i) \<le> 16 * k" using 0(4) k by (auto simp: dirents_def dir_ok_def)
  then have "dirlookup_loop dp name (16 * k) (unat (i_size i)) s = Ok None s"
    by (simp add: dirlookup_loop.simps [of _ _ "16 * k"] kM_simps)
  then show ?case using k 0(2) by (simp add: lookup_result_def same_ilocks_def nframe_refl)
next
  case (Suc x)
  let ?de = "dirents V i ! k"
  have k: "k < length (dirents V i)" using Suc(2) by simp
  then have k': "k < unat (i_size i) div 16" "\<not> unat (i_size i) \<le> 16 * k" by (auto simp: dirents_def)
  obtain s1 where s1: "readi dp LocalDst (of_nat (16 * k)) (of_nat sizeof_dirent) s = Ok (16, fbytes V i (16 * k) 16) s1"
      "tx p ls L Map.empty V s1" "tframe p s s1"
    using readi_entry [OF Suc(3-6) k'(1)] by blast
  have de: "get_dirent (fbytes V i (16 * k) 16) = ?de" using k' by (simp add: dirents_def)
  have i1: "inodes s1 = inodes s" using s1(3) by (simp add: tframe_def)
  have dr: "drop k (dirents V i) = ?de # drop (Suc k) (dirents V i)" using k by (simp add: Cons_nth_drop_Suc)
  have x: "x = length (dirents V i) - Suc k" using Suc(2) by simp
  have nx: "16 * k + sizeof_dirent = 16 * Suc k" by (simp add: sizeof_dirent_def)
  show ?case
  proof (cases "names name ?de")
    case True
    let ?n = "ucast (de_inum ?de) :: u32"
    obtain ip where ip: "ip < NINODE" "iget ROOTDEV ?n s1 = Ok ip ((touch s1)\<lparr>inodes := taken ?n ip (inodes s1)\<rparr>)"
        "0 < i_ref (inodes s1 ip) \<longrightarrow> i_inum (inodes s1 ip) = ?n" "\<not> 0 < i_ref (inodes s1 ip) \<longrightarrow> refc (inodes s1) ?n = 0"
      using iget_run [OF tx_ctx [OF s1(2)], of V S ?n] Suc(7,8) i1 by auto
    let ?t = "(touch s1)\<lparr>inodes := taken ?n ip (inodes s1)\<rparr>"
    have dev: "i_dev (inodes s1 dp) = ROOTDEV" using Suc(4,5) i1 by (simp add: dir_ok_def file_ok_def)
    have "dirlookup_loop dp name (16 * k) (unat (i_size i)) s = Ok (Some (ip, 16 * k)) ?t"
      using s1(1) k'(2) True dev ip(2)
      by (simp add: dirlookup_loop.simps [of _ _ "16 * k"] kM_simps de Let_def getinode_def namecmp_names [symmetric] sizeof_dirent_def)
    moreover have "lookup_result p ls L V dp (Some ?de) s1 (Some (ip, 16 * k)) ?t"
      using s1(2) nframe_inodes(1) ip k Suc(4) i1 by (simp add: lookup_result_def same_ilocks_def cong: option.case_cong)
    ultimately show ?thesis using lookup_result_step [OF s1(3)] True dr by auto
  next
    case False
    have "dirlookup_loop dp name (16 * k) (unat (i_size i)) s = dirlookup_loop dp name (16 * Suc k) (unat (i_size i)) s1"
      using s1(1) k'(2) False namecmp_names [of ?de name] nx
      by (auto simp: dirlookup_loop.simps [of _ _ "16 * k"] kM_simps de Let_def sizeof_dirent_def add.commute)
    moreover obtain r t where "dirlookup_loop dp name (16 * Suc k) (unat (i_size i)) s1 = Ok r t"
        "lookup_result p ls L V dp (find (names name) (drop (Suc k) (dirents V i))) s1 r t"
      using Suc(1) [OF x s1(2) _ Suc(5,6)] Suc(4,7,8) i1 k by auto
    ultimately show ?thesis using lookup_result_step [OF s1(3)] False dr by auto
  qed
qed

lemma dirlookup_run:
  assumes "tx p ls L Map.empty V s" "dir_ok V (inodes s dp)" "length L < NBUF"
    "itab V S (inodes s)" "card {n. refc (inodes s) n \<noteq> 0} < NINODE"
  shows "\<exists>r t. dirlookup dp name s = Ok r t \<and> lookup_result p ls L V dp (find (names name) (dirents V (inodes s dp))) s r t"
  using dirlookup_loop_run [OF assms(1) refl assms(2-5), of 0 name] assms(2)
  by (simp add: dirlookup_def kM_simps getinode_def dir_ok_def)

end
