(* ===== verification/Fs_Path.thy ===== *)
theory Fs_Path
  imports Fs_Dir
begin

text \<open>
  Path names (\<^verbatim>\<open>skipelem\<close>, \<^verbatim>\<open>namex\<close>, \<^verbatim>\<open>namei\<close> and \<^verbatim>\<open>nameiparent\<close> of \<^verbatim>\<open>kernel/fs.c\<close>): the elements of a path, the tree of
  directories on disk, and that the walk with its locks and references finds the inode the path names.
\<close>

section \<open>Path names\<close>

text \<open>The elements of a path: the runs of characters between slashes, cut to \<^verbatim>\<open>DIRSIZ\<close> characters.\<close>

definition components :: "u8 list \<Rightarrow> u8 list list" where
  "components path = map (take DIRSIZ) (filter (\<lambda>c. c \<noteq> []) (splitc 47 path))"

lemma components_slash: "components (47 # path) = components path"
  by (simp add: components_def)

lemma components_dropSlashes: "components (dropWhile (\<lambda>c. c = 47) path) = components path"
  by (induction path) (auto simp: components_slash)

lemma components_elem:
  assumes "s \<noteq> []" "47 \<notin> set s" "r = [] \<or> hd r = 47"
  shows "components (s @ r) = take DIRSIZ s # components r"
proof (cases r)
  case Nil
  then show ?thesis using assms(1) splitc_prefix [OF assms(2), of "[]"] by (simp add: components_def)
next
  case (Cons c cs)
  then show ?thesis using assms(1,3) splitc_prefix [OF assms(2), of r] by (simp add: components_def)
qed

lemma skipelem_None:
  assumes "skipelem path = None"
  shows "components path = []"
proof -
  have "dropWhile (\<lambda>c. c = 47) path = []" using assms unfolding skipelem_def Let_def by (rule contrapos_pp) simp
  then show ?thesis using components_dropSlashes [of path] by (simp only:) (simp add: components_def)
qed

lemma skipelem_Some:
  assumes "skipelem path = Some (rest, name)"
  shows "components path = name # components rest" "rest = [] \<longleftrightarrow> components rest = []"
proof -
  let ?p = "dropWhile (\<lambda>c. c = 47) path"
  let ?s = "takeWhile (\<lambda>c. c \<noteq> 47) ?p" and ?r = "dropWhile (\<lambda>c. c \<noteq> 47) ?p"
  have p: "?p \<noteq> []" "rest = dropWhile (\<lambda>c. c = 47) ?r" "name = take DIRSIZ ?s"
    using assms by (auto simp: skipelem_def Let_def split: if_splits)
  have h: "hd ?p \<noteq> 47" using p(1) hd_dropWhile by blast
  have s: "?s \<noteq> []" "47 \<notin> set ?s" using p(1) h by (cases ?p; auto dest: set_takeWhileD)+
  have r: "?r = [] \<or> hd ?r = 47" using hd_dropWhile by blast
  have "components (?s @ ?r) = take DIRSIZ ?s # components ?r" by (rule components_elem [OF s r])
  then show "components path = name # components rest" using p(2,3) by (simp add: components_dropSlashes)
  show "rest = [] \<longleftrightarrow> components rest = []"
  proof (cases "rest = []")
    case True
    then show ?thesis by (simp add: components_def)
  next
    case False
    let ?s' = "takeWhile (\<lambda>c. c \<noteq> 47) rest" and ?r' = "dropWhile (\<lambda>c. c \<noteq> 47) rest"
    have "hd rest \<noteq> 47" using False p(2) hd_dropWhile by blast
    then have "?s' \<noteq> []" "47 \<notin> set ?s'" using False by (cases rest; auto dest: set_takeWhileD)+
    moreover have "?r' = [] \<or> hd ?r' = 47" using hd_dropWhile by blast
    ultimately have "components (?s' @ ?r') = take DIRSIZ ?s' # components ?r'" by (rule components_elem)
    then show ?thesis using False by simp
  qed
qed

text \<open>The tree of directories on the disk. An inode is live when it is allocated and some entry names it.\<close>

definition dnode :: "(u32 \<Rightarrow> u8 list) \<Rightarrow> superblock \<Rightarrow> u32 \<Rightarrow> inode" where
  "dnode V S n = load_inode (dino V S n) \<lparr>i_dev = ROOTDEV, i_inum = n, i_ref = 0, i_valid = False, i_type = 0, i_major = 0,
     i_minor = 0, i_nlink = 0, i_size = 0, i_addrs = []\<rparr>"

lemma dnode_copy:
  assumes "copy_of j (dino V S n)"
  shows "dirents V j = dirents V (dnode V S n)" "i_dev j = ROOTDEV \<Longrightarrow> dir_ok V j = dir_ok V (dnode V S n)"
proof -
  have "baddr V j = baddr V (dnode V S n)" using assms by (simp add: fun_eq_iff baddr_def copy_of_def dnode_def load_inode_def)
  then show "dirents V j = dirents V (dnode V S n)" "i_dev j = ROOTDEV \<Longrightarrow> dir_ok V j = dir_ok V (dnode V S n)"
    using assms by (simp_all add: dirents_def fbytes_def fbyte_def [abs_def] dir_ok_def file_ok_def copy_of_def dnode_def load_inode_def)
qed

definition live :: "(u32 \<Rightarrow> u8 list) \<Rightarrow> superblock \<Rightarrow> u32 \<Rightarrow> bool" where
  "live V S n \<longleftrightarrow> n < sb_ninodes S \<and> di_type (dino V S n) \<noteq> 0 \<and> di_nlink (dino V S n) \<noteq> 0"

definition tree_ok :: "(u32 \<Rightarrow> u8 list) \<Rightarrow> superblock \<Rightarrow> bool" where
  "tree_ok V S \<longleftrightarrow> (\<forall>n < sb_ninodes S. live V S n \<and> di_type (dino V S n) = T_DIR \<longrightarrow> dir_ok V (dnode V S n) \<and>
     (\<forall>de \<in> set (dirents V (dnode V S n)). de_inum de \<noteq> 0 \<longrightarrow> live V S (ucast (de_inum de))))"

lemma tree_okD:
  assumes "tree_ok V S" "live V S n" "di_type (dino V S n) = T_DIR"
  shows "dir_ok V (dnode V S n)" "de \<in> set (dirents V (dnode V S n)) \<Longrightarrow> de_inum de \<noteq> 0 \<Longrightarrow> live V S (ucast (de_inum de))"
  using assms unfolding tree_ok_def live_def by blast+

text \<open>The inode a list of path elements leads to, and the directory and name of its last element.\<close>

fun resolve :: "(u32 \<Rightarrow> u8 list) \<Rightarrow> superblock \<Rightarrow> u32 \<Rightarrow> u8 list list \<Rightarrow> u32 option" where
  "resolve V S n [] = Some n"
| "resolve V S n (c # cs) = (if di_type (dino V S n) \<noteq> T_DIR then None else
     case find (names c) (dirents V (dnode V S n)) of None \<Rightarrow> None | Some de \<Rightarrow> resolve V S (ucast (de_inum de)) cs)"

definition resolve_parent :: "(u32 \<Rightarrow> u8 list) \<Rightarrow> superblock \<Rightarrow> u32 \<Rightarrow> u8 list list \<Rightarrow> (u32 \<times> u8 list) option" where
  "resolve_parent V S n cs = (if cs = [] then None else
     case resolve V S n (butlast cs) of None \<Rightarrow> None
     | Some m \<Rightarrow> if di_type (dino V S m) = T_DIR then Some (m, last cs) else None)"

text \<open>The same in the order of \<^verbatim>\<open>namex\<close>, which looks for both.\<close>

fun path_goal :: "(u32 \<Rightarrow> u8 list) \<Rightarrow> superblock \<Rightarrow> bool \<Rightarrow> u32 \<Rightarrow> u8 list \<Rightarrow> u8 list list \<Rightarrow> (u32 \<times> u8 list) option" where
  "path_goal V S par n name [] = (if par then None else Some (n, name))"
| "path_goal V S par n name (c # cs) = (if di_type (dino V S n) \<noteq> T_DIR then None else
     if par \<and> cs = [] then Some (n, c) else
     case find (names c) (dirents V (dnode V S n)) of None \<Rightarrow> None | Some de \<Rightarrow> path_goal V S par (ucast (de_inum de)) c cs)"

lemma path_goal_node: "path_goal V S False n name cs = map_option (\<lambda>m. (m, last (name # cs))) (resolve V S n cs)"
  by (induction cs arbitrary: n name) (auto split: option.splits)

lemma path_goal_parent: "path_goal V S True n name cs = resolve_parent V S n cs"
  by (induction cs arbitrary: n name) (auto simp: resolve_parent_def split: option.splits)

section \<open>Walking a path\<close>

text \<open>The state between two steps: no inode lock is held, and the table describes the disk.\<close>

definition ready :: "nat \<Rightarrow> u32 \<Rightarrow> u32 list \<Rightarrow> (u32 \<Rightarrow> u8 list) \<Rightarrow> superblock \<Rightarrow> 'a fs_state_scheme \<Rightarrow> bool" where
  "ready p ls L V S s \<longleftrightarrow> tx p ls L Map.empty V s \<and> sb s = S \<and> itab V S (inodes s) \<and> length L < NBUF \<and>
     (\<forall>k. \<not> sl_locked (sleeplocks s (InodeLock k)))"

text \<open>Slot \<open>ip\<close> refers to inode \<open>n\<close>, with one reference more than in \<open>R\<close>.\<close>

definition refers :: "(u32 \<Rightarrow> int) \<Rightarrow> nat \<Rightarrow> u32 \<Rightarrow> (nat \<Rightarrow> inode) \<Rightarrow> bool" where
  "refers R ip n T \<longleftrightarrow> ip < NINODE \<and> 0 < i_ref (T ip) \<and> i_inum (T ip) = n \<and> refc T = R(n := R n + 1)"

lemma linked:
  assumes "itab V S T" "ip < NINODE" "0 < i_ref (T ip)" "live V S (i_inum (T ip))"
  shows "\<not> (i_ref (T ip) = 1 \<and> i_valid (T ip) \<and> i_nlink (T ip) = 0)"
  using itabD(3) [OF assms(1-3)] assms(4) by (auto simp: copy_of_def live_def)

lemma iput_ready:
  assumes r: "ready p ls L V S s" and h: "refers R ip n (inodes s)" "live V S n"
  shows "\<exists>t. iput ip s = Ok () t \<and> ready p ls L V S t \<and> nframe p s t \<and> inodes t = dropped ip (inodes s)"
proof -
  have it: "tx p ls L Map.empty V s" "itab V S (inodes s)" "ip < NINODE" "0 < i_ref (inodes s ip)" "i_inum (inodes s ip) = n"
    using r h(1) by (auto simp: ready_def refers_def)
  have "iput ip s = Ok () ((touch s)\<lparr>inodes := dropped ip (inodes s)\<rparr>)"
    using it(5) h(2) by (intro iput_run [OF tx_ctx [OF it(1)] linked [OF it(2-4)]]) simp
  then show ?thesis
    using r nframe_inodes(1) dropped_props(1) [OF it(2-4)]
    by (intro exI [of _ "(touch s)\<lparr>inodes := dropped ip (inodes s)\<rparr>"]) (simp add: ready_def)
qed

lemma iunlock_ready:
  assumes tx: "tx p ls L Map.empty V s" and it: "sb s = S" "itab V S (inodes s)" "length L < NBUF" and ip: "0 < i_ref (inodes s ip)"
    and lk: "ilocked p ip s" "\<forall>k. k \<noteq> ip \<longrightarrow> \<not> sl_locked (sleeplocks s (InodeLock k))"
  shows "\<exists>t. iunlock (Some ip) s = Ok () t \<and> ready p ls L V S t \<and> nframe p s t \<and> inodes t = inodes s"
proof -
  obtain t where t: "iunlock (Some ip) s = Ok () t" "tx p ls L Map.empty V t" "nframe p s t" "inodes t = inodes s"
      "\<not> sl_locked (sleeplocks t (InodeLock ip))" "\<forall>k. k \<noteq> ip \<longrightarrow> sleeplocks t (InodeLock k) = sleeplocks s (InodeLock k)"
    using iunlock_run [OF tx ip lk(1)] by blast
  have "\<not> sl_locked (sleeplocks t (InodeLock k))" for k using t(5,6) lk(2) by (cases "k = ip") auto
  then show ?thesis using t it nframeD(1) [OF t(3)] by (auto simp: ready_def)
qed

lemma iunlockput_ready:
  assumes tx: "tx p ls L Map.empty V s" and it: "sb s = S" "itab V S (inodes s)" "length L < NBUF"
    and h: "refers R ip n (inodes s)" "live V S n" and lk: "ilocked p ip s" "\<forall>k. k \<noteq> ip \<longrightarrow> \<not> sl_locked (sleeplocks s (InodeLock k))"
  shows "\<exists>t. iunlockput ip s = Ok () t \<and> ready p ls L V S t \<and> nframe p s t \<and> inodes t = dropped ip (inodes s)"
proof -
  have ip: "0 < i_ref (inodes s ip)" using h by (simp add: refers_def)
  obtain t where t: "iunlock (Some ip) s = Ok () t" "ready p ls L V S t" "nframe p s t" "inodes t = inodes s"
    using iunlock_ready [OF tx it ip lk] by blast
  obtain u where u: "iput ip t = Ok () u" "ready p ls L V S u" "nframe p t u" "inodes u = dropped ip (inodes t)"
    using iput_ready [OF t(2) _ h(2), of R ip] h(1) t(4) by auto
  then show ?thesis using t nframe_trans [OF t(3) u(3)] by (auto simp: iunlockput_def kM_simps)
qed

lemma dropped_refers:
  assumes "itab V S T" "refers R ip n T"
  shows "refc (dropped ip T) = R"
  using dropped_props(2) [OF assms(1), of ip] assms(2) by (auto simp: refers_def fun_eq_iff)

lemma card_refers:
  assumes "refers R ip n T"
  shows "card {m. refc T m \<noteq> 0} \<le> card {m. R m \<noteq> 0} + 1"
proof -
  have "{m. refc T m \<noteq> 0} \<subseteq> insert n {m. R m \<noteq> 0}" using assms by (auto simp: refers_def)
  then have "card {m. refc T m \<noteq> 0} \<le> card (insert n {m. R m \<noteq> 0})" by (intro card_mono) simp_all
  also have "\<dots> \<le> card {m. R m \<noteq> 0} + 1" by (simp add: card_insert_if)
  finally show ?thesis .
qed

lemma taken_refers:
  assumes it: "itab V S T" and jp: "jp < NINODE" "0 < i_ref (T jp) \<Longrightarrow> i_inum (T jp) = m" "\<not> 0 < i_ref (T jp) \<Longrightarrow> refc T m = 0"
    and h: "refers R ip n T"
  shows "itab V S (taken m jp T)" "refers (R(m := R m + 1)) ip n (taken m jp T)" "refers R jp m (dropped ip (taken m jp T))"
proof -
  note p = taken_props [OF it jp]
  have ip: "ip < NINODE" "0 < i_ref (T ip)" "i_inum (T ip) = n" "refc T = R(n := R n + 1)" using h by (simp_all add: refers_def)
  show "itab V S (taken m jp T)" by (rule p(1))
  have ip': "0 < i_ref (taken m jp T ip)" "i_inum (taken m jp T ip) = n"
    using ip p(3,4,6) jp(2) by (cases "ip = jp"; simp)+
  then show hh: "refers (R(m := R m + 1)) ip n (taken m jp T)" using ip p(2) by (auto simp: refers_def fun_eq_iff)
  have "refc (dropped ip (taken m jp T)) = R(m := R m + 1)" by (rule dropped_refers [OF p(1) hh])
  moreover have "0 < i_ref (dropped ip (taken m jp T) jp)" "i_inum (dropped ip (taken m jp T) jp) = m"
    using ip p(3,4) by (cases "ip = jp"; simp add: dropped_def taken_def)+
  ultimately show "refers R jp m (dropped ip (taken m jp T))" using jp(1) by (simp add: refers_def)
qed

text \<open>The inode a path starts from: the root, or the working directory of the process.\<close>

definition start_inode :: "nat \<Rightarrow> u8 list \<Rightarrow> 'a fs_state_scheme \<Rightarrow> u32 \<Rightarrow> bool" where
  "start_inode p path s n \<longleftrightarrow> (if path \<noteq> [] \<and> hd path = 47 then n = ROOTINO
     else \<exists>cp. p_cwd (procs s ! p) = Some cp \<and> cp < NINODE \<and> 0 < i_ref (inodes s cp) \<and> i_inum (inodes s cp) = n)"

definition reached :: "nat \<Rightarrow> u32 \<Rightarrow> u32 list \<Rightarrow> (u32 \<Rightarrow> u8 list) \<Rightarrow> superblock \<Rightarrow> (u32 \<Rightarrow> int) \<Rightarrow> (u32 \<times> u8 list) option \<Rightarrow>
    'a fs_state_scheme \<Rightarrow> (nat \<times> u8 list) option \<Rightarrow> 'a fs_state_scheme \<Rightarrow> bool" where
  "reached p ls L V S R g s r t \<longleftrightarrow> ready p ls L V S t \<and> nframe p s t \<and>
     (case g of None \<Rightarrow> r = None \<and> refc (inodes t) = R
      | Some (m, c) \<Rightarrow> \<exists>ip. r = Some (ip, c) \<and> refers R ip m (inodes t))"

lemma reached_step: "nframe p s s' \<Longrightarrow> reached p ls L V S R g s' r t \<Longrightarrow> reached p ls L V S R g s r t"
  unfolding reached_def by (blast intro: nframe_trans)

text \<open>One element of the path: the directory is locked and searched, and given up for the inode found.\<close>

lemma ilock_ready:
  assumes r: "ready p ls L V S s" and h: "refers R ip n (inodes s)" "live V S n"
  shows "\<exists>t. ilock (Some ip) s = Ok () t \<and> tx p ls L Map.empty V t \<and> sb t = S \<and> itab V S (inodes t) \<and> nframe p s t \<and>
    refers R ip n (inodes t) \<and> copy_of (inodes t ip) (dino V S n) \<and> i_dev (inodes t ip) = ROOTDEV \<and>
    ilocked p ip t \<and> (\<forall>k. k \<noteq> ip \<longrightarrow> \<not> sl_locked (sleeplocks t (InodeLock k)))"
proof -
  have it: "itab V S (inodes s)" "ip < NINODE" "0 < i_ref (inodes s ip)" and n: "i_inum (inodes s ip) = n"
    using r h(1) by (auto simp: ready_def refers_def)
  note l = load_props [OF it]
  have "\<exists>t. ilock (Some ip) s = Ok () t \<and> tx p ls L Map.empty V t \<and> nframe p s t \<and>
    inodes t = (inodes s)(ip := load_inode (dino V S (i_inum (inodes s ip))) (inodes s ip)) \<and> ilocked p ip t \<and>
    (\<forall>k. k \<noteq> ip \<longrightarrow> sleeplocks t (InodeLock k) = sleeplocks s (InodeLock k))"
    using r it n h(2) by (intro ilock_run) (auto simp: ready_def live_def)
  then obtain t where t: "ilock (Some ip) s = Ok () t" "tx p ls L Map.empty V t" "nframe p s t"
      "inodes t = (inodes s)(ip := load_inode (dino V S n) (inodes s ip))" "ilocked p ip t"
      "\<forall>k. k \<noteq> ip \<longrightarrow> sleeplocks t (InodeLock k) = sleeplocks s (InodeLock k)"
    using n by blast
  have "refers R ip n (inodes t)" using h(1) l(2) t(4) n by (simp add: refers_def load_inode_def)
  moreover have "i_dev (inodes t ip) = ROOTDEV" using t(4) itabD(2) [OF it] by (simp add: load_inode_def)
  ultimately show ?thesis using t l n r nframeD(1) [OF t(3)] by (auto simp: ready_def)
qed

lemma namex_end:
  assumes r: "ready p ls L V S s" and h: "refers R ip n (inodes s)" "live V S n" and sk: "skipelem path = None"
  shows "\<exists>r t. namex_loop ip path par name s = Ok r t \<and> reached p ls L V S R (path_goal V S par n name (components path)) s r t"
proof (cases par)
  case True
  obtain t where t: "iput ip s = Ok () t" "ready p ls L V S t" "nframe p s t" "inodes t = dropped ip (inodes s)"
    using iput_ready [OF r h] by blast
  have "refc (inodes t) = R" using dropped_refers [of V S "inodes s"] r h(1) t(4) by (simp add: ready_def)
  then show ?thesis using True t sk skipelem_None [OF sk]
    by (intro exI [of _ None] exI [of _ t]) (simp add: namex_loop.simps [of _ path] kM_simps reached_def)
next
  case False
  then show ?thesis using r h(1) sk skipelem_None [OF sk]
    by (intro exI [of _ "Some (ip, name)"] exI [of _ s]) (simp add: namex_loop.simps [of _ path] kM_simps reached_def nframe_refl)
qed

lemma namex_found:
  assumes s1: "tx p ls L Map.empty V s1" "sb s1 = S" "itab V S (inodes s1)" "refers R ip n (inodes s1)" "live V S n"
      "ilocked p ip s1" "\<forall>k. k \<noteq> ip \<longrightarrow> \<not> sl_locked (sleeplocks s1 (InodeLock k))"
    and L: "length L < NBUF" and d: "lookup_result p ls L V ip (Some de) s1 r s2"
  shows "\<exists>jp off u. r = Some (jp, off) \<and> iunlockput ip s2 = Ok () u \<and> ready p ls L V S u \<and> nframe p s1 u \<and>
    refers R jp (ucast (de_inum de)) (inodes u)"
proof -
  let ?m = "ucast (de_inum de) :: u32"
  obtain jp off where j: "r = Some (jp, off)" "jp < NINODE" "inodes s2 = taken ?m jp (inodes s1)"
      "0 < i_ref (inodes s1 jp) \<Longrightarrow> i_inum (inodes s1 jp) = ?m" "\<not> 0 < i_ref (inodes s1 jp) \<Longrightarrow> refc (inodes s1) ?m = 0"
    and s2: "tx p ls L Map.empty V s2" "nframe p s1 s2" "same_ilocks s1 s2"
    using d by (auto simp: lookup_result_def)
  note t = taken_refers [OF s1(3) j(2) j(4,5) s1(4)]
  have lk: "ilocked p ip s2" "\<forall>k. k \<noteq> ip \<longrightarrow> \<not> sl_locked (sleeplocks s2 (InodeLock k))"
    using s1(6,7) s2(3) nframeD(2) [OF s2(2)] by (simp_all add: ilocked_def same_ilocks_def)
  obtain u where "iunlockput ip s2 = Ok () u" "ready p ls L V S u" "nframe p s2 u" "inodes u = dropped ip (inodes s2)"
    using iunlockput_ready [OF s2(1) _ _ L _ s1(5) lk] t(1,2) j(3) s1(2) nframeD(1) [OF s2(2)] by auto
  then show ?thesis using j(1,3) t(3) nframe_trans [OF s2(2)] by auto
qed

lemma namex_step:
  assumes tree: "tree_ok V S" and R: "card {m. R m \<noteq> 0} + 2 \<le> NINODE"
    and r: "ready p ls L V S s" and h: "refers R ip n (inodes s)" "live V S n" and sk: "skipelem path = Some (rest, c)"
  shows "(\<exists>r t. namex_loop ip path par name s = Ok r t \<and> reached p ls L V S R (path_goal V S par n name (components path)) s r t) \<or>
    (\<exists>jp m s'. namex_loop ip path par name s = namex_loop jp rest par c s' \<and> nframe p s s' \<and> ready p ls L V S s' \<and>
       refers R jp m (inodes s') \<and> live V S m \<and>
       path_goal V S par n name (components path) = path_goal V S par m c (components rest))"
proof -
  note step = namex_loop.simps [of ip path] and cs = skipelem_Some [OF sk]
  obtain s1 where s1: "ilock (Some ip) s = Ok () s1" "tx p ls L Map.empty V s1" "sb s1 = S" "itab V S (inodes s1)" "nframe p s s1"
      "refers R ip n (inodes s1)" "copy_of (inodes s1 ip) (dino V S n)" "i_dev (inodes s1 ip) = ROOTDEV"
      "ilocked p ip s1" "\<forall>k. k \<noteq> ip \<longrightarrow> \<not> sl_locked (sleeplocks s1 (InodeLock k))"
    using ilock_ready [OF r h] by blast
  have L: "length L < NBUF" using r by (simp add: ready_def)
  have ty: "i_type (inodes s1 ip) = di_type (dino V S n)" using s1(7) by (simp add: copy_of_def)
  have giveup: "\<exists>u. iunlockput ip s2 = Ok () u \<and> reached p ls L V S R None s None u"
    if s2: "tx p ls L Map.empty V s2" "nframe p s1 s2" "same_ilocks s1 s2" "inodes s2 = inodes s1" for s2
  proof -
    have lk: "ilocked p ip s2" "\<forall>k. k \<noteq> ip \<longrightarrow> \<not> sl_locked (sleeplocks s2 (InodeLock k))"
      using s1(9,10) s2(3) nframeD(2) [OF s2(2)] by (simp_all add: ilocked_def same_ilocks_def)
    obtain u where "iunlockput ip s2 = Ok () u" "ready p ls L V S u" "nframe p s2 u" "inodes u = dropped ip (inodes s2)"
      using iunlockput_ready [OF s2(1) _ _ L _ h(2) lk] s1(3,4,6) s2(4) nframeD(1) [OF s2(2)] by auto
    then show ?thesis using dropped_refers [OF s1(4,6)] s2(4) nframe_trans [OF s1(5) nframe_trans [OF s2(2)]]
      by (auto simp: reached_def)
  qed
  consider (nodir) "di_type (dino V S n) \<noteq> T_DIR" | (lastelem) "di_type (dino V S n) = T_DIR" "par \<and> rest = []"
    | (isdir) "di_type (dino V S n) = T_DIR" "\<not> (par \<and> rest = [])" by blast
  then show ?thesis
  proof cases
    case nodir
    then show ?thesis using giveup [OF s1(2) nframe_refl _ refl] sk s1(1) ty cs(1)
      by (auto simp: step kM_simps getinode_def same_ilocks_def)
  next
    case lastelem
    obtain v where v: "iunlock (Some ip) s1 = Ok () v" "ready p ls L V S v" "nframe p s1 v" "inodes v = inodes s1"
      using iunlock_ready [OF s1(2-4) L _ s1(9,10)] s1(6) by (auto simp: refers_def)
    have "namex_loop ip path par name s = Ok (Some (ip, c)) v" using sk s1(1) v(1) ty lastelem by (simp add: step kM_simps getinode_def)
    moreover have "reached p ls L V S R (Some (n, c)) s (Some (ip, c)) v"
      using v(2,4) s1(6) nframe_trans [OF s1(5) v(3)] by (simp add: reached_def)
    ultimately show ?thesis using lastelem cs by auto
  next
    case isdir
    have dk: "dir_ok V (inodes s1 ip)" "dirents V (inodes s1 ip) = dirents V (dnode V S n)"
      using tree_okD(1) [OF tree h(2) isdir(1)] dnode_copy [OF s1(7)] s1(8) by simp_all
    let ?e = "find (names c) (dirents V (dnode V S n))"
    have "card {m. refc (inodes s1) m \<noteq> 0} < NINODE" using card_refers [OF s1(6)] R by simp
    then obtain x s2 where d: "dirlookup ip c s1 = Ok x s2" "lookup_result p ls L V ip ?e s1 x s2"
      using dirlookup_run [OF s1(2) dk(1) L s1(4), of c] dk(2) by auto
    show ?thesis
    proof (cases ?e)
      case None
      then have "x = None" "tx p ls L Map.empty V s2" "nframe p s1 s2" "same_ilocks s1 s2" "inodes s2 = inodes s1"
        using d(2) by (simp_all add: lookup_result_def)
      then obtain u where u: "iunlockput ip s2 = Ok () u" "reached p ls L V S R None s None u" using giveup by blast
      have "namex_loop ip path par name s = Ok None u"
        using \<open>x = None\<close> sk s1(1) d(1) ty isdir u(1) by (auto simp: step kM_simps getinode_def)
      then show ?thesis using u(2) isdir cs None by auto
    next
      case (Some de)
      then have "names c de" "de \<in> set (dirents V (dnode V S n))" by (auto simp: find_Some_iff)
      then have lv: "live V S (ucast (de_inum de))" using tree_okD(2) [OF tree h(2) isdir(1)] by (simp add: names_def)
      obtain jp off u where u: "x = Some (jp, off)" "iunlockput ip s2 = Ok () u" "ready p ls L V S u" "nframe p s1 u"
          "refers R jp (ucast (de_inum de)) (inodes u)"
        using namex_found [OF s1(2-4,6) h(2) s1(9,10) L d(2) [unfolded Some]] by blast
      have "namex_loop ip path par name s = namex_loop jp rest par c u"
        using sk s1(1) d(1) u(1,2) ty isdir by (auto simp: step kM_simps getinode_def)
      moreover have "path_goal V S par n name (components path) = path_goal V S par (ucast (de_inum de)) c (components rest)"
        using isdir cs Some by auto
      ultimately show ?thesis using u(3,5) nframe_trans [OF s1(5) u(4)] lv by blast
    qed
  qed
qed

lemma namex_loop_run:
  assumes tree: "tree_ok V S" and R: "card {m. R m \<noteq> 0} + 2 \<le> NINODE"
  shows "ready p ls L V S s \<Longrightarrow> refers R ip n (inodes s) \<Longrightarrow> live V S n \<Longrightarrow>
    \<exists>r t. namex_loop ip path par name s = Ok r t \<and> reached p ls L V S R (path_goal V S par n name (components path)) s r t"
proof (induction "length path" arbitrary: path ip n name s rule: less_induct)
  case less
  show ?case
  proof (cases "skipelem path")
    case None
    then show ?thesis using namex_end [OF less(2-4)] by blast
  next
    case (Some rn)
    then obtain rest c where sk: "skipelem path = Some (rest, c)" by (cases rn) simp
    show ?thesis
      using namex_step [OF tree R less(2-4) sk, of par name] less(1) [OF skipelem_shorter [OF sk]] reached_step by metis
  qed
qed

lemma namex_run:
  assumes r: "ready p ls L V S s" and tree: "tree_ok V S" and R: "card {n. refc (inodes s) n \<noteq> 0} + 2 \<le> NINODE"
    and n: "start_inode p path s n" "live V S n"
  shows "\<exists>r t. namex path par s = Ok r t \<and> reached p ls L V S (refc (inodes s)) (path_goal V S par n [] (components path)) s r t"
proof -
  have tx: "tx p ls L Map.empty V s" and it: "itab V S (inodes s)" using r by (simp_all add: ready_def)
  note ctx = tx_ctx [OF tx]
  obtain ip where ip: "ip < NINODE" "0 < i_ref (inodes s ip) \<Longrightarrow> i_inum (inodes s ip) = n" "\<not> 0 < i_ref (inodes s ip) \<Longrightarrow> refc (inodes s) n = 0"
    "namex path par s = namex_loop ip path par [] ((touch s)\<lparr>inodes := taken n ip (inodes s)\<rparr>)"
  proof (cases "path \<noteq> [] \<and> hd path = 47")
    case True
    then have n': "n = ROOTINO" using n(1) by (simp add: start_inode_def)
    obtain ip where "ip < NINODE" "iget ROOTDEV n s = Ok ip ((touch s)\<lparr>inodes := taken n ip (inodes s)\<rparr>)"
        "0 < i_ref (inodes s ip) \<longrightarrow> i_inum (inodes s ip) = n" "\<not> 0 < i_ref (inodes s ip) \<longrightarrow> refc (inodes s) n = 0"
      using iget_run [OF ctx it, of n] R by auto
    then show ?thesis using that [of ip] True n' by (simp add: namex_def kM_simps)
  next
    case False
    then obtain cp where cp: "p_cwd (procs s ! p) = Some cp" "cp < NINODE" "0 < i_ref (inodes s cp)" "i_inum (inodes s cp) = n"
      using n(1) by (auto simp: start_inode_def)
    have "curproc s = Ok p (touch s)" using proc_ctxD [OF ctx] by (simp add: curproc_run)
    then show ?thesis using that [of cp] cp False idup_run [of p "touch s" cp] proc_ctx_touch ctx
      by (auto simp: namex_def kM_simps derefK_def)
  qed
  let ?s = "(touch s)\<lparr>inodes := taken n ip (inodes s)\<rparr>"
  note t = taken_props [OF it ip(1-3)]
  have "ready p ls L V S ?s" "refers (refc (inodes s)) ip n (inodes ?s)" using r t(1-4) ip(1) by (simp_all add: ready_def refers_def)
  then show ?thesis using namex_loop_run [OF tree R, of p ls L ?s ip n path par "[]"] n(2) ip(4) reached_step [OF nframe_inodes(1)] by metis
qed

text \<open>
  C31. Calling \<^verbatim>\<open>skipelem\<close> again and again yields the elements of a path: it fails exactly when there is no element, and
  otherwise returns the first one, cut to \<^verbatim>\<open>DIRSIZ\<close> characters, with a rest that has the remaining ones.
\<close>

theorem skipelem_components:
  "map_option (\<lambda>(rest, name). name # components rest) (skipelem path) = (if components path = [] then None else Some (components path))"
  using skipelem_None [of path] skipelem_Some(1) [of path] by (cases "skipelem path") auto

text \<open>
  C9. \<^verbatim>\<open>namei\<close> resolves a path: for a well-formed directory tree (every directory has no holes and only entries of live
  inodes) it follows the elements of the path from the root, or from the working directory of the process, through the
  first directory entry with each name, skipping repeated slashes and comparing at most \<^verbatim>\<open>DIRSIZ\<close> characters. It returns
  the table entry of the inode reached, with exactly one reference more than before, and 0 with no reference kept when
  an element is missing or not a directory. The disk, all memory and all other reference counts are unchanged and no
  inode lock stays held.
\<close>

theorem namei_resolves:
  assumes "ready p ls L V S s" and "tree_ok V S" and "card {n. refc (inodes s) n \<noteq> 0} + 2 \<le> NINODE"
    and "start_inode p path s n" and "live V S n"
  shows "\<exists>r t. namei path s = Ok r t \<and> ready p ls L V S t \<and> nframe p s t \<and>
    (case resolve V S n (components path) of
       None \<Rightarrow> r = None \<and> refc (inodes t) = refc (inodes s)
     | Some m \<Rightarrow> \<exists>ip. r = Some ip \<and> refers (refc (inodes s)) ip m (inodes t))"
proof -
  obtain r t where t: "namex path False s = Ok r t" "reached p ls L V S (refc (inodes s)) (path_goal V S False n [] (components path)) s r t"
    using namex_run [OF assms] by blast
  then show ?thesis
    by (intro exI [of _ "map_option fst r"] exI [of _ t])
      (auto simp: namei_def kM_simps reached_def path_goal_node split: option.splits)
qed

text \<open>
  C10. \<^verbatim>\<open>nameiparent\<close> resolves all elements of a path but the last: it returns the directory they lead to, with one more
  reference, and the last element as the name; 0 with no reference kept when the path has no element, an element is
  missing, or the inode reached is not a directory.
\<close>

theorem nameiparent_resolves:
  assumes "ready p ls L V S s" and "tree_ok V S" and "card {n. refc (inodes s) n \<noteq> 0} + 2 \<le> NINODE"
    and "start_inode p path s n" and "live V S n"
  shows "\<exists>r t. nameiparent path s = Ok r t \<and> ready p ls L V S t \<and> nframe p s t \<and>
    (case resolve_parent V S n (components path) of
       None \<Rightarrow> r = None \<and> refc (inodes t) = refc (inodes s)
     | Some (m, name) \<Rightarrow> \<exists>ip. r = Some (ip, name) \<and> refers (refc (inodes s)) ip m (inodes t))"
  using namex_run [OF assms, of True] by (simp add: nameiparent_def reached_def path_goal_parent)

section \<open>A small file system\<close>

definition free_ilocks :: "'a fs_state_scheme \<Rightarrow> 'a fs_state_scheme" where
  "free_ilocks s = s\<lparr>sleeplocks := \<lambda>lk. case lk of BufLock b \<Rightarrow> sleeplocks s (BufLock b)
     | InodeLock k \<Rightarrow> (sleeplocks s (InodeLock k))\<lparr>sl_locked := False\<rparr>, procs := procs s\<rparr>"

lemma free_ilocks:
  "tx p ls L H V (free_ilocks s) = tx p ls L H V s" "sb (free_ilocks s) = sb s" "inodes (free_ilocks s) = inodes s"
  "\<not> sl_locked (sleeplocks (free_ilocks s) (InodeLock k))"
proof -
  have "bc p H V (holds H L) (free_ilocks s) = bc p H V (holds H L) s" unfolding free_ilocks_def by (rule bc_inodelock) simp_all
  then show "tx p ls L H V (free_ilocks s) = tx p ls L H V s" by (simp add: tx_def log_hdr_def free_ilocks_def)
qed (simp_all add: free_ilocks_def)

text \<open>Inode 1 is the root directory with one entry, for file \<open>a\<close>, which is inode 2.\<close>

definition path_iblock :: "nat \<Rightarrow> u8" where
  "path_iblock k = (if k = 64 \<or> k = 70 \<or> k = 134 then 1 else if k = 72 then 16 else if k = 76 then 50 else if k = 128 then 2 else 0)"

definition path_D :: "u32 \<Rightarrow> u8 list" where
  "path_D = fsw_D(33 := map path_iblock [0..<BSIZE], 50 := map (\<lambda>k. if k = 0 then 2 else if k = 2 then 97 else 0) [0..<BSIZE])"

definition itab0 :: "nat \<Rightarrow> inode" where
  "itab0 = (\<lambda>_. \<lparr>i_dev = ROOTDEV, i_inum = 0, i_ref = 0, i_valid = False, i_type = 0, i_major = 0, i_minor = 0, i_nlink = 0, i_size = 0,
     i_addrs = []\<rparr>)"

lemma path_dino:
  assumes "n < 16"
  shows "dino path_D fsw_S n = get_dinode (64 * unat n) (path_D 33)"
proof -
  have n: "unat n < 16" using assms by (simp add: word_less_nat_alt)
  have "unat (n div of_nat IPB) = 0" using n by (simp add: unat_div IPB_def BSIZE_def)
  then have "n div of_nat IPB = 0" by (simp only: unat_eq_0)
  then show ?thesis using n by (simp add: dino_def IBLOCK_def fsw_S_def dinode_off_def IPB_def BSIZE_def)
qed

lemma take_drop_upt: "off + n \<le> N \<Longrightarrow> take n (drop off (map f [0..<N])) = map f [off..<off + n]"
  by (simp add: drop_map take_map add.commute)

lemma path_get:
  "off + 2 \<le> BSIZE \<Longrightarrow> get16 off (path_D 33) = le_word [path_iblock off, path_iblock (off + 1)]"
  "off + 4 \<le> BSIZE \<Longrightarrow> get32 off (path_D 33) = le_word [path_iblock off, path_iblock (off + 1), path_iblock (off + 2), path_iblock (off + 3)]"
proof -
  have D: "path_D 33 = map path_iblock [0..<BSIZE]" by (simp add: path_D_def)
  show "off + 2 \<le> BSIZE \<Longrightarrow> get16 off (path_D 33) = le_word [path_iblock off, path_iblock (off + 1)]"
    "off + 4 \<le> BSIZE \<Longrightarrow> get32 off (path_D 33) = le_word [path_iblock off, path_iblock (off + 1), path_iblock (off + 2), path_iblock (off + 3)]"
    unfolding get16_def get32_def D by (simp_all only: take_drop_upt) (simp_all add: numeral_eq_Suc)
qed

lemma path_dinodes:
  "dino path_D fsw_S 1 = \<lparr>di_type = T_DIR, di_major = 0, di_minor = 0, di_nlink = 1, di_size = 16, di_addrs = [50, 0, 0, 0, 0, 0, 0, 0, 0, 0, 0, 0, 0]\<rparr>"
  "dino path_D fsw_S 2 = \<lparr>di_type = T_FILE, di_major = 0, di_minor = 0, di_nlink = 1, di_size = 0, di_addrs = [0, 0, 0, 0, 0, 0, 0, 0, 0, 0, 0, 0, 0]\<rparr>"
  "n < 16 \<Longrightarrow> n \<noteq> 1 \<Longrightarrow> n \<noteq> 2 \<Longrightarrow> di_type (dino path_D fsw_S n) = 0"
proof -
  note g = path_dino get_dinode_def path_get BSIZE_def path_iblock_def NDIRECT_def T_DIR_def T_FILE_def upt_rec
  show "dino path_D fsw_S 1 = \<lparr>di_type = T_DIR, di_major = 0, di_minor = 0, di_nlink = 1, di_size = 16, di_addrs = [50, 0, 0, 0, 0, 0, 0, 0, 0, 0, 0, 0, 0]\<rparr>"
    "dino path_D fsw_S 2 = \<lparr>di_type = T_FILE, di_major = 0, di_minor = 0, di_nlink = 1, di_size = 0, di_addrs = [0, 0, 0, 0, 0, 0, 0, 0, 0, 0, 0, 0, 0]\<rparr>"
    by (simp_all add: g)
  assume n: "n < 16" "n \<noteq> 1" "n \<noteq> 2"
  then have u: "unat n < 16" "unat n \<noteq> 1" "unat n \<noteq> 2" by (auto simp: word_less_nat_alt word_unat_eq_iff)
  then have "unat n = 0 \<or> 3 \<le> unat n" by auto
  then have "path_iblock (64 * unat n) = 0" "path_iblock (Suc (64 * unat n)) = 0"
    by (auto simp: path_iblock_def) presburger+
  then show "di_type (dino path_D fsw_S n) = 0" using u n(1)
    by (simp add: path_dino get_dinode_def path_get BSIZE_def)
qed

lemma fsw_ninodes: "sb_ninodes fsw_S = 16"
  by (simp add: fsw_S_def)

lemma path_root:
  "live path_D fsw_S 1" "live path_D fsw_S 2" "dir_ok path_D (dnode path_D fsw_S 1)"
  "dirents path_D (dnode path_D fsw_S 1) = [\<lparr>de_inum = 2, de_name = [97, 0, 0, 0, 0, 0, 0, 0, 0, 0, 0, 0, 0, 0]\<rparr>]"
proof -
  have n: "dnode path_D fsw_S 1 = \<lparr>i_dev = ROOTDEV, i_inum = 1, i_ref = 0, i_valid = True, i_type = T_DIR, i_major = 0, i_minor = 0,
      i_nlink = 1, i_size = 16, i_addrs = [50, 0, 0, 0, 0, 0, 0, 0, 0, 0, 0, 0, 0]\<rparr>"
    by (simp add: dnode_def load_inode_def path_dinodes)
  have D: "path_D 50 = map (\<lambda>k. if k = 0 then 2 else if k = 2 then 97 else 0) [0..<BSIZE]" by (simp add: path_D_def)
  have b: "baddr path_D (dnode path_D fsw_S 1) (k div BSIZE) = 50" if "k < 16" for k
    using that by (simp add: n baddr_def NDIRECT_def BSIZE_def)
  show "live path_D fsw_S 1" "live path_D fsw_S 2" by (simp_all add: live_def path_dinodes fsw_ninodes T_DIR_def T_FILE_def)
  show "dir_ok path_D (dnode path_D fsw_S 1)"
    using b by (auto simp: dir_ok_def file_ok_def n D MAXFILE_def NDIRECT_def NINDIRECT_def BSIZE_def)
  have "fbytes path_D (dnode path_D fsw_S 1) 0 16 = map (\<lambda>k. if k = 0 then 2 else if k = 2 then 97 else 0) [0..<16]"
    unfolding fbytes_def using b by (intro map_cong) (auto simp: fbyte_def D BSIZE_def)
  then show "dirents path_D (dnode path_D fsw_S 1) = [\<lparr>de_inum = 2, de_name = [97, 0, 0, 0, 0, 0, 0, 0, 0, 0, 0, 0, 0, 0]\<rparr>]"
    by (simp add: dirents_def n get_dirent_def DIRSIZ_def upt_rec)
qed

lemma path_tree: "tree_ok path_D fsw_S"
proof -
  have one: "n = 1" if "n < 16" "di_type (dino path_D fsw_S n) = T_DIR" for n
    using that path_dinodes(2) path_dinodes(3) [of n] by (cases "n = 2"; cases "n = 1") (auto simp: T_DIR_def T_FILE_def)
  show ?thesis unfolding tree_ok_def fsw_ninodes
  proof (intro allI impI)
    fix n assume "n < 16" "live path_D fsw_S n \<and> di_type (dino path_D fsw_S n) = T_DIR"
    then have "n = 1" using one by blast
    then show "dir_ok path_D (dnode path_D fsw_S n) \<and> (\<forall>de \<in> set (dirents path_D (dnode path_D fsw_S n)). de_inum de \<noteq> 0 \<longrightarrow>
        live path_D fsw_S (ucast (de_inum de)))"
      using path_root by simp
  qed
qed

lemma path_state:
  "\<exists>s :: fs_state. ready 0 2 [] path_D fsw_S s \<and> refc (inodes s) = (\<lambda>_. 0) \<and> start_inode 0 (47 # path) s 1"
proof -
  obtain s :: fs_state where s: "tx 0 2 [] Map.empty path_D s" "sb s = fsw_S" "inodes s = itab0"
    using tx_exists [of path_D fsw_S itab0] by blast
  have "itab path_D fsw_S itab0" by (simp add: itab_def entry_ok_def itab0_def)
  then have "ready 0 2 [] path_D fsw_S (free_ilocks s)" using s by (simp add: ready_def free_ilocks NBUF_def MAXOPBLOCKS_def)
  moreover have "refc itab0 = (\<lambda>_. 0)" by (auto simp: refc_def itab0_def fun_eq_iff)
  ultimately show ?thesis using s(3) by (intro exI [of _ "free_ilocks s"]) (simp add: free_ilocks start_inode_def ROOTINO_def)
qed

text \<open>Looking up \<open>//a\<close> finds inode 2; the parent of \<open>/a/\<close> is the root.\<close>

theorem namei_resolves_witness: "\<exists>(s :: fs_state) ip t. namei [47, 47, 97] s = Ok (Some ip) t \<and> i_inum (inodes t ip) = 2"
proof -
  obtain s :: fs_state where s: "ready 0 2 [] path_D fsw_S s" "refc (inodes s) = (\<lambda>_. 0)" "start_inode 0 [47, 47, 97] s 1"
    using path_state by blast
  have c: "components [47, 47, 97] = [[97]]" by (simp add: components_def DIRSIZ_def)
  have "names [97] \<lparr>de_inum = 2, de_name = [97, 0, 0, 0, 0, 0, 0, 0, 0, 0, 0, 0, 0, 0]\<rparr>"
    by (simp add: names_def cstr_def DIRSIZ_def upt_rec nthz_def)
  then have "resolve path_D fsw_S 1 [[97]] = Some 2" by (simp add: path_dinodes path_root)
  then show ?thesis using namei_resolves [OF s(1) path_tree _ s(3) path_root(1)] s(2) c by (auto simp: NINODE_def refers_def)
qed

theorem nameiparent_resolves_witness:
  "\<exists>(s :: fs_state) ip t. nameiparent [47, 97, 47] s = Ok (Some (ip, [97])) t \<and> i_inum (inodes t ip) = 1"
proof -
  obtain s :: fs_state where s: "ready 0 2 [] path_D fsw_S s" "refc (inodes s) = (\<lambda>_. 0)" "start_inode 0 [47, 97, 47] s 1"
    using path_state by blast
  have c: "components [47, 97, 47] = [[97]]" by (simp add: components_def DIRSIZ_def)
  have "resolve_parent path_D fsw_S 1 [[97]] = Some (1, [97])" by (simp add: resolve_parent_def path_dinodes)
  then show ?thesis using nameiparent_resolves [OF s(1) path_tree _ s(3) path_root(1)] s(2) c by (auto simp: NINODE_def refers_def)
qed

end
