(* ===== verification/Pipe.thy ===== *)
theory Pipe
  imports Fs Ring Vm_Copy Log_Commit
begin

text \<open>
  \<^verbatim>\<open>kernel/pipe.c\<close> (without \<^verbatim>\<open>pipealloc\<close>, see \<open>File\<close>) and the state of \<^verbatim>\<open>kernel/file.c\<close>. A pipe lives in a page
  of its own and is named by the address of that page; its structure is a field of the state.
\<close>

section \<open>State\<close>

definition PIPESIZE :: u32 where "PIPESIZE = 512"

record pipe =
  pi_data :: "u8 list"
  pi_nread :: u32
  pi_nwrite :: u32
  pi_readopen :: bool
  pi_writeopen :: bool

datatype fdtype = FD_NONE | FD_PIPE | FD_INODE | FD_DEVICE

record struct_file =
  f_type :: fdtype
  f_ref :: int
  f_readable :: bool
  f_writable :: bool
  f_pipe :: u64
  f_ip :: "nat option"
  f_off :: u32
  f_major :: u16

record file_state = fs_state +
  files :: "nat \<Rightarrow> struct_file"
  pipes :: "u64 \<Rightarrow> pipe"

definition modpipe :: "u64 \<Rightarrow> (pipe \<Rightarrow> pipe) \<Rightarrow> ('a file_state_scheme, unit) kM" where
  "modpipe pi f = modifyK (\<lambda>s. s\<lparr>pipes := (pipes s)(pi := f (pipes s pi))\<rparr>)"

section \<open>pipe.c\<close>

definition pipeclose :: "u64 \<Rightarrow> bool \<Rightarrow> ('a file_state_scheme, unit) kM" where
  "pipeclose pi writable =
     thenK (acquire (PipeLock pi)) (
     thenK (if writable then
         thenK (modpipe pi (pi_writeopen_update (\<lambda>_. False))) (
         wakeup (ChanPipeRead pi))
       else
         thenK (modpipe pi (pi_readopen_update (\<lambda>_. False))) (
         wakeup (ChanPipeWrite pi))) (
     bindK (getsK (\<lambda>s. \<not> pi_readopen (pipes s pi) \<and> \<not> pi_writeopen (pipes s pi))) (\<lambda>closed.
     if closed then thenK (release (PipeLock pi)) (kfree pi)
     else release (PipeLock pi))))"

text \<open>
  The loop of \<^verbatim>\<open>pipewrite\<close>: \<open>k\<close> bounds how often the pipe may be found full, \<open>left\<close> is \<^verbatim>\<open>n - i\<close>. The result is
  \<open>None\<close> where the routine returns \<open>-1\<close>.
\<close>

function pipewrite_loop :: "u64 \<Rightarrow> nat \<Rightarrow> nat \<Rightarrow> u64 \<Rightarrow> nat \<Rightarrow> int \<Rightarrow> ('a file_state_scheme, int option) kM" where
  "pipewrite_loop pi pr k addr left i =
     (if left = 0 then returnK (Some i) else
      bindK (getsK (\<lambda>s. pi_readopen (pipes s pi))) (\<lambda>ro.
      bindK (if \<not> ro then returnK True else killed pr) (\<lambda>dead.
      if dead then returnK None else
      bindK (getsK (\<lambda>s. pi_nwrite (pipes s pi) = pi_nread (pipes s pi) + PIPESIZE)) (\<lambda>full.
      if full then
        thenK (wakeup (ChanPipeRead pi)) (
        thenK (sleep (ChanPipeWrite pi) (PipeLock pi)) (
        if k = 0 then spinK else pipewrite_loop pi pr (k - 1) addr left i))
      else
        bindK (bindK (getsK (\<lambda>s. p_pagetable (procs s ! pr))) (\<lambda>pt. copyin pt (addr + of_int i) 1)) (\<lambda>(r, bs).
        if r = -1 then returnK (Some i) else
        thenK (modpipe pi (\<lambda>p. p\<lparr>pi_data := (pi_data p)[unat (pi_nwrite p mod PIPESIZE) := bs ! 0],
                                 pi_nwrite := pi_nwrite p + 1\<rparr>)) (
        pipewrite_loop pi pr k addr (left - 1) (i + 1)))))))"
  by pat_completeness auto
termination
  by (relation "measure (\<lambda>(_, _, k, _, left, _). k + left)") auto

declare pipewrite_loop.simps [simp del]

definition pipewrite :: "u64 \<Rightarrow> u64 \<Rightarrow> int \<Rightarrow> ('a file_state_scheme, int) kM" where
  "pipewrite pi addr n =
     bindK curproc (\<lambda>pr.
     thenK (acquire (PipeLock pi)) (
     bindK (bindK (getsK fuel) (\<lambda>k. pipewrite_loop pi pr k addr (nat n) 0)) (\<lambda>r.
     case r of
       None \<Rightarrow> thenK (release (PipeLock pi)) (returnK (-1))
     | Some i \<Rightarrow>
         thenK (wakeup (ChanPipeRead pi)) (
         thenK (release (PipeLock pi)) (
         returnK i)))))"

text \<open>Waiting for data; the result says whether the process was killed.\<close>

fun piperead_wait :: "u64 \<Rightarrow> nat \<Rightarrow> nat \<Rightarrow> ('a file_state_scheme, bool) kM" where
  "piperead_wait pi pr 0 = spinK"
| "piperead_wait pi pr (Suc k) =
     bindK (getsK (\<lambda>s. pi_nread (pipes s pi) = pi_nwrite (pipes s pi) \<and> pi_writeopen (pipes s pi))) (\<lambda>wait.
     if \<not> wait then returnK False else
     bindK (killed pr) (\<lambda>kl.
     if kl then returnK True else
     thenK (sleep (ChanPipeRead pi) (PipeLock pi)) (
     piperead_wait pi pr k)))"

fun piperead_loop :: "u64 \<Rightarrow> nat \<Rightarrow> u64 \<Rightarrow> nat \<Rightarrow> int \<Rightarrow> ('a file_state_scheme, int) kM" where
  "piperead_loop pi pr addr 0 i = returnK i"
| "piperead_loop pi pr addr (Suc left) i =
     bindK (getsK (\<lambda>s. pi_nread (pipes s pi) = pi_nwrite (pipes s pi))) (\<lambda>none.
     if none then returnK i else
     bindK (getsK (\<lambda>s. pi_data (pipes s pi) ! unat (pi_nread (pipes s pi) mod PIPESIZE))) (\<lambda>ch.
     thenK (modpipe pi (\<lambda>p. p\<lparr>pi_nread := pi_nread p + 1\<rparr>)) (
     bindK (bindK (getsK (\<lambda>s. p_pagetable (procs s ! pr))) (\<lambda>pt. copyout pt (addr + of_int i) [ch])) (\<lambda>r.
     if r = -1 then returnK i else piperead_loop pi pr addr left (i + 1)))))"

definition piperead :: "u64 \<Rightarrow> u64 \<Rightarrow> int \<Rightarrow> ('a file_state_scheme, int) kM" where
  "piperead pi addr n =
     bindK curproc (\<lambda>pr.
     thenK (acquire (PipeLock pi)) (
     bindK (bindK (getsK fuel) (\<lambda>k. piperead_wait pi pr (Suc k))) (\<lambda>kl.
     if kl then thenK (release (PipeLock pi)) (returnK (-1)) else
     bindK (piperead_loop pi pr addr (nat n) 0) (\<lambda>i.
     thenK (wakeup (ChanPipeWrite pi)) (
     thenK (release (PipeLock pi)) (
     returnK i))))))"

section \<open>The pipe as a queue\<close>

interpretation pipe_ring: ring_buffer PIPESIZE
  by unfold_locales (simp_all add: PIPESIZE_def)

definition pipe_ok :: "pipe \<Rightarrow> bool" where
  "pipe_ok p \<longleftrightarrow> ring_ok PIPESIZE (pi_data p) (pi_nread p) (pi_nwrite p)"

definition pipe_queue :: "pipe \<Rightarrow> u8 list" where
  "pipe_queue p = ring_contents PIPESIZE (pi_data p) (pi_nread p) (pi_nwrite p)"

definition pipe_put :: "u8 \<Rightarrow> pipe \<Rightarrow> pipe" where
  "pipe_put c p = p\<lparr>pi_data := (pi_data p)[unat (pi_nwrite p mod PIPESIZE) := c], pi_nwrite := pi_nwrite p + 1\<rparr>"

definition pipe_get :: "pipe \<Rightarrow> pipe" where
  "pipe_get p = p\<lparr>pi_nread := pi_nread p + 1\<rparr>"

lemma pipe_full: "pipe_ok p \<Longrightarrow> pi_nwrite p = pi_nread p + PIPESIZE \<longleftrightarrow> length (pipe_queue p) = 512"
  using pipe_ring.ring_full [of "pi_data p" "pi_nread p" "pi_nwrite p"]
  by (simp add: pipe_ok_def pipe_queue_def PIPESIZE_def)

lemma pipe_put:
  assumes "pipe_ok p" "length (pipe_queue p) < 512"
  shows "pipe_ok (pipe_put c p)" "pipe_queue (pipe_put c p) = pipe_queue p @ [c]"
proof -
  have ok: "ring_ok PIPESIZE (pi_data p) (pi_nread p) (pi_nwrite p)" and "pi_nwrite p \<noteq> pi_nread p + PIPESIZE"
    using assms pipe_full [of p] by (auto simp: pipe_ok_def)
  from pipe_ring.ring_push [OF this] show "pipe_ok (pipe_put c p)" "pipe_queue (pipe_put c p) = pipe_queue p @ [c]"
    by (simp_all add: pipe_ok_def pipe_queue_def pipe_put_def ring_at_def)
qed

lemma pipe_get:
  assumes "pipe_ok p" "pi_nread p \<noteq> pi_nwrite p"
  shows "pipe_ok (pipe_get p)"
    "pipe_queue p = pi_data p ! unat (pi_nread p mod PIPESIZE) # pipe_queue (pipe_get p)"
  using pipe_ring.ring_pop [of "pi_data p" "pi_nread p" "pi_nwrite p"] assms
  by (simp_all add: pipe_ok_def pipe_queue_def pipe_get_def ring_at_def)

lemma pipe_len: "pipe_ok p \<Longrightarrow> length (pipe_queue p) \<le> 512"
  by (simp add: pipe_ok_def pipe_queue_def ring_ok_def PIPESIZE_def)

lemma pipe_empty: "pipe_queue p = [] \<longleftrightarrow> pi_nread p = pi_nwrite p"
  by (auto simp: pipe_queue_def ring_empty)

lemma pipe_put_fold:
  assumes "pipe_ok p" "length (pipe_queue p) + length bs \<le> 512"
  shows "pipe_ok (fold pipe_put bs p) \<and> pipe_queue (fold pipe_put bs p) = pipe_queue p @ bs"
  using assms
proof (induction bs arbitrary: p)
  case (Cons c bs)
  then show ?case using pipe_put [of p c] by simp
qed simp

lemma pipe_put_flags [simp]: "pi_readopen (fold pipe_put bs p) = pi_readopen p" "pi_writeopen (fold pipe_put bs p) = pi_writeopen p"
  by (induction bs arbitrary: p) (simp_all add: pipe_put_def)

section \<open>Operations of a pipe in a process context\<close>

lemma pipe_frame [simp]:
  "pipes (acq lk s) = pipes s" "pipes (rel lk s) = pipes s" "pipes (touch s) = pipes s"
  "files (acq lk s) = files s" "files (rel lk s) = files s" "files (touch s) = files s"
  by (simp_all add: acq_def rel_def pushed_def popped_def touch_def Let_def)

lemma pipe_commute [lock_commute]:
  "rel lk (s\<lparr>pipes := P\<rparr>) = (rel lk s)\<lparr>pipes := P\<rparr>" "acq lk (s\<lparr>pipes := P\<rparr>) = (acq lk s)\<lparr>pipes := P\<rparr>"
  "touch (s\<lparr>pipes := P\<rparr>) = (touch s)\<lparr>pipes := P\<rparr>"
  "rel lk (s\<lparr>files := F\<rparr>) = (rel lk s)\<lparr>files := F\<rparr>" "acq lk (s\<lparr>files := F\<rparr>) = (acq lk s)\<lparr>files := F\<rparr>"
  "touch (s\<lparr>files := F\<rparr>) = (touch s)\<lparr>files := F\<rparr>"
  by (simp_all add: rel_def popped_def acq_def pushed_def touch_def Let_def sie_def)

lemma pipe_upd [simp]:
  "cpu_inv (s\<lparr>pipes := P\<rparr>) = cpu_inv s" "lock_free lk (s\<lparr>pipes := P\<rparr>) = lock_free lk s"
  "cpu_inv (s\<lparr>files := F\<rparr>) = cpu_inv s" "lock_free lk (s\<lparr>files := F\<rparr>) = lock_free lk s"
  by (simp_all add: cpu_inv_def sie_def lock_free_def)

text \<open>The bytes a process can read from \<open>n\<close> bytes of its memory, up to the first one that is not mapped.\<close>

fun uprefix :: "memory \<Rightarrow> u64 \<Rightarrow> u64 \<Rightarrow> nat \<Rightarrow> u8 list" where
  "uprefix m root va 0 = []"
| "uprefix m root va (Suc n) = (case uaddr m root va of None \<Rightarrow> [] | Some a \<Rightarrow> m a # uprefix m root (va + 1) n)"

lemma length_uprefix: "length (uprefix m root va n) \<le> n"
  by (induction n arbitrary: va) (auto split: option.split)

lemma copyin_1:
  assumes "user_inv e (mem s) root"
  shows "\<exists>bs. copyin root va 1 s = Ok (if uaddr (mem s) root va = None then (-1, bs) else (0, [mem s (the (uaddr (mem s) root va))])) s"
proof -
  obtain r bs where "copyin root va 1 s = Ok (r, bs) s"
      "case uread (mem s) root va 1 of Some bs' \<Rightarrow> r = 0 \<and> bs = bs' | None \<Rightarrow> r = -1"
    using copyin_spec [of e s root va 1] assms by (auto simp: user_inv_def)
  moreover have "uread (mem s) root va 1 = (case uaddr (mem s) root va of None \<Rightarrow> None | Some a \<Rightarrow> Some [mem s a])"
    by (simp add: One_nat_def del: One_nat_def flip: One_nat_def split: option.split) (simp split: option.split)
  ultimately show ?thesis by (auto split: option.splits)
qed

lemma pipewrite_loop_run:
  assumes "cpu_inv s" "touch s = s" "lock_free (ProcLock pr) s" "\<not> p_killed (procs s ! pr)"
    and "user_inv e (mem s) (p_pagetable (procs s ! pr))"
    and "pi_readopen (pipes s pi)" "pipe_ok (pipes s pi)"
    and "length (pipe_queue (pipes s pi)) + length (uprefix (mem s) (p_pagetable (procs s ! pr)) (addr + of_int i) left) \<le> 512"
  defines "bs \<equiv> uprefix (mem s) (p_pagetable (procs s ! pr)) (addr + of_int i) left"
  shows "length bs < left \<longrightarrow> length (pipe_queue (pipes s pi)) + length bs < 512 \<Longrightarrow>
     pipewrite_loop pi pr k addr left i s = Ok (Some (i + int (length bs))) (s\<lparr>pipes := (pipes s)(pi := fold pipe_put bs (pipes s pi))\<rparr>)"
  unfolding bs_def using assms(1-8)
proof (induction left arbitrary: i s)
  case 0
  then show ?case by (simp add: pipewrite_loop.simps kM_simps)
next
  case (Suc left)
  let ?pt = "p_pagetable (procs s ! pr)" and ?va = "addr + of_int i"
  obtain bs where c: "copyin ?pt ?va 1 s = Ok (if uaddr (mem s) ?pt ?va = None then (-1, bs) else (0, [mem s (the (uaddr (mem s) ?pt ?va))])) s"
    using copyin_1 [OF Suc.prems(6)] by blast
  have room: "length (pipe_queue (pipes s pi)) < 512"
    using Suc.prems(1,9) by (auto split: option.splits)
  then have nf: "pi_nwrite (pipes s pi) \<noteq> pi_nread (pipes s pi) + PIPESIZE" using pipe_full [OF Suc.prems(8)] by simp
  note kl = killed_run [OF Suc.prems(2,4)]
  show ?case
  proof (cases "uaddr (mem s) ?pt ?va")
    case None
    then show ?thesis using c nf Suc.prems by (simp add: pipewrite_loop.simps [of pi pr k addr "Suc left"] kM_simps kl)
  next
    case (Some a)
    let ?s = "s\<lparr>pipes := (pipes s)(pi := pipe_put (mem s a) (pipes s pi))\<rparr>"
    have q: "pipe_ok (pipe_put (mem s a) (pipes s pi))" "pipe_queue (pipe_put (mem s a) (pipes s pi)) = pipe_queue (pipes s pi) @ [mem s a]"
      using pipe_put [OF Suc.prems(8) room] by auto
    have ad: "addr + of_int (i + 1) = ?va + 1" by (simp add: add.assoc)
    have "pi_readopen (pipe_put (mem s a) (pipes s pi))" using Suc.prems(7) by (simp add: pipe_put_def)
    moreover have "touch ?s = ?s" using Suc.prems(3) by (simp add: lock_commute)
    ultimately have "pipewrite_loop pi pr k addr left (i + 1) ?s
        = Ok (Some (i + 1 + int (length (uprefix (mem s) ?pt (?va + 1) left))))
          (s\<lparr>pipes := (pipes s)(pi := fold pipe_put (uprefix (mem s) ?pt (?va + 1) left) (pipe_put (mem s a) (pipes s pi)))\<rparr>)"
      using Suc.IH [of ?s "i + 1"] Suc.prems q Some unfolding ad by (simp add: fun_upd_def cong: if_cong)
    moreover have "pipewrite_loop pi pr k addr (Suc left) i s = pipewrite_loop pi pr k addr left (i + 1) ?s"
      using c nf Suc.prems Some
      by (simp add: pipewrite_loop.simps [of pi pr k addr "Suc left"] kM_simps kl modpipe_def pipe_put_def)
    ultimately show ?thesis using Some by (simp add: fun_upd_def)
  qed
qed

lemma pipewrite_spec:
  fixes n :: int and addr :: u64
  assumes ctx: "proc_ctx p s" and live: "\<not> p_killed (procs s ! p)"
    and inv: "user_inv e (mem s) (p_pagetable (procs s ! p))" and pi: "pi_readopen (pipes s pi)" "pipe_ok (pipes s pi)"
  defines "bs \<equiv> uprefix (mem s) (p_pagetable (procs s ! p)) addr (nat n)"
  assumes room: "length (pipe_queue (pipes s pi)) + length bs \<le> 512"
    "length bs < nat n \<Longrightarrow> length (pipe_queue (pipes s pi)) + length bs < 512"
  shows "pipewrite pi addr n s = Ok (int (length bs)) ((touch s)\<lparr>pipes := (pipes s)(pi := fold pipe_put bs (pipes s pi)),
    procs := woken (Some p) (ChanPipeRead pi) (procs s)\<rparr>)"
proof -
  note d = proc_ctxD [OF ctx]
  let ?a = "acq (PipeLock pi) s" and ?P = "(pipes s)(pi := fold pipe_put bs (pipes s pi))"
  have loop: "pipewrite_loop pi p (fuel s) addr (nat n) 0 ?a = Ok (Some (int (length bs))) (?a\<lparr>pipes := ?P\<rparr>)"
    using pipewrite_loop_run [of ?a p e pi addr 0 "nat n" "fuel s"] d assms by (simp add: bs_def)
  have "wakeup (ChanPipeRead pi) (?a\<lparr>pipes := ?P\<rparr>) = Ok () (?a\<lparr>pipes := ?P, procs := woken (Some p) (ChanPipeRead pi) (procs s)\<rparr>)"
    using section_wakeup [OF ctx, of "PipeLock pi" "?a\<lparr>pipes := ?P\<rparr>"] d(4) by (simp add: hart_eq_def)
  moreover have "release (PipeLock pi) (?a\<lparr>pipes := ?P, procs := ps\<rparr>) = Ok () ((touch s)\<lparr>pipes := ?P, procs := ps\<rparr>)" for ps
    using section_release [OF ctx, of "PipeLock pi" "?a\<lparr>pipes := ?P, procs := ps\<rparr>"] d(1,2)
    by (simp add: hart_eq_def lock_commute rel_acq)
  ultimately show ?thesis
    using d loop by (simp add: pipewrite_def kM_simps curproc_run acquire_free acq_touch)
qed

lemma piperead_loop_run:
  assumes "user_inv e (mem s) (p_pagetable (procs s ! pr))" "pipe_ok (pipes s pi)"
    and "\<And>j. j < min left (length (pipe_queue (pipes s pi))) \<Longrightarrow> uwritable (mem s) (p_pagetable (procs s ! pr)) (addr + of_int i + of_nat j)"
  shows "\<exists>m p'. piperead_loop pi pr addr left i s
      = Ok (i + int (min left (length (pipe_queue (pipes s pi))))) (s\<lparr>pipes := (pipes s)(pi := p'), mem := m\<rparr>) \<and>
    user_inv e m (p_pagetable (procs s ! pr)) \<and> (\<forall>va. lpte m (p_pagetable (procs s ! pr)) va = lpte (mem s) (p_pagetable (procs s ! pr)) va) \<and>
    uwritten (mem s) (p_pagetable (procs s ! pr)) (addr + of_int i) (take left (pipe_queue (pipes s pi))) m \<and>
    pipe_ok p' \<and> pipe_queue p' = drop left (pipe_queue (pipes s pi)) \<and>
    pi_readopen p' = pi_readopen (pipes s pi) \<and> pi_writeopen p' = pi_writeopen (pipes s pi)"
  using assms
proof (induction left arbitrary: i s)
  case 0
  have "s = s\<lparr>pipes := (pipes s)(pi := pipes s pi), mem := mem s\<rparr>" by simp
  then show ?case using 0 by (intro exI [of _ "mem s"] exI [of _ "pipes s pi"]) (simp add: kM_simps uwritten_def)
next
  case (Suc left)
  let ?pt = "p_pagetable (procs s ! pr)" and ?va = "addr + of_int i" and ?p = "pipes s pi"
  show ?case
  proof (cases "pi_nread ?p = pi_nwrite ?p")
    case True
    then have "pipe_queue ?p = []" by (simp add: pipe_empty)
    then show ?thesis using Suc.prems True
      by (intro exI [of _ "mem s"] exI [of _ ?p]) (simp add: kM_simps uwritten_def)
  next
    case False
    let ?c = "pi_data ?p ! unat (pi_nread ?p mod PIPESIZE)" and ?p1 = "pipe_get ?p"
    note g = pipe_get [OF Suc.prems(2) False]
    let ?s = "s\<lparr>pipes := (pipes s)(pi := ?p1)\<rparr>"
    have w0: "uwritable (mem s) ?pt ?va" using Suc.prems(3) [of 0] g(2) by simp
    obtain r m1 k where c: "copyout ?pt ?va [?c] ?s = Ok r (?s\<lparr>mem := m1\<rparr>)" "user_inv e m1 ?pt"
        "\<And>va. lpte m1 ?pt va = lpte (mem s) ?pt va" "uwritten (mem s) ?pt ?va (take k [?c]) m1" "k \<le> 1"
        "r = 0 \<and> k = 1 \<or> r = -1 \<and> k < 1 \<and> \<not> uwritable (mem s) ?pt (?va + of_nat k)"
      using copyout_spec [of e ?s ?pt "[?c]" ?va] Suc.prems(1) by auto
    have r: "r = 0" "k = 1" using c(5,6) w0 by auto
    let ?t = "?s\<lparr>mem := m1\<rparr>"
    have va: "addr + of_int (i + 1) = ?va + 1" by (simp add: add.assoc)
    have w: "uwritable (mem ?t) ?pt (addr + of_int (i + 1) + of_nat j)" if "j < min left (length (pipe_queue ?p1))" for j
      using Suc.prems(3) [of "Suc j"] that g(2) uwritable_lpte [OF c(3)] by (simp add: add.assoc)
    obtain m p' where IH: "piperead_loop pi pr addr left (i + 1) ?t
        = Ok (i + 1 + int (min left (length (pipe_queue ?p1)))) (?t\<lparr>pipes := (pipes ?t)(pi := p'), mem := m\<rparr>)"
        "user_inv e m ?pt" "\<And>va. lpte m ?pt va = lpte m1 ?pt va" "uwritten m1 ?pt (?va + 1) (take left (pipe_queue ?p1)) m"
        "pipe_ok p'" "pipe_queue p' = drop left (pipe_queue ?p1)" "pi_readopen p' = pi_readopen ?p" "pi_writeopen p' = pi_writeopen ?p"
      using Suc.IH [of ?t "i + 1"] c(2) g(1) w unfolding va
      by (auto simp: pipe_get_def fun_upd_def cong: if_cong)
    have "length (take left (pipe_queue ?p1)) \<le> 512" using pipe_len [OF g(1)] by simp
    then have "uwritten (mem s) ?pt ?va ([?c] @ take left (pipe_queue ?p1)) m"
      using uwritten_append [OF Suc.prems(1), of ?va "[?c]" m1 "take left (pipe_queue ?p1)" m] c(4) r uaddr_lpte [OF c(3)] IH(4)
      by simp
    moreover have "piperead_loop pi pr addr (Suc left) i s = piperead_loop pi pr addr left (i + 1) ?t"
      using False c(1) r by (simp add: kM_simps modpipe_def pipe_get_def)
    ultimately show ?thesis using IH(2,5-8) c(3) IH(1,3) by (intro exI [of _ m] exI [of _ p']) (simp add: g(2) fun_upd_def cong: if_cong del: piperead_loop.simps)
  qed
qed

lemma piperead_spec:
  fixes n :: int and addr :: u64
  assumes ctx: "proc_ctx p s" and inv: "user_inv e (mem s) (p_pagetable (procs s ! p))" and ok: "pipe_ok (pipes s pi)"
    and ready: "pipe_queue (pipes s pi) \<noteq> [] \<or> \<not> pi_writeopen (pipes s pi)"
    and wr: "\<And>j. j < min (nat n) (length (pipe_queue (pipes s pi))) \<Longrightarrow> uwritable (mem s) (p_pagetable (procs s ! p)) (addr + of_nat j)"
  shows "\<exists>t. piperead pi addr n s = Ok (int (min (nat n) (length (pipe_queue (pipes s pi))))) t \<and>
    user_inv e (mem t) (p_pagetable (procs s ! p)) \<and>
    uwritten (mem s) (p_pagetable (procs s ! p)) addr (take (nat n) (pipe_queue (pipes s pi))) (mem t) \<and>
    pipe_ok (pipes t pi) \<and> pipe_queue (pipes t pi) = drop (nat n) (pipe_queue (pipes s pi)) \<and>
    (\<forall>x. x \<noteq> pi \<longrightarrow> pipes t x = pipes s x) \<and> procs t = woken (Some p) (ChanPipeWrite pi) (procs s)"
proof -
  note d = proc_ctxD [OF ctx]
  let ?a = "acq (PipeLock pi) s" and ?k = "min (nat n) (length (pipe_queue (pipes s pi)))"
  obtain m p' where loop: "piperead_loop pi p addr (nat n) 0 ?a = Ok (int ?k) (?a\<lparr>pipes := (pipes s)(pi := p'), mem := m\<rparr>)"
      "user_inv e m (p_pagetable (procs s ! p))"
      "uwritten (mem s) (p_pagetable (procs s ! p)) addr (take (nat n) (pipe_queue (pipes s pi))) m"
      "pipe_ok p'" "pipe_queue p' = drop (nat n) (pipe_queue (pipes s pi))"
    using piperead_loop_run [of e ?a p pi "nat n" addr 0] inv ok wr by auto
  let ?u = "?a\<lparr>pipes := (pipes s)(pi := p'), mem := m\<rparr>"
  let ?t = "(touch s)\<lparr>pipes := (pipes s)(pi := p'), mem := m, procs := woken (Some p) (ChanPipeWrite pi) (procs s)\<rparr>"
  have "wakeup (ChanPipeWrite pi) ?u = Ok () (?u\<lparr>procs := woken (Some p) (ChanPipeWrite pi) (procs s)\<rparr>)"
    using section_wakeup [OF ctx, of "PipeLock pi" ?u] d(4) by (simp add: hart_eq_def)
  moreover have "release (PipeLock pi) (?u\<lparr>procs := ps\<rparr>) = Ok () ((touch s)\<lparr>pipes := (pipes s)(pi := p'), mem := m, procs := ps\<rparr>)" for ps
    using section_release [OF ctx, of "PipeLock pi" "?u\<lparr>procs := ps\<rparr>"] d(1,2)
    by (simp add: hart_eq_def lock_commute rel_acq)
  moreover have "\<not> (pi_nread (pipes s pi) = pi_nwrite (pipes s pi) \<and> pi_writeopen (pipes s pi))"
    using ready by (auto simp: pipe_empty)
  ultimately have "piperead pi addr n s = Ok (int ?k) ?t"
    using d loop(1) by (simp add: piperead_def kM_simps curproc_run acquire_free acq_touch)
  then show ?thesis using loop(2-5) by simp
qed


text \<open>
  C22. The reader's end: when the pipe holds data or its write end is closed, and the caller's buffer can be written,
  \<^verbatim>\<open>piperead\<close> removes the oldest bytes, as many as there are up to \<open>n\<close>, stores them in order in the caller's memory
  and nowhere else, and returns their number.
\<close>

theorem piperead_dequeues:
  fixes n :: int and addr :: u64
  assumes "proc_ctx p s" and "user_inv e (mem s) (p_pagetable (procs s ! p))" and "pipe_ok (pipes s pi)"
    and "pipe_queue (pipes s pi) \<noteq> [] \<or> \<not> pi_writeopen (pipes s pi)"
    and "\<forall>j < min (nat n) (length (pipe_queue (pipes s pi))). uwritable (mem s) (p_pagetable (procs s ! p)) (addr + of_nat j)"
  shows "\<exists>t. piperead pi addr n s = Ok (int (min (nat n) (length (pipe_queue (pipes s pi))))) t \<and>
    uwritten (mem s) (p_pagetable (procs s ! p)) addr (take (nat n) (pipe_queue (pipes s pi))) (mem t) \<and>
    pipe_ok (pipes t pi) \<and> pipe_queue (pipes t pi) = drop (nat n) (pipe_queue (pipes s pi)) \<and>
    (\<forall>x. x \<noteq> pi \<longrightarrow> pipes t x = pipes s x)"
  using piperead_spec [OF assms(1-4), of n addr] assms(5) by blast

definition fs0 :: fs_state where
  "fs0 = log_state.extend log0 (fs_state.fields \<lparr>sb_magic = 0, sb_size = 0, sb_nblocks = 0, sb_ninodes = 0, sb_nlog = 30,
       sb_logstart = 2, sb_inodestart = 32, sb_bmapstart = 45\<rparr>
     (\<lambda>_. \<lparr>i_dev = 0, i_inum = 0, i_ref = 0, i_valid = False, i_type = 0, i_major = 0, i_minor = 0, i_nlink = 0, i_size = 0,
        i_addrs = replicate 13 0\<rparr>))"

definition pipe0 :: pipe where
  "pipe0 = \<lparr>pi_data = replicate 512 7, pi_nread = 4294967294, pi_nwrite = 4294967295, pi_readopen = True, pi_writeopen = True\<rparr>"

definition file0 :: file_state where
  "file0 = fs_state.extend fs0 (file_state.fields (\<lambda>_. \<lparr>f_type = FD_NONE, f_ref = 0, f_readable = False, f_writable = False,
     f_pipe = 0, f_ip = None, f_off = 0, f_major = 0\<rparr>) (\<lambda>_. pipe0))"

definition user0 :: file_state where
  "user0 = file0\<lparr>mem := um0, procs := (procs file0)[0 := (procs file0 ! 0)\<lparr>p_pagetable := um0_root\<rparr>]\<rparr>"

lemma user0_ctx: "proc_ctx 0 user0" "\<not> p_killed (procs user0 ! 0)" "user_inv um0_end (mem user0) (p_pagetable (procs user0 ! 0))"
  "mem user0 = um0" "p_pagetable (procs user0 ! 0) = um0_root" "pipes user0 = (\<lambda>_. pipe0)"
proof -
  have p: "procs file0 = procs ks1" "0 < length (procs ks1)" "\<not> p_killed (procs ks1 ! 0)"
    by (simp_all add: file0_def fs0_def fs_state.defs file_state.defs log0_defs ks1_def ks0_def NPROC_def proc0_def)
  have "proc_ctx 0 file0" using log0_ctx
    by (simp add: file0_def fs0_def fs_state.defs file_state.defs log_state.defs proc_ctx_def cpu_inv_def sie_def lock_free_def)
  then show "proc_ctx 0 user0" by (simp add: user0_def)
  show "\<not> p_killed (procs user0 ! 0)" "mem user0 = um0" "p_pagetable (procs user0 ! 0) = um0_root" "pipes user0 = (\<lambda>_. pipe0)"
      "user_inv um0_end (mem user0) (p_pagetable (procs user0 ! 0))"
    using p um0_user by (simp_all add: user0_def file0_def fs_state.defs file_state.defs)
qed

lemma pipe0_ok: "pipe_ok pipe0" "pipe_queue pipe0 = [7]"
proof -
  have "ring_at PIPESIZE (4294967294 :: u32) < 512" using pipe_ring.ring_at_less [of 4294967294] by (simp add: PIPESIZE_def)
  then show "pipe_ok pipe0" "pipe_queue pipe0 = [7]"
    by (simp_all add: pipe_ok_def pipe_queue_def ring_ok_def ring_contents_def pipe0_def PIPESIZE_def)
qed


theorem piperead_dequeues_witness:
  "\<exists>t. piperead 4096 16 3 user0 = Ok 1 t \<and> uwritten um0 um0_root 16 [7] (mem t) \<and> pipe_queue (pipes t 4096) = []"
  using piperead_dequeues [of 0 user0 um0_end 4096 3 16] user0_ctx pipe0_ok um0_writable [of 16] by auto

end
