(* ===== verification/File.thy ===== *)
theory File
  imports Pipe
begin

text \<open>
  \<^verbatim>\<open>kernel/file.c\<close>, and \<^verbatim>\<open>pipealloc\<close> of \<^verbatim>\<open>kernel/pipe.c\<close>. A file pointer is an index below \<open>NFILE\<close>.
\<close>

definition modfile :: "nat \<Rightarrow> (struct_file \<Rightarrow> struct_file) \<Rightarrow> ('a file_state_scheme, unit) kM" where
  "modfile f g = modifyK (\<lambda>s. s\<lparr>files := (files s)(f := g (files s f))\<rparr>)"

definition getfile :: "nat \<Rightarrow> ('a file_state_scheme, struct_file) kM" where
  "getfile f = getsK (\<lambda>s. files s f)"

definition fileinit :: "('a file_state_scheme, unit) kM" where
  "fileinit = initlock FtableLock ''ftable''"

fun filealloc_loop :: "nat list \<Rightarrow> ('a file_state_scheme, nat option) kM" where
  "filealloc_loop [] = thenK (release FtableLock) (returnK None)"
| "filealloc_loop (f # fs) =
     bindK (getfile f) (\<lambda>ff.
     if f_ref ff = 0 then
       thenK (modfile f (f_ref_update (\<lambda>_. 1))) (
       thenK (release FtableLock) (
       returnK (Some f)))
     else filealloc_loop fs)"

definition filealloc :: "('a file_state_scheme, nat option) kM" where
  "filealloc = thenK (acquire FtableLock) (filealloc_loop [0..<NFILE])"

definition filedup :: "nat \<Rightarrow> ('a file_state_scheme, nat) kM" where
  "filedup f =
     thenK (acquire FtableLock) (
     bindK (getfile f) (\<lambda>ff.
     if f_ref ff < 1 then panicK ''filedup'' else
     thenK (modfile f (\<lambda>ff. ff\<lparr>f_ref := f_ref ff + 1\<rparr>)) (
     thenK (release FtableLock) (
     returnK f))))"

definition fileclose :: "nat \<Rightarrow> ('a file_state_scheme, unit) kM" where
  "fileclose f =
     thenK (acquire FtableLock) (
     bindK (getfile f) (\<lambda>ff.
     if f_ref ff < 1 then panicK ''fileclose'' else
     thenK (modfile f (\<lambda>ff. ff\<lparr>f_ref := f_ref ff - 1\<rparr>)) (
     bindK (getfile f) (\<lambda>ff.
     if f_ref ff > 0 then release FtableLock else
     thenK (modfile f (\<lambda>ff. ff\<lparr>f_ref := 0, f_type := FD_NONE\<rparr>)) (
     thenK (release FtableLock) (
     if f_type ff = FD_PIPE then pipeclose (f_pipe ff) (f_writable ff)
     else whenK (f_type ff = FD_INODE \<or> f_type ff = FD_DEVICE) (
       thenK begin_op (
       thenK (bindK (derefK (f_ip ff)) iput)
       end_op))))))))"

text \<open>\<^verbatim>\<open>struct stat\<close> as it is copied to user space, 24 bytes with the padding before \<^verbatim>\<open>size\<close>.\<close>

definition stat_bytes :: "stat \<Rightarrow> u8 list \<Rightarrow> u8 list" where
  "stat_bytes st pad =
     le_bytes 4 (st_dev st) @ le_bytes 4 (st_ino st) @ le_bytes 2 (st_type st) @ le_bytes 2 (st_nlink st) @
     pad @ le_bytes 8 (st_size st)"

definition filestat :: "nat \<Rightarrow> u64 \<Rightarrow> u8 list \<Rightarrow> ('a file_state_scheme, int) kM" where
  "filestat f addr pad =
     bindK curproc (\<lambda>p.
     bindK (getfile f) (\<lambda>ff.
     if f_type ff = FD_INODE \<or> f_type ff = FD_DEVICE then
       thenK (ilock (f_ip ff)) (
       bindK (bindK (derefK (f_ip ff)) stati) (\<lambda>st.
       thenK (iunlock (f_ip ff)) (
       bindK (bindK (getsK (\<lambda>s. p_pagetable (procs s ! p))) (\<lambda>pt. copyout pt addr (stat_bytes st pad))) (\<lambda>r.
       if r < 0 then returnK (-1) else returnK 0))))
     else returnK (-1)))"

definition dev_ok :: "struct_file \<Rightarrow> bool" where
  "dev_ok ff \<longleftrightarrow> \<not> sint (f_major ff) < 0 \<and> \<not> int NDEV \<le> sint (f_major ff)"

definition fileread :: "nat \<Rightarrow> u64 \<Rightarrow> int \<Rightarrow> ('a file_state_scheme, int) kM" where
  "fileread f addr n =
     bindK (getfile f) (\<lambda>ff.
     if \<not> f_readable ff then returnK (-1) else
     case f_type ff of
       FD_PIPE \<Rightarrow> piperead (f_pipe ff) addr n
     | FD_DEVICE \<Rightarrow>
         bindK (getsK (\<lambda>s. d_read (devsw_tab s (unat (f_major ff))))) (\<lambda>op.
         if \<not> dev_ok ff then returnK (-1) else
         case op of None \<Rightarrow> returnK (-1)
         | Some ConsoleDev \<Rightarrow> consoleread (UserDst addr) n)
     | FD_INODE \<Rightarrow>
         thenK (ilock (f_ip ff)) (
         bindK (bindK (derefK (f_ip ff)) (\<lambda>ip. bindK (getfile f) (\<lambda>ff. readi ip (UserDst addr) (f_off ff) (of_int n)))) (\<lambda>(r, _).
         thenK (whenK (r > 0) (modfile f (\<lambda>ff. ff\<lparr>f_off := f_off ff + of_int r\<rparr>))) (
         thenK (iunlock (f_ip ff)) (
         returnK r))))
     | FD_NONE \<Rightarrow> panicK ''fileread'')"

definition filewrite_max :: nat where
  "filewrite_max = ((MAXOPBLOCKS - 1 - 1 - 2) div 2) * BSIZE"

text \<open>The loop of \<^verbatim>\<open>filewrite\<close> returns the final \<^verbatim>\<open>i\<close>; \<open>left\<close> is \<^verbatim>\<open>n - i\<close>.\<close>

function filewrite_loop :: "nat \<Rightarrow> u64 \<Rightarrow> nat \<Rightarrow> int \<Rightarrow> ('a file_state_scheme, int) kM" where
  "filewrite_loop f addr left i =
     (if left = 0 then returnK i else
      let n1 = min left filewrite_max in
      thenK begin_op (
      bindK (getfile f) (\<lambda>ff.
      thenK (ilock (f_ip ff)) (
      bindK (bindK (derefK (f_ip ff)) (\<lambda>ip.
        bindK (getfile f) (\<lambda>ff. writei ip (UserSrc (addr + of_int i)) (f_off ff) (of_nat n1)))) (\<lambda>r.
      thenK (whenK (r > 0) (modfile f (\<lambda>ff. ff\<lparr>f_off := f_off ff + of_int r\<rparr>))) (
      thenK (iunlock (f_ip ff)) (
      thenK end_op (
      if r \<noteq> int n1 then returnK i else filewrite_loop f addr (left - n1) (i + r)))))))))"
  by pat_completeness auto
termination
  by (relation "measure (\<lambda>(_, _, left, _). left)") (auto simp: filewrite_max_def MAXOPBLOCKS_def BSIZE_def)

declare filewrite_loop.simps [simp del]

definition filewrite :: "nat \<Rightarrow> u64 \<Rightarrow> int \<Rightarrow> ('a file_state_scheme, int) kM" where
  "filewrite f addr n =
     bindK (getfile f) (\<lambda>ff.
     if \<not> f_writable ff then returnK (-1) else
     case f_type ff of
       FD_PIPE \<Rightarrow> pipewrite (f_pipe ff) addr n
     | FD_DEVICE \<Rightarrow>
         bindK (getsK (\<lambda>s. d_write (devsw_tab s (unat (f_major ff))))) (\<lambda>op.
         if \<not> dev_ok ff then returnK (-1) else
         case op of None \<Rightarrow> returnK (-1)
         | Some ConsoleDev \<Rightarrow> consolewrite (UserSrc addr) n)
     | FD_INODE \<Rightarrow>
         bindK (filewrite_loop f addr (nat n) 0) (\<lambda>i.
         returnK (if i = n then n else -1))
     | FD_NONE \<Rightarrow> panicK ''filewrite'')"

definition pipe_bad :: "nat option \<Rightarrow> nat option \<Rightarrow> ('a file_state_scheme, (nat \<times> nat) option) kM" where
  "pipe_bad f0 f1 =
     thenK (case f0 of None \<Rightarrow> returnK () | Some f \<Rightarrow> fileclose f) (
     thenK (case f1 of None \<Rightarrow> returnK () | Some f \<Rightarrow> fileclose f) (
     returnK None))"

text \<open>\<open>None\<close> is the return value \<open>-1\<close>, otherwise the two files.\<close>

definition pipealloc :: "('a file_state_scheme, (nat \<times> nat) option) kM" where
  "pipealloc =
     bindK filealloc (\<lambda>r0.
     case r0 of None \<Rightarrow> pipe_bad None None
     | Some f0 \<Rightarrow>
     bindK filealloc (\<lambda>r1.
     case r1 of None \<Rightarrow> pipe_bad (Some f0) None
     | Some f1 \<Rightarrow>
     bindK kalloc (\<lambda>pi.
     if pi = 0 then pipe_bad (Some f0) (Some f1) else
     thenK (modpipe pi (\<lambda>p. p\<lparr>pi_readopen := True, pi_writeopen := True, pi_nwrite := 0, pi_nread := 0\<rparr>)) (
     thenK (initlock (PipeLock pi) ''pipe'') (
     thenK (modfile f0 (\<lambda>f. f\<lparr>f_type := FD_PIPE, f_readable := True, f_writable := False, f_pipe := pi\<rparr>)) (
     thenK (modfile f1 (\<lambda>f. f\<lparr>f_type := FD_PIPE, f_readable := False, f_writable := True, f_pipe := pi\<rparr>)) (
     returnK (Some (f0, f1))))))))) "

end
