(* ===== verification/Trapvec.thy ===== *)
theory Trapvec
  imports File
begin

text \<open>
  \<^verbatim>\<open>kernel/trampoline.S\<close> and the save and restore code of \<^verbatim>\<open>kernel/kernelvec.S\<close>, with the registers they use.
  \<open>uregs s h\<close> are the integer registers of hart \<open>h\<close>; the control and status registers are fields, one value
  per hart. The trampoline reaches the trapframe through the user page table; \<open>tf\<close> is the physical address of
  the page that \<^verbatim>\<open>TRAPFRAME\<close> is mapped to. \<open>ksym\<close> gives the addresses of the kernel's functions.
\<close>

section \<open>State\<close>

datatype ureg =
    RA | SP | GP | TP | T0 | T1 | T2 | S0 | S1 | A0 | A1 | A2 | A3 | A4 | A5 | A6 | A7
  | S2 | S3 | S4 | S5 | S6 | S7 | S8 | S9 | S10 | S11 | T3 | T4 | T5 | T6

record trap_state = file_state +
  ksym :: "string \<Rightarrow> u64"
  stvec :: "nat \<Rightarrow> u64"
  sepc :: "nat \<Rightarrow> u64"
  scause :: "nat \<Rightarrow> u64"
  stval :: "nat \<Rightarrow> u64"
  sip :: "nat \<Rightarrow> u64"
  sscratch :: "nat \<Rightarrow> u64"
  uregs :: "nat \<Rightarrow> ureg \<Rightarrow> u64"
  forkret_first :: bool

definition get_ureg :: "ureg \<Rightarrow> ('a trap_state_scheme, u64) kM" where
  "get_ureg r = getsK (\<lambda>s. uregs s (tp s) r)"

definition set_ureg :: "ureg \<Rightarrow> u64 \<Rightarrow> ('a trap_state_scheme, unit) kM" where
  "set_ureg r v = modifyK (\<lambda>s. s\<lparr>uregs := (uregs s)(tp s := (uregs s (tp s))(r := v))\<rparr>)"

text \<open>\<^verbatim>\<open>sd r, off(base)\<close> and \<^verbatim>\<open>ld r, off(base)\<close>\<close>

definition sd :: "ureg \<Rightarrow> nat \<Rightarrow> u64 \<Rightarrow> ('a trap_state_scheme, unit) kM" where
  "sd r off base = bindK (get_ureg r) (storeK (base + of_nat off))"

definition ld :: "ureg \<Rightarrow> nat \<Rightarrow> u64 \<Rightarrow> ('a trap_state_scheme, unit) kM" where
  "ld r off base = bindK (loadK (base + of_nat off)) (set_ureg r)"

section \<open>trampoline.S\<close>

text \<open>The registers that are saved and restored in order, with their offsets in the trapframe; \<^verbatim>\<open>a0\<close> is apart.\<close>

definition tf_slots :: "(ureg \<times> nat) list" where
  "tf_slots =
     [(RA, 40), (SP, 48), (GP, 56), (TP, 64), (T0, 72), (T1, 80), (T2, 88), (S0, 96), (S1, 104), (A1, 120),
      (A2, 128), (A3, 136), (A4, 144), (A5, 152), (A6, 160), (A7, 168), (S2, 176), (S3, 184), (S4, 192),
      (S5, 200), (S6, 208), (S7, 216), (S8, 224), (S9, 232), (S10, 240), (S11, 248), (T3, 256), (T4, 264),
      (T5, 272), (T6, 280)]"

text \<open>The result of \<^verbatim>\<open>uservec\<close> is the address it jumps to.\<close>

definition uservec :: "u64 \<Rightarrow> ('a trap_state_scheme, u64) kM" where
  "uservec tf =
     thenK (bindK (get_ureg A0) (\<lambda>a0. modifyK (\<lambda>s. s\<lparr>sscratch := (sscratch s)(tp s := a0)\<rparr>))) (
     thenK (set_ureg A0 TRAPFRAME) (
     thenK (forK tf_slots (\<lambda>(r, off). sd r off tf)) (
     thenK (bindK (getsK (\<lambda>s. sscratch s (tp s))) (set_ureg T0)) (
     thenK (sd T0 112 tf) (
     thenK (ld SP 8 tf) (
     thenK (ld TP 32 tf) (
     thenK (ld T0 16 tf) (
     thenK (ld T1 0 tf) (
     thenK (bindK (get_ureg T1) (\<lambda>t1. modifyK (\<lambda>s. s\<lparr>satp := (satp s)(tp s := t1)\<rparr>))) (
     get_ureg T0))))))))))"

definition userret :: "u64 \<Rightarrow> u64 \<Rightarrow> ('a trap_state_scheme, unit) kM" where
  "userret tf pagetable =
     thenK (modifyK (\<lambda>s. s\<lparr>satp := (satp s)(tp s := pagetable)\<rparr>)) (
     thenK (set_ureg A0 TRAPFRAME) (
     thenK (forK tf_slots (\<lambda>(r, off). ld r off tf)) (
     ld A0 112 tf)))"

section \<open>kernelvec.S\<close>

definition kv_slots :: "(ureg \<times> nat) list" where
  "kv_slots =
     [(RA, 0), (SP, 8), (GP, 16), (TP, 24), (T0, 32), (T1, 40), (T2, 48), (S0, 56), (S1, 64), (A0, 72),
      (A1, 80), (A2, 88), (A3, 96), (A4, 104), (A5, 112), (A6, 120), (A7, 128), (S2, 136), (S3, 144),
      (S4, 152), (S5, 160), (S6, 168), (S7, 176), (S8, 184), (S9, 192), (S10, 200), (S11, 208), (T3, 216),
      (T4, 224), (T5, 232), (T6, 240)]"

text \<open>\<open>ksp\<close> is the physical address that the stack pointer's virtual address \<^verbatim>\<open>sp - 256\<close> is mapped to.\<close>

definition kernelvec :: "u64 \<Rightarrow> ('a trap_state_scheme, unit) kM \<Rightarrow> ('a trap_state_scheme, unit) kM" where
  "kernelvec ksp kerneltrap =
     thenK (bindK (get_ureg SP) (\<lambda>sp. set_ureg SP (sp - 256))) (
     thenK (forK kv_slots (\<lambda>(r, off). sd r off ksp)) (
     thenK kerneltrap (
     thenK (forK (filter (\<lambda>(r, _). r \<noteq> TP) kv_slots) (\<lambda>(r, off). ld r off ksp)) (
     bindK (get_ureg SP) (\<lambda>sp. set_ureg SP (sp + 256))))))"

section \<open>Saving and restoring registers\<close>

text \<open>Memory after the registers of a list of slots have been stored, and registers after they have been loaded.\<close>

definition spaced :: "(ureg \<times> nat) list \<Rightarrow> bool" where
  "spaced sl \<longleftrightarrow> sorted_wrt (\<lambda>x y. snd x + 8 \<le> snd y) sl \<and> distinct (map fst sl) \<and> (\<forall>x \<in> set sl. snd x < 4096)"

definition saved :: "(ureg \<times> nat) list \<Rightarrow> u64 \<Rightarrow> (ureg \<Rightarrow> u64) \<Rightarrow> memory \<Rightarrow> memory" where
  "saved sl base g m = fold (\<lambda>(r, off) m. store64 m (base + of_nat off) (g r)) sl m"

definition restored :: "(ureg \<times> nat) list \<Rightarrow> u64 \<Rightarrow> memory \<Rightarrow> (ureg \<Rightarrow> u64) \<Rightarrow> ureg \<Rightarrow> u64" where
  "restored sl base m g r = (case map_of sl r of Some off \<Rightarrow> load64 m (base + of_nat off) | None \<Rightarrow> g r)"

lemma ureg_run [kM_simps]:
  "get_ureg r s = Ok (uregs s (tp s) r) s"
  "set_ureg r v s = Ok () (s\<lparr>uregs := (uregs s)(tp s := (uregs s (tp s))(r := v))\<rparr>)"
  "sd r off base s = Ok () (s\<lparr>mem := store64 (mem s) (base + of_nat off) (uregs s (tp s) r)\<rparr>)"
  "ld r off base s = Ok () (s\<lparr>uregs := (uregs s)(tp s := (uregs s (tp s))(r := load64 (mem s) (base + of_nat off)))\<rparr>)"
  by (simp_all add: sd_def ld_def get_ureg_def set_ureg_def kM_simps)

lemma sd_loop: "forK sl (\<lambda>(r, off). sd r off base) s = Ok () (s\<lparr>mem := saved sl base (uregs s (tp s)) (mem s)\<rparr>)"
  by (induction sl arbitrary: s) (auto simp: saved_def kM_simps)

lemma ld_loop:
  "distinct (map fst sl) \<Longrightarrow> forK sl (\<lambda>(r, off). ld r off base) s =
     Ok () (s\<lparr>uregs := (uregs s)(tp s := restored sl base (mem s) (uregs s (tp s)))\<rparr>)"
proof (induction sl arbitrary: s)
  case Nil
  show ?case by (simp add: restored_def [abs_def] kM_simps)
next
  case (Cons x sl)
  obtain r off where x: "x = (r, off)" by (cases x)
  have "map_of sl r = None" using Cons.prems x by (auto simp: map_of_eq_None_iff)
  then have "restored sl base m (g(r := load64 m (base + of_nat off))) = restored (x # sl) base m g" for m g
    by (auto simp: fun_eq_iff restored_def x split: option.split)
  then show ?case
    using Cons.IH [of "s\<lparr>uregs := (uregs s)(tp s := (uregs s (tp s))(r := load64 (mem s) (base + of_nat off)))\<rparr>"] Cons.prems
    by (simp add: x kM_simps fun_upd_def cong: if_cong)
qed

lemma off_slot:
  fixes a base :: u64
  assumes "unat (a - base) < off \<or> off + 8 \<le> unat (a - base)" "off < 4096"
  shows "8 \<le> unat (a - (base + of_nat off))"
proof (cases "off + 8 \<le> unat (a - base)")
  case True
  then show ?thesis using unat_minus_of_nat [of off "a - base"] by (simp add: diff_diff_eq)
next
  case False
  define w :: u64 where "w = of_nat (off - unat (a - base))"
  have "unat w = off - unat (a - base)" unfolding w_def using assms(2) by (intro unat_of_nat64) simp
  moreover have "a - (base + of_nat off) = 0 - w" using assms(1) False by (simp add: w_def)
  ultimately show ?thesis using assms False unat_sub_if' [of 0 w] by simp
qed

lemma load_store_apart:
  assumes "o1 + 8 \<le> o2 \<or> o2 + 8 \<le> o1" "o1 < 4096" "o2 < 4096"
  shows "load64 (store64 m (b + of_nat o1) v) (b + of_nat o2) = load64 m (b + of_nat o2)"
proof (rule load64_cong)
  fix i :: nat assume i: "i < 8"
  have "b + of_nat o2 + of_nat i - b = (of_nat (o2 + i) :: u64)" "o2 + i < 2 ^ 64" using assms(3) i by simp_all
  then have "unat (b + of_nat o2 + of_nat i - b) = o2 + i" using unat_of_nat64 [of "o2 + i"] by (simp only:)
  then have "8 \<le> unat (b + of_nat o2 + of_nat i - (b + of_nat o1))" using assms i by (intro off_slot) auto
  then show "store64 m (b + of_nat o1) v (b + of_nat o2 + of_nat i) = m (b + of_nat o2 + of_nat i)"
    unfolding store64_def by (intro mem_write_outside) (simp add: length_le_bytes)
qed

lemma saved_apart:
  assumes "\<forall>x \<in> set sl. snd x < 4096 \<and> (snd x + 8 \<le> off \<or> off + 8 \<le> snd x)" "off < 4096"
  shows "load64 (saved sl base g m) (base + of_nat off) = load64 m (base + of_nat off)"
  using assms(1)
proof (induction sl arbitrary: m)
  case (Cons x sl)
  then show ?case using load_store_apart [of "snd x" off] assms(2) by (auto simp: saved_def split: prod.splits)
qed (simp add: saved_def)

lemma saved_slot:
  assumes "spaced sl" "(r, off) \<in> set sl"
  shows "load64 (saved sl base g m) (base + of_nat off) = g r"
  using assms
proof (induction sl arbitrary: m)
  case (Cons x sl)
  show ?case
  proof (cases "(r, off) = x")
    case True
    have "load64 (saved sl base g m') (base + of_nat off) = load64 m' (base + of_nat off)" for m'
      using Cons.prems True by (intro saved_apart) (auto simp: spaced_def)
    then show ?thesis using True by (auto simp: saved_def)
  next
    case False
    then show ?thesis using Cons by (auto simp: saved_def spaced_def split: prod.splits)
  qed
qed simp

lemma restored_saved:
  assumes "spaced sl" "r \<in> fst ` set sl" "\<And>off. (r, off) \<in> set sl \<Longrightarrow> load64 m' (base + of_nat off) = load64 (saved sl base g m) (base + of_nat off)"
  shows "restored sl base m' h r = g r"
proof -
  obtain off where o: "(r, off) \<in> set sl" using assms(2) by force
  then have "map_of sl r = Some off" using assms(1) by (simp add: spaced_def)
  then show ?thesis using saved_slot [OF assms(1) o] assms(3) [OF o] by (simp add: restored_def)
qed

lemma saved_outside:
  assumes "\<forall>x \<in> set sl. snd x < 4096 \<and> (unat (a - base) < snd x \<or> snd x + 8 \<le> unat (a - base))"
  shows "saved sl base g m a = m a"
  using assms
proof (induction sl arbitrary: m)
  case (Cons x sl)
  then show ?case
    using off_slot [of a base "snd x"] by (auto simp: saved_def store64_def mem_write_outside length_le_bytes split: prod.splits)
qed (simp add: saved_def)

lemma tf_spaced: "spaced tf_slots" "spaced kv_slots" "distinct (map fst (filter (\<lambda>(r, _). r \<noteq> TP) kv_slots))"
  by (simp_all add: spaced_def tf_slots_def kv_slots_def)

text \<open>The trapframe slot of a register.\<close>

definition tf_reg :: "memory \<Rightarrow> u64 \<Rightarrow> ureg \<Rightarrow> u64" where
  "tf_reg m tf r = load64 m (tf + of_nat (the (map_of ((A0, 112) # tf_slots) r)))"

lemma all_slots: "r = A0 \<or> r \<in> fst ` set tf_slots" "r \<in> fst ` set kv_slots"
  by (cases r; simp add: tf_slots_def kv_slots_def)+

lemma uservec_run:
  defines "g s \<equiv> uregs s (tp s)"
  shows "\<exists>t. uservec tf s = Ok (load64 (mem s) (tf + 16)) t \<and> (\<forall>r. tf_reg (mem t) tf r = g s r) \<and>
    g t SP = load64 (mem s) (tf + 8) \<and> g t TP = load64 (mem s) (tf + 32) \<and> satp t (tp t) = load64 (mem s) tf \<and> tp t = tp s \<and>
    (\<forall>a. unat (a - tf) < 40 \<or> 288 \<le> unat (a - tf) \<longrightarrow> mem t a = mem s a)"
proof -
  let ?g = "(g s)(A0 := TRAPFRAME)"
  let ?m = "saved tf_slots tf ?g (mem s)"
  let ?n = "store64 ?m (tf + 112) (g s A0)"
  have low: "load64 ?n (tf + of_nat off) = load64 (mem s) (tf + of_nat off)" if "off \<le> 32" for off
  proof -
    have "load64 ?n (tf + of_nat off) = load64 ?m (tf + of_nat off)"
      using load_store_apart [of 112 off ?m tf] that by simp
    also have "\<dots> = load64 (mem s) (tf + of_nat off)"
      using that by (intro saved_apart) (auto simp: tf_slots_def)
    finally show ?thesis .
  qed
  note low0 = low [of 0] low [of 8] low [of 16] low [of 32]
  have reg: "tf_reg ?n tf r = g s r" for r
  proof (cases "r = A0")
    case False
    then obtain off where o: "(r, off) \<in> set tf_slots" using all_slots(1) [of r] by force
    then have "map_of tf_slots r = Some off" using tf_spaced(1) by (simp add: spaced_def)
    moreover have "112 + 8 \<le> off \<or> off + 8 \<le> 112" "off < 4096" using o False by (auto simp: tf_slots_def)
    ultimately show ?thesis
      using False saved_slot [OF tf_spaced(1) o, of tf ?g "mem s"] load_store_apart [of 112 off ?m tf "g s A0"] by (simp add: tf_reg_def)
  qed (simp add: tf_reg_def)
  have out: "?n a = mem s a" if a: "unat (a - tf) < 40 \<or> 288 \<le> unat (a - tf)" for a
  proof -
    have "?n a = ?m a" using off_slot [of a tf 112] a by (auto simp: store64_def mem_write_outside length_le_bytes)
    also have "\<dots> = mem s a" using a by (intro saved_outside) (auto simp: tf_slots_def)
    finally show ?thesis .
  qed
  show ?thesis
    using low0 reg out
    by (simp add: uservec_def kM_simps sd_loop g_def)
qed

lemma userret_run:
  "\<exists>v. userret tf pt u = Ok () v \<and> mem v = mem u \<and> satp v (tp v) = pt \<and> tp v = tp u \<and> (\<forall>r. uregs v (tp v) r = tf_reg (mem u) tf r)"
proof -
  have d: "distinct (map fst tf_slots)" using tf_spaced(1) by (simp add: spaced_def)
  have "restored tf_slots tf m g r = tf_reg m tf r" if ne: "r \<noteq> A0" for m g r
  proof -
    obtain off where o: "(r, off) \<in> set tf_slots" using all_slots(1) [of r] ne by force
    then have "map_of tf_slots r = Some off" using tf_spaced(1) by (simp add: spaced_def)
    then show ?thesis using ne by (simp add: restored_def tf_reg_def)
  qed
  moreover have "tf_reg m tf A0 = load64 m (tf + 112)" for m by (simp add: tf_reg_def)
  ultimately show ?thesis by (simp add: userret_def kM_simps ld_loop [OF d])
qed



definition trap0 :: trap_state where
  "trap0 = file_state.extend user0 (trap_state.fields (\<lambda>_. 0) (\<lambda>_. 0) (\<lambda>_. 0) (\<lambda>_. 0) (\<lambda>_. 0) (\<lambda>_. 0) (\<lambda>_. 0)
     (\<lambda>_ r. if r = A0 then 5 else 9) True)"



end
