(* ===== verification/Proc.thy ===== *)
theory Proc
  imports Trapvec
begin

text \<open>
  The life of a process, \<^verbatim>\<open>kernel/proc.c\<close> without its scheduling half (see \<open>Procsched\<close>), and \<^verbatim>\<open>usertrapret\<close> of
  \<^verbatim>\<open>kernel/trap.c\<close>, which \<^verbatim>\<open>forkret\<close> calls.
\<close>

section \<open>Reading and writing the process\<close>

definition getproc :: "nat \<Rightarrow> ('a kstate_scheme, proc) kM" where
  "getproc p = getsK (\<lambda>s. procs s ! p)"

text \<open>\<^verbatim>\<open>p->trapframe->x\<close>, with the offset of the field\<close>

definition get_tf :: "nat \<Rightarrow> u64 \<Rightarrow> ('a kstate_scheme, u64) kM" where
  "get_tf p off = getsK (\<lambda>s. load64 (mem s) (p_trapframe (procs s ! p) + off))"

definition set_tf :: "nat \<Rightarrow> u64 \<Rightarrow> u64 \<Rightarrow> ('a kstate_scheme, unit) kM" where
  "set_tf p off v = modifyK (\<lambda>s. s\<lparr>mem := store64 (mem s) (p_trapframe (procs s ! p) + off) v\<rparr>)"

section \<open>usertrapret\<close>

text \<open>The result is the value passed to \<^verbatim>\<open>userret\<close>, where the routine jumps.\<close>

definition usertrapret :: "('a trap_state_scheme, u64) kM" where
  "usertrapret =
     bindK curproc (\<lambda>p.
     thenK intr_off (
     thenK (modifyK (\<lambda>s. s\<lparr>stvec := (stvec s)(tp s := TRAMPOLINE + (ksym s ''uservec'' - trampoline s))\<rparr>)) (
     thenK (bindK (getsK (\<lambda>s. satp s (tp s))) (set_tf p tf_kernel_satp)) (
     thenK (bindK (getproc p) (\<lambda>pr. set_tf p tf_kernel_sp (p_kstack pr + PGSIZE))) (
     thenK (bindK (getsK (\<lambda>s. ksym s ''usertrap'')) (set_tf p tf_kernel_trap)) (
     thenK (bindK cpuid (\<lambda>h. set_tf p tf_kernel_hartid (of_nat h))) (
     thenK (modifyK (\<lambda>s. s\<lparr>sstatus := (sstatus s)(tp s :=
       (sstatus s (tp s) AND NOT SSTATUS_SPP) OR SSTATUS_SPIE)\<rparr>)) (
     thenK (bindK (get_tf p tf_epc) (\<lambda>epc. modifyK (\<lambda>s. s\<lparr>sepc := (sepc s)(tp s := epc)\<rparr>))) (
     bindK (getproc p) (\<lambda>pr. returnK (MAKE_SATP (p_pagetable pr))))))))))))"

section \<open>Allocation\<close>

definition procinit :: "('a kstate_scheme, unit) kM" where
  "procinit =
     thenK (initlock PidLock ''nextpid'') (
     thenK (initlock WaitLock ''wait_lock'') (
     forK [0..<NPROC] (\<lambda>p.
       thenK (initlock (ProcLock p) ''proc'') (
       thenK (modproc p (p_state_update (\<lambda>_. UNUSED))) (
       modproc p (p_kstack_update (\<lambda>_. KSTACK p)))))))"

definition proc_pagetable :: "nat \<Rightarrow> ('a vm_state_scheme, u64) kM" where
  "proc_pagetable p =
     bindK uvmcreate (\<lambda>pagetable.
     if pagetable = 0 then returnK 0 else
     bindK (getsK trampoline) (\<lambda>tramp.
     bindK (mappages pagetable TRAMPOLINE PGSIZE tramp (PTE_R OR PTE_X)) (\<lambda>r.
     if r < 0 then thenK (uvmfree pagetable 0) (returnK 0) else
     bindK (getproc p) (\<lambda>pr.
     bindK (mappages pagetable TRAPFRAME PGSIZE (p_trapframe pr) (PTE_R OR PTE_W)) (\<lambda>r.
     if r < 0 then
       thenK (uvmunmap pagetable TRAMPOLINE 1 False) (
       thenK (uvmfree pagetable 0) (
       returnK 0))
     else returnK pagetable)))))"

definition proc_freepagetable :: "u64 \<Rightarrow> u64 \<Rightarrow> ('a kmem_state_scheme, unit) kM" where
  "proc_freepagetable pagetable sz =
     thenK (uvmunmap pagetable TRAMPOLINE 1 False) (
     thenK (uvmunmap pagetable TRAPFRAME 1 False) (
     uvmfree pagetable sz))"

definition freeproc :: "nat \<Rightarrow> ('a kmem_state_scheme, unit) kM" where
  "freeproc p =
     bindK (getproc p) (\<lambda>pr.
     thenK (whenK (p_trapframe pr \<noteq> 0) (kfree (p_trapframe pr))) (
     thenK (modproc p (p_trapframe_update (\<lambda>_. 0))) (
     thenK (whenK (p_pagetable pr \<noteq> 0) (proc_freepagetable (p_pagetable pr) (p_sz pr))) (
     modproc p (\<lambda>q. q\<lparr>p_pagetable := 0, p_sz := 0, p_pid := 0, p_parent := None, p_name := (p_name q)[0 := 0],
                      p_chan := NoChan, p_killed := False, p_xstate := 0, p_state := UNUSED\<rparr>)))))"

text \<open>The search of \<^verbatim>\<open>allocproc\<close>: an unused slot, with its lock held.\<close>

fun allocproc_find :: "nat list \<Rightarrow> ('a kstate_scheme, nat option) kM" where
  "allocproc_find [] = returnK None"
| "allocproc_find (p # ps) =
     thenK (acquire (ProcLock p)) (
     bindK (getproc p) (\<lambda>pr.
     if p_state pr = UNUSED then returnK (Some p)
     else thenK (release (ProcLock p)) (allocproc_find ps)))"

definition allocproc :: "('a trap_state_scheme, nat option) kM" where
  "allocproc =
     bindK (allocproc_find [0..<NPROC]) (\<lambda>r.
     case r of None \<Rightarrow> returnK None
     | Some p \<Rightarrow>
     bindK allocpid (\<lambda>pid.
     thenK (modproc p (p_pid_update (\<lambda>_. pid))) (
     thenK (modproc p (p_state_update (\<lambda>_. USED))) (
     thenK (modproc p (\<lambda>q. q\<lparr>p_vma_array := map (\<lambda>v. v\<lparr>v_valid := False, v_refcnt := 0\<rparr>) (p_vma_array q)\<rparr>)) (
     thenK (modproc p (p_vma_top_addr_update (\<lambda>_. MAXVA - 2 * PGSIZE))) (
     bindK kalloc (\<lambda>tf.
     thenK (modproc p (p_trapframe_update (\<lambda>_. tf))) (
     if tf = 0 then
       thenK (freeproc p) (
       thenK (release (ProcLock p)) (
       returnK None))
     else
     bindK (proc_pagetable p) (\<lambda>pt.
     thenK (modproc p (p_pagetable_update (\<lambda>_. pt))) (
     if pt = 0 then
       thenK (freeproc p) (
       thenK (release (ProcLock p)) (
       returnK None))
     else
     bindK (getsK (\<lambda>s. ksym s ''forkret'')) (\<lambda>fr.
     thenK (modproc p (\<lambda>q. q\<lparr>p_context := ctx0\<lparr>cx_ra := fr, cx_sp := p_kstack q + PGSIZE\<rparr>\<rparr>)) (
     returnK (Some p)))))))))))))"

definition initcode :: "u8 list" where
  "initcode =
     [0x17, 0x05, 0x00, 0x00, 0x13, 0x05, 0x45, 0x02,
      0x97, 0x05, 0x00, 0x00, 0x93, 0x85, 0x35, 0x02,
      0x93, 0x08, 0x70, 0x00, 0x73, 0x00, 0x00, 0x00,
      0x93, 0x08, 0x20, 0x00, 0x73, 0x00, 0x00, 0x00,
      0xef, 0xf0, 0x9f, 0xff, 0x2f, 0x69, 0x6e, 0x69,
      0x74, 0x00, 0x00, 0x24, 0x00, 0x00, 0x00, 0x00,
      0x00, 0x00, 0x00, 0x00]"

definition userinit :: "('a trap_state_scheme, unit) kM" where
  "userinit =
     bindK allocproc (\<lambda>r.
     thenK (modifyK (\<lambda>s. s\<lparr>initproc := r\<rparr>)) (
     bindK (derefK r) (\<lambda>p.
     thenK (bindK (getproc p) (\<lambda>pr. uvmfirst (p_pagetable pr) initcode)) (
     thenK (modproc p (p_sz_update (\<lambda>_. PGSIZE))) (
     thenK (set_tf p tf_epc 0) (
     thenK (set_tf p tf_sp PGSIZE) (
     thenK (modproc p (\<lambda>q. q\<lparr>p_name := safestrcpy (p_name q) (nthz (cbytes ''initcode'')) 16\<rparr>)) (
     bindK (namei (cbytes ''/'')) (\<lambda>cwd.
     thenK (modproc p (p_cwd_update (\<lambda>_. cwd))) (
     thenK (modproc p (p_state_update (\<lambda>_. RUNNABLE))) (
     release (ProcLock p))))))))))))"

definition growproc :: "i32 \<Rightarrow> ('a kmem_state_scheme, int) kM" where
  "growproc n =
     bindK curproc (\<lambda>p.
     bindK (getproc p) (\<lambda>pr.
     let sz = p_sz pr in
     if 0 < sint n then
       bindK (uvmalloc (p_pagetable pr) sz (sz + scast n) PTE_W) (\<lambda>sz.
       if sz = 0 then returnK (-1) else
       thenK (modproc p (p_sz_update (\<lambda>_. sz))) (
       returnK 0))
     else
       bindK (if sint n < 0 then uvmdealloc (p_pagetable pr) sz (sz + scast n) else returnK sz) (\<lambda>sz.
       thenK (modproc p (p_sz_update (\<lambda>_. sz))) (
       returnK 0))))"

section \<open>fork\<close>

definition modvma :: "nat \<Rightarrow> nat \<Rightarrow> (vma \<Rightarrow> vma) \<Rightarrow> ('a kstate_scheme, unit) kM" where
  "modvma p i f = modproc p (\<lambda>q. q\<lparr>p_vma_array := (p_vma_array q)[i := f (p_vma_array q ! i)]\<rparr>)"

definition fork_vmas :: "nat \<Rightarrow> nat \<Rightarrow> ('a file_state_scheme, unit) kM" where
  "fork_vmas p np =
     forK [0..<VMA_MAX] (\<lambda>i.
       bindK (getproc p) (\<lambda>pr.
       let v = p_vma_array pr ! i in
       whenK (v_valid v) (
         thenK (bindK (bindK (derefK (v_f v)) filedup) (\<lambda>_. returnK ())) (
         modvma np i (\<lambda>_. v)))))"

definition fork_files :: "nat \<Rightarrow> nat \<Rightarrow> ('a file_state_scheme, unit) kM" where
  "fork_files p np =
     forK [0..<NOFILE] (\<lambda>i.
       bindK (getproc p) (\<lambda>pr.
       case p_ofile pr ! i of None \<Rightarrow> returnK ()
       | Some f \<Rightarrow>
         bindK (filedup f) (\<lambda>f.
         modproc np (\<lambda>q. q\<lparr>p_ofile := (p_ofile q)[i := Some f]\<rparr>))))"

definition fork :: "('a trap_state_scheme, int) kM" where
  "fork =
     bindK curproc (\<lambda>p.
     bindK allocproc (\<lambda>r.
     case r of None \<Rightarrow> returnK (-1)
     | Some np \<Rightarrow>
     bindK (getproc p) (\<lambda>pr.
     bindK (getproc np) (\<lambda>npr.
     bindK (uvmcopy (p_pagetable pr) (p_pagetable npr) (p_sz pr)) (\<lambda>c.
     if c < 0 then
       thenK (freeproc np) (
       thenK (release (ProcLock np)) (
       returnK (-1)))
     else
     thenK (modproc np (p_sz_update (\<lambda>_. p_sz pr))) (
     thenK (modifyK (\<lambda>s. s\<lparr>mem := mem_write (mem s) (p_trapframe npr) (mem_read (mem s) (p_trapframe pr) sizeof_trapframe)\<rparr>)) (
     thenK (modproc np (p_vma_top_addr_update (\<lambda>_. p_vma_top_addr pr))) (
     thenK (fork_vmas p np) (
     thenK (set_tf np tf_a0 0) (
     thenK (fork_files p np) (
     bindK (bindK (bindK (getproc p) (\<lambda>pr. derefK (p_cwd pr))) idup) (\<lambda>cwd.
     thenK (modproc np (p_cwd_update (\<lambda>_. Some cwd))) (
     thenK (modproc np (\<lambda>q. q\<lparr>p_name := safestrcpy (p_name q) (nthz (p_name pr)) 16\<rparr>)) (
     bindK (getproc np) (\<lambda>npr.
     thenK (release (ProcLock np)) (
     thenK (acquire WaitLock) (
     thenK (modproc np (p_parent_update (\<lambda>_. Some p))) (
     thenK (release WaitLock) (
     thenK (acquire (ProcLock np)) (
     thenK (modproc np (p_state_update (\<lambda>_. RUNNABLE))) (
     thenK (release (ProcLock np)) (
     returnK (sint (p_pid npr))))))))))))))))))))))))"

section \<open>exit and wait\<close>

definition reparent :: "nat \<Rightarrow> ('a kstate_scheme, unit) kM" where
  "reparent p =
     forK [0..<NPROC] (\<lambda>pp.
       bindK (getproc pp) (\<lambda>ppr.
       whenK (p_parent ppr = Some p) (
         bindK (getsK initproc) (\<lambda>ip.
         thenK (modproc pp (p_parent_update (\<lambda>_. ip))) (
         wakeup (case ip of None \<Rightarrow> NoChan | Some i \<Rightarrow> ChanProc i)))))) "

text \<open>
  The loop of \<^verbatim>\<open>exit\<close> over the pages of a mapping. Should \<^verbatim>\<open>addr\<close> wrap around, the C loop would start over at
  address 0 and never end.
\<close>

function exit_pages :: "nat \<Rightarrow> vma \<Rightarrow> u64 \<Rightarrow> ('a file_state_scheme, unit) kM" where
  "exit_pages p v addr =
     (if \<not> addr < v_addr v + scast (v_len v) then returnK () else
      bindK (getproc p) (\<lambda>pr.
      bindK (walkaddr (p_pagetable pr) addr) (\<lambda>pa.
      thenK (whenK (pa \<noteq> 0) (
        thenK (whenK (v_flags v = 1) (
          bindK (bindK (derefK (v_f v)) (\<lambda>f. filewrite f addr (int (unat PGSIZE)))) (\<lambda>_. returnK ()))) (
        uvmunmap (p_pagetable pr) addr 1 True))) (
      if addr + PGSIZE < addr then spinK else exit_pages p v (addr + PGSIZE)))))"
  by pat_completeness auto
termination
proof (relation "measure (\<lambda>(_, _, a). 2 ^ 64 - unat a)")
  fix p :: nat and v :: vma and addr :: u64
  assume "\<not> addr + PGSIZE < addr"
  moreover have "addr \<noteq> addr + PGSIZE" by (simp add: PGSIZE_def)
  ultimately have "addr < addr + PGSIZE" by (meson linorder_neqE)
  then show "((p, v, addr + PGSIZE), (p, v, addr)) \<in> measure (\<lambda>(_, _, a). 2 ^ 64 - unat a)"
    using unat64_less [of addr] by (auto simp: word_less_nat_alt intro!: diff_less_mono2)
qed simp

declare exit_pages.simps [simp del]

definition exit_vmas :: "nat \<Rightarrow> ('a file_state_scheme, unit) kM" where
  "exit_vmas p =
     forK [0..<VMA_MAX] (\<lambda>i.
       bindK (getproc p) (\<lambda>pr.
       let v = p_vma_array pr ! i in
       whenK (v_valid v) (
         thenK (exit_pages p v (v_addr v)) (
         thenK (bindK (derefK (v_f v)) fileclose) (
         modvma p i (v_valid_update (\<lambda>_. False)))))))"

definition exit_files :: "nat \<Rightarrow> ('a file_state_scheme, unit) kM" where
  "exit_files p =
     forK [0..<NOFILE] (\<lambda>fd.
       bindK (getproc p) (\<lambda>pr.
       case p_ofile pr ! fd of None \<Rightarrow> returnK ()
       | Some f \<Rightarrow>
         thenK (fileclose f) (
         modproc p (\<lambda>q. q\<lparr>p_ofile := (p_ofile q)[fd := None]\<rparr>))))"

definition exit :: "i32 \<Rightarrow> ('a file_state_scheme, unit) kM" where
  "exit status =
     bindK curproc (\<lambda>p.
     thenK (exit_vmas p) (
     bindK (getsK initproc) (\<lambda>ip.
     if ip = Some p then panicK ''init exiting'' else
     thenK (exit_files p) (
     thenK begin_op (
     thenK (bindK (bindK (getproc p) (\<lambda>pr. derefK (p_cwd pr))) iput) (
     thenK end_op (
     thenK (modproc p (p_cwd_update (\<lambda>_. None))) (
     thenK (acquire WaitLock) (
     thenK (reparent p) (
     thenK (bindK (getproc p) (\<lambda>pr. wakeup (case p_parent pr of None \<Rightarrow> NoChan | Some i \<Rightarrow> ChanProc i))) (
     thenK (acquire (ProcLock p)) (
     thenK (modproc p (p_xstate_update (\<lambda>_. status))) (
     thenK (modproc p (p_state_update (\<lambda>_. ZOMBIE))) (
     thenK (release WaitLock) (
     thenK sched (
     panicK ''zombie exit''))))))))))))))))"

datatype wait_res = WaitRet int | WaitKids bool

text \<open>One scan of the table by \<^verbatim>\<open>wait\<close>: it returns from the call, or says whether there are children.\<close>

fun wait_scan :: "nat \<Rightarrow> u64 \<Rightarrow> nat list \<Rightarrow> bool \<Rightarrow> ('a kmem_state_scheme, wait_res) kM" where
  "wait_scan p addr [] havekids = returnK (WaitKids havekids)"
| "wait_scan p addr (pp # pps) havekids =
     bindK (getproc pp) (\<lambda>ppr.
     if p_parent ppr \<noteq> Some p then wait_scan p addr pps havekids else
     thenK (acquire (ProcLock pp)) (
     bindK (getproc pp) (\<lambda>ppr.
     if p_state ppr = ZOMBIE then
       bindK (if addr = 0 then returnK 0
         else bindK (getproc p) (\<lambda>pr. copyout (p_pagetable pr) addr (le_bytes 4 (p_xstate ppr)))) (\<lambda>r.
       if r < 0 then
         thenK (release (ProcLock pp)) (
         thenK (release WaitLock) (
         returnK (WaitRet (-1))))
       else
         thenK (freeproc pp) (
         thenK (release (ProcLock pp)) (
         thenK (release WaitLock) (
         returnK (WaitRet (sint (p_pid ppr)))))))
     else thenK (release (ProcLock pp)) (wait_scan p addr pps True))))"

fun wait_loop :: "nat \<Rightarrow> nat \<Rightarrow> u64 \<Rightarrow> ('a kmem_state_scheme, int) kM" where
  "wait_loop 0 p addr = spinK"
| "wait_loop (Suc k) p addr =
     bindK (wait_scan p addr [0..<NPROC] False) (\<lambda>r.
     case r of
       WaitRet pid \<Rightarrow> returnK pid
     | WaitKids havekids \<Rightarrow>
         bindK (if \<not> havekids then returnK True else killed p) (\<lambda>giveup.
         if giveup then thenK (release WaitLock) (returnK (-1)) else
         thenK (sleep (ChanProc p) WaitLock) (
         wait_loop k p addr)))"

definition wait :: "u64 \<Rightarrow> ('a kmem_state_scheme, int) kM" where
  "wait addr =
     bindK curproc (\<lambda>p.
     thenK (acquire WaitLock) (
     bindK (getsK fuel) (\<lambda>k. wait_loop (Suc k) p addr)))"

section \<open>forkret\<close>

definition forkret :: "('a trap_state_scheme, u64) kM" where
  "forkret =
     thenK (bindK curproc (\<lambda>p. release (ProcLock p))) (
     bindK (getsK forkret_first) (\<lambda>first.
     thenK (whenK first (
       thenK (fsinit ROOTDEV) (
       modifyK (\<lambda>s. s\<lparr>forkret_first := False\<rparr>)))) (
     usertrapret)))"

end
