(* ===== verification/Exec.thy ===== *)
theory Exec
  imports Proc
begin

text \<open>
  \<^verbatim>\<open>kernel/exec.c\<close>. \<^verbatim>\<open>argv\<close> is the list of the addresses of the argument strings, pages of kernel memory, up to
  the null pointer. The headers read from the file are decoded from their bytes (\<^verbatim>\<open>kernel/elf.h\<close>).
\<close>

section \<open>ELF headers\<close>

definition ELF_MAGIC :: u32 where "ELF_MAGIC = 0x464C457F"
definition ELF_PROG_LOAD :: u32 where "ELF_PROG_LOAD = 1"

record elfhdr =
  e_magic :: u32
  e_entry :: u64
  e_phoff :: u64
  e_phnum :: u16

definition get64 :: "nat \<Rightarrow> u8 list \<Rightarrow> u64" where
  "get64 off d = le_word (take 8 (drop off d))"

definition get_elfhdr :: "u8 list \<Rightarrow> elfhdr" where
  "get_elfhdr bs = \<lparr>e_magic = get32 0 bs, e_entry = get64 24 bs, e_phoff = get64 32 bs, e_phnum = get16 56 bs\<rparr>"

definition sizeof_elfhdr :: nat where "sizeof_elfhdr = 64"

record proghdr =
  ph_type :: u32
  ph_flags :: u32
  ph_off :: u64
  ph_vaddr :: u64
  ph_filesz :: u64
  ph_memsz :: u64

definition get_proghdr :: "u8 list \<Rightarrow> proghdr" where
  "get_proghdr bs =
     \<lparr>ph_type = get32 0 bs, ph_flags = get32 4 bs, ph_off = get64 8 bs, ph_vaddr = get64 16 bs,
      ph_filesz = get64 32 bs, ph_memsz = get64 40 bs\<rparr>"

definition sizeof_proghdr :: nat where "sizeof_proghdr = 56"

section \<open>Loading\<close>

definition flags2perm :: "u32 \<Rightarrow> u64" where
  "flags2perm flags =
     (let perm = (if flags AND 1 \<noteq> 0 then PTE_X else 0)
      in if flags AND 2 \<noteq> 0 then perm OR PTE_W else perm)"

function loadseg_loop :: "u64 \<Rightarrow> u64 \<Rightarrow> nat \<Rightarrow> u32 \<Rightarrow> nat \<Rightarrow> nat \<Rightarrow> ('a fs_state_scheme, int) kM" where
  "loadseg_loop pagetable va ip offset i sz =
     (if sz \<le> i then returnK 0 else
      bindK (walkaddr pagetable (va + of_nat i)) (\<lambda>pa.
      if pa = 0 then panicK ''loadseg: address should exist'' else
      let n = min (sz - i) 4096 in
      bindK (readi ip (KernDst pa) (offset + of_nat i) (of_nat n)) (\<lambda>(r, _).
      if r \<noteq> int n then returnK (-1) else
      loadseg_loop pagetable va ip offset (i + 4096) sz)))"
  by pat_completeness auto
termination
  by (relation "measure (\<lambda>(_, _, _, _, i, sz). sz - i)") auto

declare loadseg_loop.simps [simp del]

definition loadseg :: "u64 \<Rightarrow> u64 \<Rightarrow> nat \<Rightarrow> u32 \<Rightarrow> u32 \<Rightarrow> ('a fs_state_scheme, int) kM" where
  "loadseg pagetable va ip offset sz = loadseg_loop pagetable va ip offset 0 (unat sz)"

text \<open>
  The loop over the program headers, \<open>k\<close> of them left; the result says whether all went well, and is the
  final \<^verbatim>\<open>sz\<close> in either case.
\<close>

fun exec_load :: "u64 \<Rightarrow> nat \<Rightarrow> nat \<Rightarrow> u32 \<Rightarrow> u64 \<Rightarrow> ('a fs_state_scheme, bool \<times> u64) kM" where
  "exec_load pagetable ip 0 off sz = returnK (True, sz)"
| "exec_load pagetable ip (Suc k) off sz =
     bindK (readi ip LocalDst off (of_nat sizeof_proghdr)) (\<lambda>(r, bs).
     if r \<noteq> int sizeof_proghdr then returnK (False, sz) else
     let ph = get_proghdr bs in
     if ph_type ph \<noteq> ELF_PROG_LOAD then exec_load pagetable ip k (off + of_nat sizeof_proghdr) sz else
     if ph_memsz ph < ph_filesz ph then returnK (False, sz) else
     if ph_vaddr ph + ph_memsz ph < ph_vaddr ph then returnK (False, sz) else
     if ph_vaddr ph mod PGSIZE \<noteq> 0 then returnK (False, sz) else
     bindK (uvmalloc pagetable sz (ph_vaddr ph + ph_memsz ph) (flags2perm (ph_flags ph))) (\<lambda>sz1.
     if sz1 = 0 then returnK (False, sz) else
     bindK (loadseg pagetable (ph_vaddr ph) ip (ucast (ph_off ph)) (ucast (ph_filesz ph))) (\<lambda>r.
     if r < 0 then returnK (False, sz1) else
     exec_load pagetable ip k (off + of_nat sizeof_proghdr) sz1)))"

section \<open>The user stack\<close>

definition align16 :: "u64 \<Rightarrow> u64" where
  "align16 sp = sp - sp mod 16"

text \<open>The C string at an address of kernel memory.\<close>

definition kstr :: "u64 \<Rightarrow> ('a kstate_scheme, u8 list) kM" where
  "kstr a =
     bindK (getsK (\<lambda>s. strlen (\<lambda>i. mem s (a + of_nat i)))) (\<lambda>n.
     case n of None \<Rightarrow> spinK | Some n \<Rightarrow> getsK (\<lambda>s. mem_read (mem s) a n))"

text \<open>Pushing the argument strings: \<open>None\<close> for \<^verbatim>\<open>goto bad\<close>, else \<^verbatim>\<open>sp\<close> and \<^verbatim>\<open>ustack\<close>.\<close>

fun exec_args :: "u64 \<Rightarrow> u64 \<Rightarrow> u64 list \<Rightarrow> u64 \<Rightarrow> u64 list \<Rightarrow> ('a kmem_state_scheme, (u64 \<times> u64 list) option) kM" where
  "exec_args pagetable stackbase [] sp ustack = returnK (Some (sp, ustack))"
| "exec_args pagetable stackbase (a # argv) sp ustack =
     (if MAXARG \<le> length ustack then returnK None else
      bindK (kstr a) (\<lambda>str.
      let sp = align16 (sp - (of_nat (length str) + 1)) in
      if sp < stackbase then returnK None else
      bindK (copyout pagetable sp (str @ [0])) (\<lambda>r.
      if r < 0 then returnK None else
      exec_args pagetable stackbase argv sp (ustack @ [sp]))))"

text \<open>The last element of the path.\<close>

definition last_elem :: "u8 list \<Rightarrow> u8 list" where
  "last_elem path = rev (takeWhile (\<lambda>c. c \<noteq> 47) (rev path))"

text \<open>The second half of \<^verbatim>\<open>exec\<close>, after the file is closed; the page table and \<^verbatim>\<open>sz\<close> are those loaded.\<close>

definition exec_stack :: "u8 list \<Rightarrow> u64 list \<Rightarrow> elfhdr \<Rightarrow> u64 \<Rightarrow> u64 \<Rightarrow> ('a trap_state_scheme, int) kM" where
  "exec_stack path argv elf pagetable sz =
     bindK curproc (\<lambda>p.
     bindK (getproc p) (\<lambda>pr.
     let oldsz = p_sz pr; sz = PGROUNDUP sz in
     bindK (uvmalloc pagetable sz (sz + 2 * PGSIZE) PTE_W) (\<lambda>sz1.
     if sz1 = 0 then thenK (proc_freepagetable pagetable sz) (returnK (-1)) else
     let sz = sz1 in
     thenK (uvmclear pagetable (sz - 2 * PGSIZE)) (
     let stackbase = sz - PGSIZE in
     bindK (exec_args pagetable stackbase argv sz []) (\<lambda>r.
     case r of None \<Rightarrow> thenK (proc_freepagetable pagetable sz) (returnK (-1))
     | Some (sp, ustack) \<Rightarrow>
     let argc = length ustack; sp = align16 (sp - (of_nat argc + 1) * 8) in
     if sp < stackbase then thenK (proc_freepagetable pagetable sz) (returnK (-1)) else
     bindK (copyout pagetable sp (concat (map (le_bytes 8) (ustack @ [0])))) (\<lambda>r.
     if r < 0 then thenK (proc_freepagetable pagetable sz) (returnK (-1)) else
     thenK (set_tf p tf_a1 sp) (
     thenK (modproc p (\<lambda>q. q\<lparr>p_name := safestrcpy (p_name q) (nthz (last_elem path)) 16\<rparr>)) (
     bindK (getproc p) (\<lambda>pr.
     let oldpagetable = p_pagetable pr in
     thenK (modproc p (p_pagetable_update (\<lambda>_. pagetable))) (
     thenK (modproc p (p_sz_update (\<lambda>_. sz))) (
     thenK (set_tf p tf_epc (e_entry elf)) (
     thenK (set_tf p tf_sp sp) (
     thenK (proc_freepagetable oldpagetable oldsz) (
     returnK (int argc)))))))))))))))"

text \<open>\<^verbatim>\<open>goto bad\<close> while the inode is locked\<close>

definition exec_bad :: "nat \<Rightarrow> u64 \<Rightarrow> u64 \<Rightarrow> ('a trap_state_scheme, int) kM" where
  "exec_bad ip pagetable sz =
     thenK (whenK (pagetable \<noteq> 0) (proc_freepagetable pagetable sz)) (
     thenK (iunlockput ip) (
     thenK end_op (
     returnK (-1))))"

definition exec :: "u8 list \<Rightarrow> u64 list \<Rightarrow> ('a trap_state_scheme, int) kM" where
  "exec path argv =
     bindK curproc (\<lambda>p.
     thenK begin_op (
     bindK (namei path) (\<lambda>r.
     case r of None \<Rightarrow> thenK end_op (returnK (-1))
     | Some ip \<Rightarrow>
     thenK (ilock (Some ip)) (
     bindK (readi ip LocalDst 0 (of_nat sizeof_elfhdr)) (\<lambda>(n, bs).
     if n \<noteq> int sizeof_elfhdr then exec_bad ip 0 0 else
     let elf = get_elfhdr bs in
     if e_magic elf \<noteq> ELF_MAGIC then exec_bad ip 0 0 else
     bindK (proc_pagetable p) (\<lambda>pagetable.
     if pagetable = 0 then exec_bad ip 0 0 else
     bindK (exec_load pagetable ip (unat (e_phnum elf)) (ucast (e_phoff elf)) 0) (\<lambda>(ok, sz).
     if \<not> ok then exec_bad ip pagetable sz else
     thenK (iunlockput ip) (
     thenK end_op (
     exec_stack path argv elf pagetable sz)))))))))"

end
