(* ===== verification/Sysfile.thy ===== *)
theory Sysfile
  imports Exec
begin

text \<open>
  The argument fetching of \<^verbatim>\<open>kernel/syscall.c\<close>, the system calls of \<^verbatim>\<open>kernel/sysfile.c\<close> (with \<^verbatim>\<open>mmap\<close> and
  \<^verbatim>\<open>munmap\<close>) and of \<^verbatim>\<open>kernel/sysproc.c\<close>. A system call returns a 64-bit value.
\<close>

section \<open>Arguments (syscall.c)\<close>

definition fetchaddr :: "u64 \<Rightarrow> ('a kmem_state_scheme, int \<times> u64) kM" where
  "fetchaddr addr =
     bindK curproc (\<lambda>p.
     bindK (getproc p) (\<lambda>pr.
     if p_sz pr \<le> addr \<or> p_sz pr < addr + 8 then returnK (-1, 0) else
     bindK (copyin (p_pagetable pr) addr 8) (\<lambda>(r, bs).
     if r \<noteq> 0 then returnK (-1, le_word bs) else returnK (0, le_word bs))))"

text \<open>The result of \<^verbatim>\<open>fetchstr\<close> is the length, and what has been stored in \<^verbatim>\<open>buf\<close>.\<close>

definition fetchstr :: "u64 \<Rightarrow> nat \<Rightarrow> ('a kmem_state_scheme, int \<times> u8 list) kM" where
  "fetchstr addr mx =
     bindK curproc (\<lambda>p.
     bindK (getproc p) (\<lambda>pr.
     bindK (copyinstr (p_pagetable pr) addr mx) (\<lambda>(r, bs).
     if r < 0 then returnK (-1, bs) else
     case strlen (nthz bs) of None \<Rightarrow> spinK | Some n \<Rightarrow> returnK (int n, bs))))"

definition argraw :: "nat \<Rightarrow> ('a kstate_scheme, u64) kM" where
  "argraw n =
     bindK curproc (\<lambda>p.
     if n = 0 then get_tf p tf_a0
     else if n = 1 then get_tf p tf_a1
     else if n = 2 then get_tf p tf_a2
     else if n = 3 then get_tf p tf_a3
     else if n = 4 then get_tf p tf_a4
     else if n = 5 then get_tf p tf_a5
     else panicK ''argraw'')"

definition argint :: "nat \<Rightarrow> ('a kstate_scheme, i32) kM" where
  "argint n = bindK (argraw n) (\<lambda>v. returnK (ucast v))"

definition argaddr :: "nat \<Rightarrow> ('a kstate_scheme, u64) kM" where
  "argaddr n = argraw n"

definition argstr :: "nat \<Rightarrow> nat \<Rightarrow> ('a kmem_state_scheme, int \<times> u8 list) kM" where
  "argstr n mx = bindK (argaddr n) (\<lambda>addr. fetchstr addr mx)"

text \<open>A string argument without its NUL; \<open>None\<close> where \<^verbatim>\<open>argstr\<close> fails.\<close>

definition argpath :: "nat \<Rightarrow> ('a kmem_state_scheme, u8 list option) kM" where
  "argpath n =
     bindK (argstr n MAXPATH) (\<lambda>(r, bs).
     if r < 0 then returnK None else returnK (Some (take (nat r) bs)))"

section \<open>File descriptors\<close>

definition argfd :: "nat \<Rightarrow> ('a file_state_scheme, (nat \<times> nat) option) kM" where
  "argfd n =
     bindK (argint n) (\<lambda>fd.
     if sint fd < 0 \<or> int NOFILE \<le> sint fd then returnK None else
     bindK curproc (\<lambda>p.
     bindK (getproc p) (\<lambda>pr.
     case p_ofile pr ! unat fd of None \<Rightarrow> returnK None | Some f \<Rightarrow> returnK (Some (unat fd, f)))))"

fun fdalloc_loop :: "nat \<Rightarrow> nat \<Rightarrow> nat list \<Rightarrow> ('a kstate_scheme, nat option) kM" where
  "fdalloc_loop p f [] = returnK None"
| "fdalloc_loop p f (fd # fds) =
     bindK (getproc p) (\<lambda>pr.
     if p_ofile pr ! fd = None then
       thenK (modproc p (\<lambda>q. q\<lparr>p_ofile := (p_ofile q)[fd := Some f]\<rparr>)) (
       returnK (Some fd))
     else fdalloc_loop p f fds)"

definition fdalloc :: "nat \<Rightarrow> ('a kstate_scheme, nat option) kM" where
  "fdalloc f = bindK curproc (\<lambda>p. fdalloc_loop p f [0..<NOFILE])"

definition sys_dup :: "('a trap_state_scheme, u64) kM" where
  "sys_dup =
     bindK (argfd 0) (\<lambda>r.
     case r of None \<Rightarrow> returnK (-1)
     | Some (_, f) \<Rightarrow>
     bindK (fdalloc f) (\<lambda>fd.
     case fd of None \<Rightarrow> returnK (-1)
     | Some fd \<Rightarrow> bindK (filedup f) (\<lambda>_. returnK (of_nat fd))))"

definition sys_read :: "('a trap_state_scheme, u64) kM" where
  "sys_read =
     bindK (argaddr 1) (\<lambda>p.
     bindK (argint 2) (\<lambda>n.
     bindK (argfd 0) (\<lambda>r.
     case r of None \<Rightarrow> returnK (-1)
     | Some (_, f) \<Rightarrow> bindK (fileread f p (sint n)) (\<lambda>r. returnK (of_int r)))))"

definition sys_write :: "('a trap_state_scheme, u64) kM" where
  "sys_write =
     bindK (argaddr 1) (\<lambda>p.
     bindK (argint 2) (\<lambda>n.
     bindK (argfd 0) (\<lambda>r.
     case r of None \<Rightarrow> returnK (-1)
     | Some (_, f) \<Rightarrow> bindK (filewrite f p (sint n)) (\<lambda>r. returnK (of_int r)))))"

definition set_ofile :: "nat \<Rightarrow> nat \<Rightarrow> nat option \<Rightarrow> ('a kstate_scheme, unit) kM" where
  "set_ofile p fd f = modproc p (\<lambda>q. q\<lparr>p_ofile := (p_ofile q)[fd := f]\<rparr>)"

definition sys_close :: "('a trap_state_scheme, u64) kM" where
  "sys_close =
     bindK (argfd 0) (\<lambda>r.
     case r of None \<Rightarrow> returnK (-1)
     | Some (fd, f) \<Rightarrow>
     thenK (bindK curproc (\<lambda>p. set_ofile p fd None)) (
     thenK (fileclose f) (
     returnK 0)))"

text \<open>\<open>pad\<close> is the padding of the uninitialised \<^verbatim>\<open>struct stat\<close>.\<close>

definition sys_fstat :: "u8 list \<Rightarrow> ('a trap_state_scheme, u64) kM" where
  "sys_fstat pad =
     bindK (argaddr 1) (\<lambda>st.
     bindK (argfd 0) (\<lambda>r.
     case r of None \<Rightarrow> returnK (-1)
     | Some (_, f) \<Rightarrow> bindK (filestat f st pad) (\<lambda>r. returnK (of_int r))))"

section \<open>Links and directories\<close>

definition fail_op :: "('a log_state_scheme, u64) kM" where
  "fail_op = thenK end_op (returnK (-1))"

definition link_bad :: "nat \<Rightarrow> ('a fs_state_scheme, u64) kM" where
  "link_bad ip =
     thenK (ilock (Some ip)) (
     thenK (modinode ip (\<lambda>i. i\<lparr>i_nlink := i_nlink i - 1\<rparr>)) (
     thenK (iupdate ip) (
     thenK (iunlockput ip) (
     fail_op))))"

definition sys_link :: "('a trap_state_scheme, u64) kM" where
  "sys_link =
     bindK (argpath 0) (\<lambda>old.
     case old of None \<Rightarrow> returnK (-1) | Some old \<Rightarrow>
     bindK (argpath 1) (\<lambda>new.
     case new of None \<Rightarrow> returnK (-1) | Some new \<Rightarrow>
     thenK begin_op (
     bindK (namei old) (\<lambda>r.
     case r of None \<Rightarrow> fail_op
     | Some ip \<Rightarrow>
     thenK (ilock (Some ip)) (
     bindK (getinode ip) (\<lambda>i.
     if i_type i = T_DIR then thenK (iunlockput ip) fail_op else
     thenK (modinode ip (\<lambda>i. i\<lparr>i_nlink := i_nlink i + 1\<rparr>)) (
     thenK (iupdate ip) (
     thenK (iunlock (Some ip)) (
     bindK (nameiparent new) (\<lambda>r.
     case r of None \<Rightarrow> link_bad ip
     | Some (dp, name) \<Rightarrow>
     thenK (ilock (Some dp)) (
     bindK (getinode dp) (\<lambda>d.
     bindK (getinode ip) (\<lambda>i.
     bindK (if i_dev d \<noteq> i_dev i then returnK (-1) else dirlink dp name (i_inum i)) (\<lambda>r.
     if r < 0 then thenK (iunlockput dp) (link_bad ip) else
     thenK (iunlockput dp) (
     thenK (iput ip) (
     thenK end_op (
     returnK 0)))))))))))))))))"

function isdirempty_loop :: "nat \<Rightarrow> nat \<Rightarrow> nat \<Rightarrow> ('a fs_state_scheme, bool) kM" where
  "isdirempty_loop dp off sz =
     (if sz \<le> off then returnK True else
      bindK (readi dp LocalDst (of_nat off) (of_nat sizeof_dirent)) (\<lambda>(r, bs).
      if r \<noteq> int sizeof_dirent then panicK ''isdirempty: readi'' else
      if de_inum (get_dirent bs) \<noteq> 0 then returnK False else
      isdirempty_loop dp (off + sizeof_dirent) sz))"
  by pat_completeness auto
termination
  by (relation "measure (\<lambda>(_, off, sz). sz - off)") (auto simp: sizeof_dirent_def)

declare isdirempty_loop.simps [simp del]

definition isdirempty :: "nat \<Rightarrow> ('a fs_state_scheme, bool) kM" where
  "isdirempty dp = bindK (getinode dp) (\<lambda>d. isdirempty_loop dp (2 * sizeof_dirent) (unat (i_size d)))"

definition unlink_bad :: "nat \<Rightarrow> ('a fs_state_scheme, u64) kM" where
  "unlink_bad dp = thenK (iunlockput dp) fail_op"

definition sys_unlink :: "('a trap_state_scheme, u64) kM" where
  "sys_unlink =
     bindK (argpath 0) (\<lambda>path.
     case path of None \<Rightarrow> returnK (-1) | Some path \<Rightarrow>
     thenK begin_op (
     bindK (nameiparent path) (\<lambda>r.
     case r of None \<Rightarrow> fail_op
     | Some (dp, name) \<Rightarrow>
     thenK (ilock (Some dp)) (
     if namecmp name (cbytes ''.'') = 0 \<or> namecmp name (cbytes ''..'') = 0 then unlink_bad dp else
     bindK (dirlookup dp name) (\<lambda>r.
     case r of None \<Rightarrow> unlink_bad dp
     | Some (ip, off) \<Rightarrow>
     thenK (ilock (Some ip)) (
     bindK (getinode ip) (\<lambda>i.
     if sint (i_nlink i) < 1 then panicK ''unlink: nlink < 1'' else
     bindK (if i_type i = T_DIR then isdirempty ip else returnK True) (\<lambda>ok.
     if \<not> ok then thenK (iunlockput ip) (unlink_bad dp) else
     bindK (writei dp (LocalSrc (replicate sizeof_dirent 0)) (of_nat off) (of_nat sizeof_dirent)) (\<lambda>w.
     if w \<noteq> int sizeof_dirent then panicK ''unlink: writei'' else
     bindK (getinode ip) (\<lambda>i.
     thenK (whenK (i_type i = T_DIR) (
       thenK (modinode dp (\<lambda>d. d\<lparr>i_nlink := i_nlink d - 1\<rparr>)) (
       iupdate dp))) (
     thenK (iunlockput dp) (
     thenK (modinode ip (\<lambda>i. i\<lparr>i_nlink := i_nlink i - 1\<rparr>)) (
     thenK (iupdate ip) (
     thenK (iunlockput ip) (
     thenK end_op (
     returnK 0))))))))))))))))"

definition create_fail :: "nat \<Rightarrow> nat \<Rightarrow> ('a fs_state_scheme, nat option) kM" where
  "create_fail ip dp =
     thenK (modinode ip (i_nlink_update (\<lambda>_. 0))) (
     thenK (iupdate ip) (
     thenK (iunlockput ip) (
     thenK (iunlockput dp) (
     returnK None))))"

text \<open>The inode is returned locked.\<close>

definition create :: "u8 list \<Rightarrow> u16 \<Rightarrow> u16 \<Rightarrow> u16 \<Rightarrow> ('a fs_state_scheme, nat option) kM" where
  "create path ty mj mn =
     bindK (nameiparent path) (\<lambda>r.
     case r of None \<Rightarrow> returnK None
     | Some (dp, name) \<Rightarrow>
     thenK (ilock (Some dp)) (
     bindK (dirlookup dp name) (\<lambda>r.
     case r of
       Some (ip, _) \<Rightarrow>
         thenK (iunlockput dp) (
         thenK (ilock (Some ip)) (
         bindK (getinode ip) (\<lambda>i.
         if ty = T_FILE \<and> (i_type i = T_FILE \<or> i_type i = T_DEVICE) then returnK (Some ip) else
         thenK (iunlockput ip) (returnK None))))
     | None \<Rightarrow>
     bindK (bindK (getinode dp) (\<lambda>d. ialloc (i_dev d) ty)) (\<lambda>r.
     case r of None \<Rightarrow> thenK (iunlockput dp) (returnK None)
     | Some ip \<Rightarrow>
     thenK (ilock (Some ip)) (
     thenK (modinode ip (\<lambda>i. i\<lparr>i_major := mj, i_minor := mn, i_nlink := 1\<rparr>)) (
     thenK (iupdate ip) (
     bindK (getinode ip) (\<lambda>i.
     bindK (getinode dp) (\<lambda>d.
     bindK (if ty = T_DIR then
         bindK (dirlink ip (cbytes ''.'') (i_inum i)) (\<lambda>r.
         if r < 0 then returnK r else dirlink ip (cbytes ''..'') (i_inum d))
       else returnK 0) (\<lambda>r.
     if r < 0 then create_fail ip dp else
     bindK (dirlink dp name (i_inum i)) (\<lambda>r.
     if r < 0 then create_fail ip dp else
     thenK (whenK (ty = T_DIR) (
       thenK (modinode dp (\<lambda>d. d\<lparr>i_nlink := i_nlink d + 1\<rparr>)) (
       iupdate dp))) (
     thenK (iunlockput dp) (
     returnK (Some ip))))))))))))))"

definition O_RDONLY :: i32 where "O_RDONLY = 0"
definition O_WRONLY :: i32 where "O_WRONLY = 1"
definition O_RDWR :: i32 where "O_RDWR = 2"
definition O_CREATE :: i32 where "O_CREATE = 0x200"
definition O_TRUNC :: i32 where "O_TRUNC = 0x400"

text \<open>The inode that \<^verbatim>\<open>open\<close> works on, locked; \<open>None\<close> for an error.\<close>

definition open_inode :: "u8 list \<Rightarrow> i32 \<Rightarrow> ('a fs_state_scheme, nat option) kM" where
  "open_inode path omode =
     (if omode AND O_CREATE \<noteq> 0 then create path T_FILE 0 0
      else
        bindK (namei path) (\<lambda>r.
        case r of None \<Rightarrow> returnK None
        | Some ip \<Rightarrow>
        thenK (ilock (Some ip)) (
        bindK (getinode ip) (\<lambda>i.
        if i_type i = T_DIR \<and> omode \<noteq> O_RDONLY then thenK (iunlockput ip) (returnK None)
        else returnK (Some ip)))))"

definition open_setup :: "nat \<Rightarrow> nat \<Rightarrow> i32 \<Rightarrow> ('a file_state_scheme, unit) kM" where
  "open_setup f ip omode =
     bindK (getinode ip) (\<lambda>i.
     thenK (if i_type i = T_DEVICE
       then modfile f (\<lambda>ff. ff\<lparr>f_type := FD_DEVICE, f_major := i_major i\<rparr>)
       else modfile f (\<lambda>ff. ff\<lparr>f_type := FD_INODE, f_off := 0\<rparr>)) (
     thenK (modfile f (\<lambda>ff. ff\<lparr>f_ip := Some ip, f_readable := (omode AND O_WRONLY = 0),
       f_writable := (omode AND O_WRONLY \<noteq> 0 \<or> omode AND O_RDWR \<noteq> 0)\<rparr>)) (
     whenK (omode AND O_TRUNC \<noteq> 0 \<and> i_type i = T_FILE) (itrunc ip))))"

definition sys_open :: "('a trap_state_scheme, u64) kM" where
  "sys_open =
     bindK (argint 1) (\<lambda>omode.
     bindK (argpath 0) (\<lambda>path.
     case path of None \<Rightarrow> returnK (-1) | Some path \<Rightarrow>
     thenK begin_op (
     bindK (open_inode path omode) (\<lambda>r.
     case r of None \<Rightarrow> fail_op
     | Some ip \<Rightarrow>
     bindK (getinode ip) (\<lambda>i.
     if i_type i = T_DEVICE \<and> (sint (i_major i) < 0 \<or> int NDEV \<le> sint (i_major i)) then
       thenK (iunlockput ip) fail_op
     else
     bindK filealloc (\<lambda>r.
     case r of None \<Rightarrow> thenK (iunlockput ip) fail_op
     | Some f \<Rightarrow>
     bindK (fdalloc f) (\<lambda>fd.
     case fd of None \<Rightarrow> thenK (fileclose f) (thenK (iunlockput ip) fail_op)
     | Some fd \<Rightarrow>
     thenK (open_setup f ip omode) (
     thenK (iunlock (Some ip)) (
     thenK end_op (
     returnK (of_nat fd)))))))))))"

definition sys_mkdir :: "('a trap_state_scheme, u64) kM" where
  "sys_mkdir =
     thenK begin_op (
     bindK (argpath 0) (\<lambda>path.
     case path of None \<Rightarrow> fail_op | Some path \<Rightarrow>
     bindK (create path T_DIR 0 0) (\<lambda>r.
     case r of None \<Rightarrow> fail_op
     | Some ip \<Rightarrow>
     thenK (iunlockput ip) (
     thenK end_op (
     returnK 0)))))"

definition sys_mknod :: "('a trap_state_scheme, u64) kM" where
  "sys_mknod =
     thenK begin_op (
     bindK (argint 1) (\<lambda>mj.
     bindK (argint 2) (\<lambda>mn.
     bindK (argpath 0) (\<lambda>path.
     case path of None \<Rightarrow> fail_op | Some path \<Rightarrow>
     bindK (create path T_DEVICE (ucast mj) (ucast mn)) (\<lambda>r.
     case r of None \<Rightarrow> fail_op
     | Some ip \<Rightarrow>
     thenK (iunlockput ip) (
     thenK end_op (
     returnK 0)))))))"

definition sys_chdir :: "('a trap_state_scheme, u64) kM" where
  "sys_chdir =
     bindK curproc (\<lambda>p.
     thenK begin_op (
     bindK (argpath 0) (\<lambda>path.
     case path of None \<Rightarrow> fail_op | Some path \<Rightarrow>
     bindK (namei path) (\<lambda>r.
     case r of None \<Rightarrow> fail_op
     | Some ip \<Rightarrow>
     thenK (ilock (Some ip)) (
     bindK (getinode ip) (\<lambda>i.
     if i_type i \<noteq> T_DIR then thenK (iunlockput ip) fail_op else
     thenK (iunlock (Some ip)) (
     thenK (bindK (bindK (getproc p) (\<lambda>pr. derefK (p_cwd pr))) iput) (
     thenK end_op (
     thenK (modproc p (p_cwd_update (\<lambda>_. Some ip))) (
     returnK 0))))))))))"

section \<open>exec and pipe\<close>

text \<open>
  The loop of \<^verbatim>\<open>sys_exec\<close> over the user's argument vector, \<open>n\<close> entries of \<^verbatim>\<open>argv\<close> left: the pages allocated so
  far, and whether the terminating null pointer was reached without an error.
\<close>

fun exec_argv :: "nat \<Rightarrow> u64 \<Rightarrow> u64 list \<Rightarrow> ('a kmem_state_scheme, bool \<times> u64 list) kM" where
  "exec_argv 0 uargv argv = returnK (False, argv)"
| "exec_argv (Suc n) uargv argv =
     bindK (fetchaddr (uargv + 8 * of_nat (length argv))) (\<lambda>(r, uarg).
     if r < 0 then returnK (False, argv) else
     if uarg = 0 then returnK (True, argv) else
     bindK kalloc (\<lambda>pg.
     if pg = 0 then returnK (False, argv) else
     bindK (fetchstr uarg (unat PGSIZE)) (\<lambda>(r, bs).
     thenK (modifyK (\<lambda>s. s\<lparr>mem := mem_write (mem s) pg bs\<rparr>)) (
     if r < 0 then returnK (False, argv @ [pg]) else
     exec_argv n uargv (argv @ [pg])))))"

definition sys_exec :: "('a trap_state_scheme, u64) kM" where
  "sys_exec =
     bindK (argaddr 1) (\<lambda>uargv.
     bindK (argpath 0) (\<lambda>path.
     case path of None \<Rightarrow> returnK (-1) | Some path \<Rightarrow>
     bindK (exec_argv MAXARG uargv []) (\<lambda>(ok, argv).
     if ok then
       bindK (exec path argv) (\<lambda>ret.
       thenK (forK argv kfree) (
       returnK (of_int ret)))
     else thenK (forK argv kfree) (returnK (-1)))))"

definition pipe_fail :: "nat \<Rightarrow> nat \<Rightarrow> ('a trap_state_scheme, u64) kM" where
  "pipe_fail rf wfl = thenK (fileclose rf) (thenK (fileclose wfl) (returnK (-1)))"

definition sys_pipe :: "('a trap_state_scheme, u64) kM" where
  "sys_pipe =
     bindK curproc (\<lambda>p.
     bindK (argaddr 0) (\<lambda>fdarray.
     bindK pipealloc (\<lambda>r.
     case r of None \<Rightarrow> returnK (-1)
     | Some (rf, wfl) \<Rightarrow>
     bindK (fdalloc rf) (\<lambda>fd0.
     case fd0 of None \<Rightarrow> pipe_fail rf wfl
     | Some fd0 \<Rightarrow>
     bindK (fdalloc wfl) (\<lambda>fd1.
     case fd1 of None \<Rightarrow> thenK (set_ofile p fd0 None) (pipe_fail rf wfl)
     | Some fd1 \<Rightarrow>
     bindK (getproc p) (\<lambda>pr.
     bindK (copyout (p_pagetable pr) fdarray (le_bytes 4 (of_nat fd0 :: u32))) (\<lambda>c.
     bindK (if c < 0 then returnK c
            else copyout (p_pagetable pr) (fdarray + 4) (le_bytes 4 (of_nat fd1 :: u32))) (\<lambda>c.
     if c < 0 then
       thenK (set_ofile p fd0 None) (
       thenK (set_ofile p fd1 None) (
       pipe_fail rf wfl))
     else returnK 0))))))))"

section \<open>mmap and munmap\<close>

definition PROT_WRITE :: i32 where "PROT_WRITE = 2"
definition MAP_SHARED :: i32 where "MAP_SHARED = 1"

text \<open>
  \<^verbatim>\<open>p->ofile[fd]\<close> is read without a test of \<^verbatim>\<open>fd\<close>; outside of the array, which C leaves undefined, the model
  panics.
\<close>

definition sys_mmap :: "('a trap_state_scheme, u64) kM" where
  "sys_mmap =
     bindK (argaddr 0) (\<lambda>addr.
     bindK (argint 1) (\<lambda>len.
     bindK (argint 2) (\<lambda>prot.
     bindK (argint 3) (\<lambda>flags.
     bindK (argint 4) (\<lambda>fd.
     bindK (argint 5) (\<lambda>off.
     bindK curproc (\<lambda>p.
     if sint fd < 0 \<or> int NOFILE \<le> sint fd then panicK ''sys_mmap: out of bounds'' else
     bindK (getproc p) (\<lambda>pr.
     let fo = p_ofile pr ! unat fd in
     bindK (if flags = MAP_SHARED then bindK (bindK (derefK fo) getfile) (\<lambda>ff. returnK (\<not> f_writable ff))
            else returnK False) (\<lambda>ro.
     if flags = MAP_SHARED \<and> ro \<and> prot AND PROT_WRITE \<noteq> 0 then returnK (-1) else
     let idx = length (takeWhile v_valid (p_vma_array pr)) in
     if idx = VMA_MAX then panicK ''All VMA struct is full!'' else
     thenK (modvma p idx (\<lambda>v. v\<lparr>v_valid := True, v_len := len, v_flags := flags, v_off := off, v_prot := prot, v_f := fo\<rparr>)) (
     thenK (bindK (bindK (derefK fo) filedup) (\<lambda>_. returnK ())) (
     thenK (modproc p (\<lambda>q. q\<lparr>p_vma_top_addr := p_vma_top_addr q - scast len\<rparr>)) (
     bindK (getproc p) (\<lambda>pr.
     thenK (modvma p idx (v_addr_update (\<lambda>_. p_vma_top_addr pr))) (
     returnK (p_vma_top_addr pr)))))))))))))))"

text \<open>The first mapping that contains an address.\<close>

definition vma_covers :: "u64 \<Rightarrow> vma \<Rightarrow> bool" where
  "vma_covers a v \<longleftrightarrow> v_addr v \<le> a \<and> a < v_addr v + scast (v_len v) \<and> v_valid v"

definition find_vma :: "vma list \<Rightarrow> u64 \<Rightarrow> nat option" where
  "find_vma vs a =
     (let i = length (takeWhile (\<lambda>v. \<not> vma_covers a v) vs) in if i < length vs then Some i else None)"

text \<open>\<^verbatim>\<open>len/PGSIZE\<close>, a division of C \<^verbatim>\<open>int\<close>s, which rounds towards zero, passed as a \<^verbatim>\<open>uint64\<close>\<close>

definition int_div :: "i32 \<Rightarrow> int \<Rightarrow> u64" where
  "int_div n d = of_int (if 0 \<le> sint n then sint n div d else - ((- sint n) div d))"

definition sys_munmap :: "('a trap_state_scheme, u64) kM" where
  "sys_munmap =
     bindK (argaddr 0) (\<lambda>addr.
     bindK (argint 1) (\<lambda>len.
     bindK curproc (\<lambda>p.
     bindK (getproc p) (\<lambda>pr.
     case find_vma (p_vma_array pr) addr of
       None \<Rightarrow> panicK ''Cannot find a vma struct representing this file!''
     | Some i \<Rightarrow>
       let v = p_vma_array pr ! i in
       bindK (walkaddr (p_pagetable pr) addr) (\<lambda>pa.
       if pa \<noteq> 0 then
         thenK (whenK (v_flags v = MAP_SHARED) (
           bindK (bindK (derefK (v_f v)) (\<lambda>f. filewrite f addr (sint len))) (\<lambda>_. returnK ()))) (
         thenK (uvmunmap (p_pagetable pr) addr (int_div len 4096) True) (
         returnK 0))
       else
         thenK (modvma p i (\<lambda>v. v\<lparr>v_refcnt := v_refcnt v - 1\<rparr>)) (
         thenK (whenK (v_refcnt v - 1 \<noteq> 0) (
           thenK (bindK (derefK (v_f v)) fileclose) (
           modvma p i (v_valid_update (\<lambda>_. False))))) (
         returnK 0)))))))"

section \<open>sysproc.c\<close>

definition sys_exit :: "('a trap_state_scheme, u64) kM" where
  "sys_exit =
     bindK (argint 0) (\<lambda>n.
     thenK (exit n) (
     returnK 0))"

definition sys_getpid :: "('a trap_state_scheme, u64) kM" where
  "sys_getpid = bindK curproc (\<lambda>p. bindK (getproc p) (\<lambda>pr. returnK (scast (p_pid pr))))"

definition sys_fork :: "('a trap_state_scheme, u64) kM" where
  "sys_fork = bindK fork (\<lambda>r. returnK (of_int r))"

definition sys_wait :: "('a trap_state_scheme, u64) kM" where
  "sys_wait = bindK (argaddr 0) (\<lambda>p. bindK (wait p) (\<lambda>r. returnK (of_int r)))"

definition sys_sbrk :: "('a trap_state_scheme, u64) kM" where
  "sys_sbrk =
     bindK (argint 0) (\<lambda>n.
     bindK (bindK curproc (\<lambda>p. bindK (getproc p) (\<lambda>pr. returnK (p_sz pr)))) (\<lambda>addr.
     bindK (growproc n) (\<lambda>r.
     if r < 0 then returnK (-1) else returnK addr)))"

fun sys_sleep_loop :: "nat \<Rightarrow> u32 \<Rightarrow> u32 \<Rightarrow> ('a kstate_scheme, bool) kM" where
  "sys_sleep_loop 0 ticks0 n = spinK"
| "sys_sleep_loop (Suc k) ticks0 n =
     bindK (getsK (\<lambda>s. ticks s - ticks0 < n)) (\<lambda>wait.
     if \<not> wait then returnK True else
     bindK (bindK curproc killed) (\<lambda>kl.
     if kl then returnK False else
     thenK (sleep ChanTicks TicksLock) (
     sys_sleep_loop k ticks0 n)))"

definition sys_sleep :: "('a trap_state_scheme, u64) kM" where
  "sys_sleep =
     bindK (argint 0) (\<lambda>n.
     let n = (if sint n < 0 then 0 else n) in
     thenK (acquire TicksLock) (
     bindK (getsK ticks) (\<lambda>ticks0.
     bindK (bindK (getsK fuel) (\<lambda>k. sys_sleep_loop (Suc k) ticks0 n)) (\<lambda>ok.
     thenK (release TicksLock) (
     returnK (if ok then 0 else -1))))))"

definition sys_kill :: "('a trap_state_scheme, u64) kM" where
  "sys_kill = bindK (argint 0) (\<lambda>pid. bindK (kill pid) (\<lambda>r. returnK (of_int r)))"

definition sys_uptime :: "('a trap_state_scheme, u64) kM" where
  "sys_uptime =
     thenK (acquire TicksLock) (
     bindK (getsK ticks) (\<lambda>xticks.
     thenK (release TicksLock) (
     returnK (ucast xticks))))"

end
