(* ===== verification/Trap.thy ===== *)
theory Trap
  imports Sysfile
begin

text \<open>
  \<^verbatim>\<open>kernel/trap.c\<close>, \<^verbatim>\<open>kernel/plic.c\<close>, the dispatch of \<^verbatim>\<open>kernel/syscall.c\<close>, and \<^verbatim>\<open>kernel/main.c\<close>.
\<close>

section \<open>plic.c\<close>

definition PLIC_SENABLE :: "nat \<Rightarrow> u64" where "PLIC_SENABLE hart = PLIC + 0x2080 + of_nat hart * 0x100"
definition PLIC_SPRIORITY :: "nat \<Rightarrow> u64" where "PLIC_SPRIORITY hart = PLIC + 0x201000 + of_nat hart * 0x2000"
definition PLIC_SCLAIM :: "nat \<Rightarrow> u64" where "PLIC_SCLAIM hart = PLIC + 0x201004 + of_nat hart * 0x2000"

definition plicinit :: "('a con_state_scheme, unit) kM" where
  "plicinit =
     thenK (mmio_write (PLIC + ucast UART0_IRQ * 4) 1) (
     mmio_write (PLIC + ucast VIRTIO0_IRQ * 4) 1)"

definition plicinithart :: "('a con_state_scheme, unit) kM" where
  "plicinithart =
     bindK cpuid (\<lambda>hart.
     thenK (mmio_write (PLIC_SENABLE hart) (push_bit (unat UART0_IRQ) 1 OR push_bit (unat VIRTIO0_IRQ) 1)) (
     mmio_write (PLIC_SPRIORITY hart) 0))"

definition plic_claim :: "('a con_state_scheme, u32) kM" where
  "plic_claim = bindK cpuid (\<lambda>hart. mmio_read (PLIC_SCLAIM hart))"

definition plic_complete :: "u32 \<Rightarrow> ('a con_state_scheme, unit) kM" where
  "plic_complete irq = bindK cpuid (\<lambda>hart. mmio_write (PLIC_SCLAIM hart) irq)"

section \<open>Interrupts\<close>

definition trapinit :: "('a kstate_scheme, unit) kM" where
  "trapinit = initlock TicksLock ''time''"

definition set_stvec :: "u64 \<Rightarrow> ('a trap_state_scheme, unit) kM" where
  "set_stvec v = modifyK (\<lambda>s. s\<lparr>stvec := (stvec s)(tp s := v)\<rparr>)"

definition trapinithart :: "('a trap_state_scheme, unit) kM" where
  "trapinithart = bindK (getsK (\<lambda>s. ksym s ''kernelvec'')) set_stvec"

definition clockintr :: "('a kstate_scheme, unit) kM" where
  "clockintr =
     thenK (acquire TicksLock) (
     thenK (modifyK (\<lambda>s. s\<lparr>ticks := ticks s + 1\<rparr>)) (
     thenK (wakeup ChanTicks) (
     release TicksLock)))"

definition devintr :: "('a trap_state_scheme, nat) kM" where
  "devintr =
     bindK (getsK (\<lambda>s. scause s (tp s))) (\<lambda>cause.
     if cause AND 0x8000000000000000 \<noteq> 0 \<and> cause AND 0xff = 9 then
       bindK plic_claim (\<lambda>irq.
       thenK (if irq = UART0_IRQ then uartintr
              else if irq = VIRTIO0_IRQ then virtio_disk_intr
              else whenK (irq \<noteq> 0) (printf (''unexpected interrupt irq=%d'' @ [CHR 0x0A]) [VInt irq])) (
       thenK (whenK (irq \<noteq> 0) (plic_complete irq)) (
       returnK 1)))
     else if cause = 0x8000000000000001 then
       thenK (bindK cpuid (\<lambda>h. whenK (h = 0) clockintr)) (
       thenK (modifyK (\<lambda>s. s\<lparr>sip := (sip s)(tp s := sip s (tp s) AND NOT 2)\<rparr>)) (
       returnK 2))
     else returnK 0)"

definition kerneltrap :: "('a trap_state_scheme, unit) kM" where
  "kerneltrap =
     bindK (getsK (\<lambda>s. sepc s (tp s))) (\<lambda>epc.
     bindK (getsK (\<lambda>s. sstatus s (tp s))) (\<lambda>status.
     bindK (getsK (\<lambda>s. scause s (tp s))) (\<lambda>cause.
     if status AND SSTATUS_SPP = 0 then panicK ''kerneltrap: not from supervisor mode'' else
     bindK intr_get (\<lambda>on.
     if on then panicK ''kerneltrap: interrupts enabled'' else
     bindK devintr (\<lambda>which_dev.
     if which_dev = 0 then
       thenK (printf (''scause %p'' @ [CHR 0x0A]) [VPtr cause]) (
       bindK (getsK (\<lambda>s. (sepc s (tp s), stval s (tp s)))) (\<lambda>(e, v).
       thenK (printf (''sepc=%p stval=%p'' @ [CHR 0x0A]) [VPtr e, VPtr v]) (
       panicK ''kerneltrap'')))
     else
     thenK (whenK (which_dev = 2) (
       bindK myproc (\<lambda>p.
       case p of None \<Rightarrow> returnK ()
       | Some _ \<Rightarrow>
         bindK (bindK curproc getproc) (\<lambda>pr.
         whenK (p_state pr = RUNNING) yield)))) (
     thenK (modifyK (\<lambda>s. s\<lparr>sepc := (sepc s)(tp s := epc)\<rparr>)) (
     modifyK (\<lambda>s. s\<lparr>sstatus := (sstatus s)(tp s := status)\<rparr>))))))))"

section \<open>System calls\<close>

text \<open>The table \<^verbatim>\<open>syscalls\<close> of \<^verbatim>\<open>syscall.c\<close> with the numbers of \<^verbatim>\<open>syscall.h\<close>; \<open>pad\<close> is that of \<^verbatim>\<open>sys_fstat\<close>.\<close>

definition syscalls :: "u8 list \<Rightarrow> (nat \<times> ('a trap_state_scheme, u64) kM) list" where
  "syscalls pad =
     [(1, sys_fork), (2, sys_exit), (3, sys_wait), (4, sys_pipe), (5, sys_read), (6, sys_kill), (7, sys_exec),
      (8, sys_fstat pad), (9, sys_chdir), (10, sys_dup), (11, sys_getpid), (12, sys_sbrk), (13, sys_sleep),
      (14, sys_uptime), (15, sys_open), (16, sys_write), (17, sys_mknod), (18, sys_unlink), (19, sys_link),
      (20, sys_mkdir), (21, sys_close), (22, sys_mmap), (23, sys_munmap)]"

definition syscall :: "u8 list \<Rightarrow> ('a trap_state_scheme, unit) kM" where
  "syscall pad =
     bindK curproc (\<lambda>p.
     bindK (get_tf p tf_a7) (\<lambda>a7.
     let num = (ucast a7 :: i32) in
     case (if 0 < sint num then map_of (syscalls pad) (unat num) else None) of
       Some f \<Rightarrow> bindK f (\<lambda>r. set_tf p tf_a0 r)
     | None \<Rightarrow>
       bindK (getproc p) (\<lambda>pr.
       thenK (printf (''%d %s: unknown sys call %d'' @ [CHR 0x0A])
         [VInt (p_pid pr), VStr (Some (takeWhile (\<lambda>b. b \<noteq> 0) (p_name pr))), VInt num]) (
       set_tf p tf_a0 (-1)))))"

section \<open>usertrap\<close>

text \<open>The load page fault on a mapped file; the result says whether the address was in a mapping.\<close>

definition mmap_fault :: "nat \<Rightarrow> ('a trap_state_scheme, bool) kM" where
  "mmap_fault p =
     bindK (getsK (\<lambda>s. stval s (tp s))) (\<lambda>target_va.
     bindK (getproc p) (\<lambda>pr.
     case find_vma (p_vma_array pr) target_va of
       None \<Rightarrow>
         thenK (printf (''Unable to find the VMA struct that the file belongs to!'' @ [CHR 0x0A]) []) (
         returnK False)
     | Some i \<Rightarrow>
         let v = p_vma_array pr ! i in
         bindK kalloc (\<lambda>pg.
         thenK (memsetK pg 0 PGSIZE) (
         bindK (mappages (p_pagetable pr) target_va PGSIZE pg (PTE_U OR PTE_V OR scast (push_bit 1 (v_prot v)))) (\<lambda>r.
         if r < 0 then panicK ''Cannot map a virtual page for the file!'' else
         thenK (modvma p i (\<lambda>v. v\<lparr>v_refcnt := v_refcnt v + 1\<rparr>)) (
         bindK (bindK (derefK (v_f v)) getfile) (\<lambda>ff.
         thenK (ilock (f_ip ff)) (
         bindK (bindK (derefK (f_ip ff)) (\<lambda>ip. readi ip (KernDst pg) (ucast (target_va - v_addr v)) (ucast PGSIZE))) (\<lambda>_.
         thenK (iunlock (f_ip ff)) (
         returnK True))))))))))"

definition unexpected_scause :: "nat \<Rightarrow> ('a trap_state_scheme, unit) kM" where
  "unexpected_scause p =
     bindK (getsK (\<lambda>s. (scause s (tp s), p_pid (procs s ! p)))) (\<lambda>(c, pid).
     thenK (printf (''usertrap(): unexpected scause %p pid=%d'' @ [CHR 0x0A]) [VPtr c, VInt pid]) (
     bindK (getsK (\<lambda>s. (sepc s (tp s), stval s (tp s)))) (\<lambda>(e, v).
     thenK (printf (''            sepc=%p stval=%p'' @ [CHR 0x0A]) [VPtr e, VPtr v]) (
     setkilled p))))"

definition usertrap :: "u8 list \<Rightarrow> ('a trap_state_scheme, u64) kM" where
  "usertrap pad =
     bindK (getsK (\<lambda>s. sstatus s (tp s))) (\<lambda>status.
     if status AND SSTATUS_SPP \<noteq> 0 then panicK ''usertrap: not from user mode'' else
     thenK (bindK (getsK (\<lambda>s. ksym s ''kernelvec'')) set_stvec) (
     bindK curproc (\<lambda>p.
     thenK (bindK (getsK (\<lambda>s. sepc s (tp s))) (set_tf p tf_epc)) (
     bindK (getsK (\<lambda>s. scause s (tp s))) (\<lambda>cause.
     bindK (
       if cause = 8 then
         bindK (killed p) (\<lambda>k.
         thenK (whenK k (exit (-1))) (
         thenK (bindK (get_tf p tf_epc) (\<lambda>epc. set_tf p tf_epc (epc + 4))) (
         thenK intr_on (
         thenK (syscall pad) (
         returnK 0)))))
       else if cause = 13 then
         bindK (mmap_fault p) (\<lambda>ok.
         thenK (whenK (\<not> ok) (unexpected_scause p)) (
         returnK 0))
       else
         bindK devintr (\<lambda>which_dev.
         thenK (whenK (which_dev = 0) (unexpected_scause p)) (
         returnK which_dev))) (\<lambda>which_dev.
     bindK (killed p) (\<lambda>k.
     thenK (whenK k (exit (-1))) (
     thenK (whenK (which_dev = 2) yield) (
     usertrapret)))))))))"

section \<open>main.c\<close>

definition main_boot :: "('a trap_state_scheme, unit) kM" where
  "main_boot =
     thenK consoleinit (
     thenK printfinit (
     thenK (printf [CHR 0x0A] []) (
     thenK (printf (''xv6 kernel is booting'' @ [CHR 0x0A]) []) (
     thenK (printf [CHR 0x0A] []) (
     thenK kinit (
     thenK kvminit (
     thenK kvminithart (
     thenK procinit (
     thenK trapinit (
     thenK trapinithart (
     thenK plicinit (
     thenK plicinithart (
     thenK binit (
     thenK iinit (
     thenK fileinit (
     thenK virtio_disk_init (
     userinit)))))))))))))))))"

definition main_other :: "('a trap_state_scheme, unit) kM" where
  "main_other =
     thenK (bindK cpuid (\<lambda>h. printf (''hart %d starting'' @ [CHR 0x0A]) [VInt (of_nat h)])) (
     thenK kvminithart (
     thenK trapinithart (
     plicinithart)))"

text \<open>
  Hart 0 boots the machine and sets \<^verbatim>\<open>started\<close>; the other harts wait for that. \<open>started\<close> is what a hart other
  than 0 finds when its waiting is over or given up.
\<close>

definition main :: "bool \<Rightarrow> ('a trap_state_scheme, unit) kM" where
  "main started =
     bindK cpuid (\<lambda>h.
     thenK (if h = 0 then main_boot else if started then main_other else spinK)
     scheduler)"

end
