(* ===== verification/Syscall_Errors.thy ===== *)
theory Syscall_Errors
  imports Trap
begin

text \<open>
  Error behaviour at the system call interface (\<^verbatim>\<open>kernel/syscall.c\<close>, \<^verbatim>\<open>kernel/trap.c\<close>, \<^verbatim>\<open>kernel/sysfile.c\<close>): unknown
  system calls, and two cases in which the handling of mapped files does not do what it means to.
\<close>

section \<open>Unknown system calls\<close>

lemma trap_frame [simp]:
  "cpu_inv (s\<lparr>stvec := v\<rparr>) = cpu_inv s" "lock_free lk (s\<lparr>stvec := v\<rparr>) = lock_free lk s"
  "sepc (touch s) = sepc s" "scause (touch s) = scause s" "stval (touch s) = stval s"
  by (simp_all add: cpu_inv_def lock_free_def sie_def touch_def Let_def)

lemma syscalls_dom: "n = 0 \<or> 23 < n \<Longrightarrow> map_of (syscalls pad) n = None"
  by (auto simp: syscalls_def map_of_eq_None_iff)

lemma fmt_unknown: "fmt_text (cbytes (''%d %s: unknown sys call %d'' @ [CHR 0x0A])) [VInt x, VStr (Some bs), VInt y] =
  Some (printint_chars x 10 True @ cbytes '' '' @ bs @ cbytes '': unknown sys call '' @ printint_chars y 10 True @ [10])"
  by (simp add: cbytes_def takes_arg_def)

text \<open>
  C18. A system call number outside of the table is an error and nothing more: \<^verbatim>\<open>syscall\<close> returns to the trap handler,
  reports the process and the number on the console, stores -1 as the result in the trapframe, and changes nothing else.
\<close>

theorem syscall_unknown:
  fixes num :: i32
  assumes "proc_ctx p s" and "\<not> panicked s" and "uart_idle s" and "pr_locking s"
    and "num = ucast (load64 (mem s) (p_trapframe (procs s ! p) + 168))" and "sint num \<notin> {1..23}"
  shows "\<exists>i. syscall pad s = Ok () ((touch s)\<lparr>mmio_in := i,
     mmio_out := mmio_out s @ map (\<lambda>c. (Reg THR, ucast c)) (printint_chars (p_pid (procs s ! p)) 10 True @ cbytes '' '' @
       takeWhile (\<lambda>b. b \<noteq> 0) (p_name (procs s ! p)) @ cbytes '': unknown sys call '' @ printint_chars num 10 True @ [10]),
     mem := store64 (mem s) (p_trapframe (procs s ! p) + 112) (-1)\<rparr>)"
proof -
  note d = proc_ctxD [OF assms(1)]
  have none: "(if 0 < sint num then map_of (syscalls pad) (unat num) else None) = None"
  proof (cases "0 < sint num")
    case True
    then have "unat num = nat (sint num)" using uint_lt2p [of num] by (simp add: sint_u32 split: if_splits)
    then show ?thesis using True assms(6) by (simp add: syscalls_dom)
  qed simp
  let ?t = "touch s"
  have "proc_ctx p ?t" "\<not> panicked ?t" "uart_idle ?t" "pr_locking ?t" using assms(1-4) by (simp_all add: uart_idle_def)
  from printf_run [OF this fmt_unknown, of "p_pid (procs s ! p)" "takeWhile (\<lambda>b. b \<noteq> 0) (p_name (procs s ! p))" num]
  obtain i where i: "printf (''%d %s: unknown sys call %d'' @ [CHR 0x0A])
      [VInt (p_pid (procs s ! p)), VStr (Some (takeWhile (\<lambda>b. b \<noteq> 0) (p_name (procs s ! p)))), VInt num] ?t =
    Ok () ((touch s)\<lparr>mmio_in := i, mmio_out := mmio_out s @ map (\<lambda>c. (Reg THR, ucast c)) (printint_chars (p_pid (procs s ! p)) 10 True @
      cbytes '' '' @ takeWhile (\<lambda>b. b \<noteq> 0) (p_name (procs s ! p)) @ cbytes '': unknown sys call '' @ printint_chars num 10 True @ [10])\<rparr>)"
    by auto
  show ?thesis
    by (rule exI [of _ i]) (simp add: syscall_def kM_simps curproc_run d get_tf_def set_tf_def getproc_def tf_a7_def tf_a0_def
      assms(5) [symmetric] none i del: append.simps map_append)
qed

definition sys0 :: trap_state where
  "sys0 = trap0\<lparr>mem := \<lambda>_. 0, mmio_in := \<lambda>_ _. 0xff, pr_locking := True\<rparr>"

lemma sys0_ctx: "proc_ctx 0 sys0" "\<not> panicked sys0" "uart_idle sys0" "pr_locking sys0" "mem sys0 = (\<lambda>_. 0)"
proof -
  have "\<not> panicked con0" by (simp add: con0_def kstate.defs kmem_state.defs vm_state.defs con_state.defs)
  then show "\<not> panicked sys0"
    by (simp add: sys0_def trap0_def user0_def file0_def fs0_def fs_state.defs file_state.defs trap_state.defs log0_defs)
  show "proc_ctx 0 sys0" using user0_ctx(1)
    by (simp add: sys0_def trap0_def file_state.defs trap_state.defs proc_ctx_def cpu_inv_def lock_free_def sie_def)
qed (simp_all add: sys0_def uart_idle_def LSR_TX_IDLE_def)

lemma sys0_sstatus: "sstatus sys0 (tp sys0) AND SSTATUS_SPP = 0"
  by (simp add: sys0_def trap0_def user0_def file0_def fs0_def fs_state.defs file_state.defs trap_state.defs log0_defs ks1_def ks0_def k0_def
    SSTATUS_SIE_def SSTATUS_SPP_def)

theorem syscall_unknown_witness:
  "\<exists>t. syscall [] sys0 = Ok () t \<and> load64 (mem t) (p_trapframe (procs sys0 ! 0) + 112) = -1"
  using syscall_unknown [OF sys0_ctx(1-4), where num = 0 and pad = "[]"] by (auto simp: sys0_ctx(5))

section \<open>Faults in mapped files\<close>

text \<open>
  C19. A user load from an address in a mapped file whose page is not loaded panics the kernel, unless the address is
  page-aligned: \<^verbatim>\<open>usertrap\<close> passes the faulting address itself to \<^verbatim>\<open>mappages\<close>.
\<close>

theorem usertrap_mmap_unaligned:
  assumes "proc_ctx p s" and "sstatus s (tp s) AND SSTATUS_SPP = 0" and "scause s (tp s) = 13"
    and "find_vma (p_vma_array (procs s ! p)) (stval s (tp s)) = Some i" and "unat (stval s (tp s)) mod 4096 \<noteq> 0"
  shows "usertrap pad s = Panic ''mappages: va not aligned''"
proof -
  note d = proc_ctxD [OF assms(1)]
  have "stval s (tp s) mod PGSIZE \<noteq> 0" using assms(5) by (simp add: aligned_word_mod aligned_def)
  then show ?thesis
    using assms(2-4) d
    by (simp add: usertrap_def kM_simps set_stvec_def curproc_run set_tf_def mmap_fault_def getproc_def kalloc_run mappages_def Let_def)
qed

definition mm0_vma :: vma where
  "mm0_vma = vma0\<lparr>v_valid := True, v_addr := 0, v_len := 8192, v_prot := 1, v_refcnt := 1\<rparr>"

definition mm0 :: trap_state where
  "mm0 = sys0\<lparr>scause := \<lambda>_. 13, stval := \<lambda>_. 0x1004,
     procs := (procs sys0)[0 := (procs sys0 ! 0)\<lparr>p_vma_array := [mm0_vma], p_pagetable := um0_root\<rparr>]\<rparr>"

lemma mm0_ctx: "proc_ctx 0 mm0" "p_vma_array (procs mm0 ! 0) = [mm0_vma]" "p_pagetable (procs mm0 ! 0) = um0_root" "mem mm0 = (\<lambda>_. 0)"
  using sys0_ctx(1) by (simp_all add: mm0_def sys0_def proc_ctx_def cpu_inv_def lock_free_def sie_def)

theorem usertrap_mmap_unaligned_witness: "usertrap [] mm0 = Panic ''mappages: va not aligned''"
proof (rule usertrap_mmap_unaligned [OF mm0_ctx(1)])
  show "find_vma (p_vma_array (procs mm0 ! 0)) (stval mm0 (tp mm0)) = Some 0"
    unfolding mm0_ctx(2) by (simp add: mm0_def mm0_vma_def find_vma_def vma_covers_def)
  show "sstatus mm0 (tp mm0) AND SSTATUS_SPP = 0" using sys0_sstatus by (simp add: mm0_def)
qed (simp_all add: mm0_def)

text \<open>
  C20. \<^verbatim>\<open>sys_munmap\<close> does not end a mapping with its last reference: when the page at the address is not loaded and the
  mapping's reference count is 1, the call returns 0 with the count at 0, but the mapping stays valid and its file
  open (the test of the count after the decrement is inverted).
\<close>

theorem munmap_keeps_mapping:
  assumes "proc_ctx p s" and "wf_pt e (mem s) (p_pagetable (procs s ! p))" and "0 < e"
    and "addr = load64 (mem s) (p_trapframe (procs s ! p) + 112)" and "lpte (mem s) (p_pagetable (procs s ! p)) addr AND PTE_V = 0"
    and "find_vma (p_vma_array (procs s ! p)) addr = Some i" and "v_refcnt (p_vma_array (procs s ! p) ! i) = 1"
  shows "\<exists>t. sys_munmap s = Ok 0 t \<and> v_valid (p_vma_array (procs t ! p) ! i) \<and> v_refcnt (p_vma_array (procs t ! p) ! i) = 0 \<and>
    t = (touch s)\<lparr>procs := procs t\<rparr>"
proof -
  note d = proc_ctxD [OF assms(1)]
  let ?v = "p_vma_array (procs s ! p) ! i"
  have i: "i < length (p_vma_array (procs s ! p))" "i = length (takeWhile (\<lambda>v. \<not> vma_covers addr v) (p_vma_array (procs s ! p)))"
    using assms(6) by (simp_all add: find_vma_def Let_def split: if_splits)
  then have "vma_covers addr ?v" using nth_length_takeWhile [of "\<lambda>v. \<not> vma_covers addr v" "p_vma_array (procs s ! p)"] by simp
  then have v: "v_valid ?v" by (simp add: vma_covers_def)
  have w: "walkaddr (p_pagetable (procs s ! p)) addr (touch s) = Ok 0 (touch s)"
    using walkaddr_run [OF assms(2,3), of "touch s" addr] assms(5) by simp
  let ?t = "(touch s)\<lparr>procs := (procs s)[p := (procs s ! p)\<lparr>p_vma_array := (p_vma_array (procs s ! p))[i := ?v\<lparr>v_refcnt := 0\<rparr>]\<rparr>]\<rparr>"
  have "sys_munmap s = Ok 0 ?t"
    using d w assms(6,7)
    by (simp add: sys_munmap_def argaddr_def argint_def argraw_def kM_simps curproc_run get_tf_def getproc_def tf_a0_def tf_a1_def
      assms(4) [symmetric] modvma_def modproc_run Let_def)
  then show ?thesis using v i(1) d by (intro exI [of _ ?t]) simp
qed

theorem munmap_keeps_mapping_witness:
  "\<exists>t. sys_munmap mm0 = Ok 0 t \<and> v_valid (p_vma_array (procs t ! 0) ! 0) \<and> v_refcnt (p_vma_array (procs t ! 0) ! 0) = 0"
proof -
  have n: "node (\<lambda>_. 0) um0_root is = (if is = [] then Some um0_root else None)" for "is" by (cases "is") simp_all
  have "tables (\<lambda>_. 0) um0_root = {um0_root}" by (auto simp: tables_def n split: if_splits)
  then have "wf_pt um0_end (\<lambda>_. 0) um0_root" "lpte (\<lambda>_. 0) um0_root va = 0" for va
    by (auto simp: wf_pt_def lpte_def vpath_def n split: if_splits)
  moreover have "find_vma [mm0_vma] 0 = Some 0" by (simp add: mm0_vma_def find_vma_def vma_covers_def)
  ultimately show ?thesis
    using munmap_keeps_mapping [OF mm0_ctx(1), of um0_end 0 0] by (auto simp: mm0_ctx(2-4) mm0_vma_def)
qed

end
