(* ===== verification/Grep.thy ===== *)
theory Grep
  imports Prelude
begin

text \<open>
  The \<^verbatim>\<open>grep\<close> program (\<^verbatim>\<open>user/grep.c\<close>): the pattern matcher, shown to decide the language of the pattern, and the loop that
  reads a file piecewise and prints the matching lines.
\<close>

section \<open>The matcher\<close>

text \<open>
  C strings are the lists of their characters, without the final 0: \<open>re = []\<close> is \<^verbatim>\<open>re[0] == '\0'\<close>, and the second
  character of a one-character string is 0. The codes of \<^verbatim>\<open>^\<close>, \<^verbatim>\<open>$\<close>, \<^verbatim>\<open>.\<close> and \<^verbatim>\<open>*\<close> are 94, 36, 46 and 42.
\<close>

function matchhere :: "u8 list \<Rightarrow> u8 list \<Rightarrow> bool" and matchstar :: "u8 \<Rightarrow> u8 list \<Rightarrow> u8 list \<Rightarrow> bool" where
  "matchhere re text =
     (case re of [] \<Rightarrow> True
      | c # re1 \<Rightarrow>
          if re1 \<noteq> [] \<and> hd re1 = 42 then matchstar c (tl re1) text
          else if c = 36 \<and> re1 = [] then text = []
          else if text \<noteq> [] \<and> (c = 46 \<or> c = hd text) then matchhere re1 (tl text)
          else False)"
| "matchstar c re text =
     (if matchhere re text then True
      else if text \<noteq> [] \<and> (hd text = c \<or> c = 46) then matchstar c re (tl text)
      else False)"
  by pat_completeness auto
termination
  by (relation "inv_image (less_than <*lex*> less_than <*lex*> less_than)
        (\<lambda>x. case x of Inl (re, text) \<Rightarrow> (length re, length text, 0) | Inr (c, re, text) \<Rightarrow> (length re, length text, Suc 0))")
    (auto simp: neq_Nil_conv)

declare matchhere.simps [simp del] matchstar.simps [simp del]

text \<open>The loop of \<^verbatim>\<open>match\<close>, which tries every suffix of the text, the empty one included.\<close>

fun match_loop :: "u8 list \<Rightarrow> u8 list \<Rightarrow> bool" where
  "match_loop re text =
     (if matchhere re text then True else
      case text of [] \<Rightarrow> False | _ # text \<Rightarrow> match_loop re text)"

declare match_loop.simps [simp del]

definition match :: "u8 list \<Rightarrow> u8 list \<Rightarrow> bool" where
  "match re text = (if re \<noteq> [] \<and> hd re = 94 then matchhere (tl re) text else match_loop re text)"

section \<open>Printing the matching lines\<close>

text \<open>Position of the first \<open>c\<close> before the end of the string in the buffer.\<close>

fun strchr :: "u8 list \<Rightarrow> u8 \<Rightarrow> nat option" where
  "strchr [] c = None"
| "strchr (x # xs) c = (if x = 0 then None else if x = c then Some 0 else map_option Suc (strchr xs c))"

lemma strchr_bound: "strchr b c = Some k \<Longrightarrow> k < length b"
  by (induction b arbitrary: k) (auto split: if_splits)

text \<open>The inner loop: the output, and the rest of the buffer from \<^verbatim>\<open>p\<close> on.\<close>

function grep_lines :: "u8 list \<Rightarrow> u8 list \<Rightarrow> u8 list \<times> u8 list" where
  "grep_lines pattern p =
     (case strchr p 10 of
        None \<Rightarrow> ([], p)
      | Some q \<Rightarrow>
          let (out, rest) = grep_lines pattern (drop (q + 1) p)
          in ((if match pattern (take q p) then take (q + 1) p else []) @ out, rest))"
  by pat_completeness auto
termination
  by (relation "measure (\<lambda>(_, p). length p)") (auto dest: strchr_bound)

declare grep_lines.simps [simp del]

text \<open>
  \<^verbatim>\<open>read\<close> returns the next bytes of the file \<open>input\<close>: as many as are asked for and left, and in call number \<open>i\<close> at most
  \<open>rd i\<close> (pipes and the console return what there is). \<open>buf\<close> holds the first \<^verbatim>\<open>m\<close> bytes of the buffer.
\<close>

function grep_loop :: "u8 list \<Rightarrow> (nat \<Rightarrow> nat) \<Rightarrow> nat \<Rightarrow> u8 list \<Rightarrow> u8 list \<Rightarrow> u8 list" where
  "grep_loop pattern rd i buf input =
     (let n = min (min (1024 - length buf - 1) (length input)) (rd i) in
      if n > 0 then
        let (out, rest) = grep_lines pattern (buf @ take n input)
        in out @ grep_loop pattern rd (i + 1) rest (drop n input)
      else [])"
  by pat_completeness auto
termination
  by (relation "measure (\<lambda>(_, _, _, _, input). length input)") auto

declare grep_loop.simps [simp del]

definition grep :: "u8 list \<Rightarrow> (nat \<Rightarrow> nat) \<Rightarrow> u8 list \<Rightarrow> u8 list" where
  "grep pattern rd input = grep_loop pattern rd 0 [] input"

section \<open>What patterns mean\<close>

datatype item = One u8 | Many u8

fun items :: "u8 list \<Rightarrow> item list" where
  "items [] = []"
| "items [c] = (if c = 36 then [] else [One c])"
| "items (c # d # re) = (if d = 42 then Many c # items re else One c # items (d # re))"

text \<open>Whether the pattern ends in a \<^verbatim>\<open>$\<close> that is not starred.\<close>

fun anchored :: "u8 list \<Rightarrow> bool" where
  "anchored [] = False"
| "anchored [c] = (c = 36)"
| "anchored (c # d # re) = (if d = 42 then anchored re else anchored (d # re))"

definition fits :: "u8 \<Rightarrow> u8 \<Rightarrow> bool" where
  "fits c x \<longleftrightarrow> c = 46 \<or> c = x"

fun lang :: "item list \<Rightarrow> u8 list set" where
  "lang [] = {[]}"
| "lang (One c # is) = {x # w |x w. fits c x \<and> w \<in> lang is}"
| "lang (Many c # is) = {v @ w |v w. list_all (fits c) v \<and> w \<in> lang is}"

text \<open>A prefix of the text is in the language; all of it when the pattern is anchored at the end.\<close>

definition here :: "u8 list \<Rightarrow> u8 list \<Rightarrow> bool" where
  "here re text \<longleftrightarrow> (\<exists>u v. text = u @ v \<and> u \<in> lang (items re) \<and> (anchored re \<longrightarrow> v = []))"

definition matches :: "u8 list \<Rightarrow> u8 list \<Rightarrow> bool" where
  "matches re text \<longleftrightarrow> (if re \<noteq> [] \<and> hd re = 94 then here (tl re) text else \<exists>u v. text = u @ v \<and> here re v)"

lemma here_Nil: "here [] tx"
  by (auto simp: here_def)

lemma here_dollar: "here [36] tx \<longleftrightarrow> tx = []"
  by (auto simp: here_def)

lemma here_One:
  assumes "\<not> (re \<noteq> [] \<and> hd re = 42)" "\<not> (c = 36 \<and> re = [])"
  shows "here (c # re) tx \<longleftrightarrow> tx \<noteq> [] \<and> fits c (hd tx) \<and> here re (tl tx)"
proof -
  have i: "items (c # re) = One c # items re" "anchored (c # re) = anchored re" using assms by (cases re; auto)+
  show ?thesis by (cases tx) (auto simp: here_def i Cons_eq_append_conv)
qed

lemma here_Many: "here (c # 42 # re) tx \<longleftrightarrow> (\<exists>v w. tx = v @ w \<and> list_all (fits c) v \<and> here re w)"
  by (simp add: here_def) (metis append.assoc)

lemma here_Many_step:
  "here (c # 42 # re) tx \<longleftrightarrow> here re tx \<or> (tx \<noteq> [] \<and> fits c (hd tx) \<and> here (c # 42 # re) (tl tx))"
proof (cases tx)
  case Nil
  then show ?thesis by (auto simp: here_Many)
next
  case (Cons x xs)
  show ?thesis unfolding here_Many Cons
  proof (intro iffI)
    assume "here re (x # xs) \<or> x # xs \<noteq> [] \<and> fits c (hd (x # xs)) \<and> (\<exists>v w. tl (x # xs) = v @ w \<and> list_all (fits c) v \<and> here re w)"
    then show "\<exists>v w. x # xs = v @ w \<and> list_all (fits c) v \<and> here re w"
    proof
      assume "here re (x # xs)"
      then show ?thesis by (intro exI [of _ "[]"] exI [of _ "x # xs"]) simp
    next
      assume "x # xs \<noteq> [] \<and> fits c (hd (x # xs)) \<and> (\<exists>v w. tl (x # xs) = v @ w \<and> list_all (fits c) v \<and> here re w)"
      then obtain v w where "fits c x" "xs = v @ w" "list_all (fits c) v" "here re w" by auto
      then show ?thesis by (intro exI [of _ "x # v"] exI [of _ w]) simp
    qed
  qed (fastforce simp: Cons_eq_append_conv)
qed

lemma matchhere_iff: "matchhere re tx \<longleftrightarrow> here re tx" "matchstar c re tx \<longleftrightarrow> here (c # 42 # re) tx"
proof (induction re tx and c re tx rule: matchhere_matchstar.induct)
  case (1 re tx)
  show ?case
  proof (cases re)
    case Nil
    then show ?thesis by (simp add: matchhere.simps here_Nil)
  next
    case (Cons c re1)
    consider "re1 \<noteq> [] \<and> hd re1 = 42" | "\<not> (re1 \<noteq> [] \<and> hd re1 = 42)" "c = 36 \<and> re1 = []"
      | "\<not> (re1 \<noteq> [] \<and> hd re1 = 42)" "\<not> (c = 36 \<and> re1 = [])" by blast
    then show ?thesis
    proof cases
      case 1
      then obtain re2 where "re1 = 42 # re2" by (cases re1) auto
      then show ?thesis using "1.IH"(1) Cons by (simp add: matchhere.simps [of "c # 42 # re2"])
    next
      case 2
      then show ?thesis using Cons by (simp add: matchhere.simps [of "[36]"] here_dollar)
    next
      case 3
      then show ?thesis using "1.IH"(2) Cons here_One [OF 3] by (auto simp: matchhere.simps [of "c # re1"] fits_def)
    qed
  qed
next
  case (2 c re tx)
  then show ?case by (subst matchstar.simps, subst here_Many_step) (auto simp: fits_def)
qed

lemma match_loop_iff: "match_loop re tx \<longleftrightarrow> (\<exists>u v. tx = u @ v \<and> here re v)"
proof (induction tx)
  case Nil
  then show ?case by (simp add: match_loop.simps matchhere_iff)
next
  case (Cons x xs)
  then show ?case by (auto simp: match_loop.simps [of re "x # xs"] matchhere_iff Cons_eq_append_conv)
qed

lemma match_iff: "match re tx \<longleftrightarrow> matches re tx"
  by (simp add: match_def matches_def matchhere_iff match_loop_iff)

section \<open>Lines\<close>

text \<open>The output of the lines of a text that match; the last piece has no newline and is no line.\<close>

definition matching_lines :: "u8 list \<Rightarrow> u8 list \<Rightarrow> u8 list" where
  "matching_lines pattern text = concat (map (\<lambda>l. l @ [10]) (filter (matches pattern) (butlast (splitc 10 text))))"

lemma matching_append:
  "matching_lines pattern (xs @ ys) = matching_lines pattern xs @ matching_lines pattern (last (splitc 10 xs) @ ys)"
  by (simp add: matching_lines_def splitc_append [of 10 xs] butlast_append)

lemma strchr_spec:
  assumes "0 \<notin> set p"
  shows "(case strchr p c of None \<Rightarrow> c \<notin> set p | Some q \<Rightarrow> c \<notin> set (take q p) \<and> p = take q p @ c # drop (q + 1) p)"
  using assms by (induction p) (auto split: option.splits)

lemma grep_lines_spec: "0 \<notin> set p \<Longrightarrow> grep_lines pattern p = (matching_lines pattern p, last (splitc 10 p))"
proof (induction pattern p rule: grep_lines.induct)
  case (1 pattern p)
  show ?case
  proof (cases "strchr p 10")
    case None
    then have "10 \<notin> set p" using strchr_spec [OF 1(2), of 10] by simp
    then show ?thesis using None by (simp add: grep_lines.simps [of _ p] matching_lines_def splitc_none)
  next
    case (Some q)
    then have q: "10 \<notin> set (take q p)" "p = take q p @ 10 # drop (q + 1) p" using strchr_spec [OF 1(2), of 10] by simp_all
    then have sp: "splitc 10 p = take q p # splitc 10 (drop (q + 1) p)" using splitc_line [OF q(1), of "drop (q + 1) p"] by simp
    have "0 \<notin> set (drop (q + 1) p)" using 1(2) by (auto dest: in_set_dropD)
    then have ih: "grep_lines pattern (drop (q + 1) p) = (matching_lines pattern (drop (q + 1) p), last (splitc 10 (drop (q + 1) p)))"
      using 1(1) Some by simp
    have "p ! q = 10" using strchr_bound [OF Some] by (subst q(2)) (simp add: nth_append)
    then have tk: "take (q + 1) p = take q p @ [10]" using strchr_bound [OF Some] by (simp add: take_Suc_conv_app_nth)
    show ?thesis using Some ih sp tk by (simp add: grep_lines.simps [of _ p] matching_lines_def match_iff)
  qed
qed

lemma grep_loop_spec:
  "(\<And>i. 0 < rd i) \<Longrightarrow> 0 \<notin> set buf \<Longrightarrow> 0 \<notin> set input \<Longrightarrow> 10 \<notin> set buf \<Longrightarrow> list_all (\<lambda>l. length l < 1023) (butlast (splitc 10 (buf @ input))) \<Longrightarrow>
    grep_loop pattern rd i buf input = matching_lines pattern (buf @ input)"
proof (induction pattern rd i buf input rule: grep_loop.induct)
  case (1 pattern rd i buf input)
  let ?n = "min (min (1024 - length buf - 1) (length input)) (rd i)"
  show ?case
  proof (cases "0 < ?n")
    case False
    then have "1023 \<le> length buf \<or> input = []" using 1(2) [of i] by auto
    moreover have "10 \<notin> set (buf @ input)" if "1023 \<le> length buf"
    proof
      assume "10 \<in> set (buf @ input)"
      then obtain l r where "input = l @ 10 # r" "10 \<notin> set l" using 1(5) by (auto dest: split_list_first)
      then have "splitc 10 (buf @ input) = (buf @ l) # splitc 10 r" using 1(5) splitc_line [of 10 "buf @ l" r] by simp
      then show False using 1(6) that by simp
    qed
    ultimately have "10 \<notin> set (buf @ input)" using 1(5) by auto
    then show ?thesis using False by (auto simp: grep_loop.simps [of _ _ _ buf] matching_lines_def splitc_none Let_def)
  next
    case True
    let ?b = "buf @ take ?n input"
    have z: "0 \<notin> set ?b" using 1(3,4) by (auto dest: in_set_takeD)
    have e: "buf @ input = ?b @ drop ?n input" by simp
    have ih: "grep_loop pattern rd (i + 1) (last (splitc 10 ?b)) (drop ?n input) = matching_lines pattern (last (splitc 10 ?b) @ drop ?n input)"
    proof (rule 1(1) [OF refl True, of "(matching_lines pattern ?b, last (splitc 10 ?b))"])
      show "list_all (\<lambda>l. length l < 1023) (butlast (splitc 10 (last (splitc 10 ?b) @ drop ?n input)))"
        using 1(6) unfolding e splitc_append [of 10 ?b] by (simp add: butlast_append)
    qed (use z last_splitc [of 10 ?b] 1(2,4) grep_lines_spec [OF z] in \<open>auto dest: in_set_dropD\<close>)
    have "grep_loop pattern rd i buf input = matching_lines pattern ?b @ matching_lines pattern (last (splitc 10 ?b) @ drop ?n input)"
      using True grep_lines_spec [OF z, of pattern] ih by (simp add: grep_loop.simps [of _ _ _ buf] Let_def)
    also have "\<dots> = matching_lines pattern (buf @ input)" unfolding e matching_append [of pattern ?b] ..
    finally show ?thesis .
  qed
qed

text \<open>
  C30. \<^verbatim>\<open>grep\<close> prints exactly the matching lines: whatever the sizes of the pieces \<^verbatim>\<open>read\<close> returns, for a file without
  zero bytes whose lines fit in the buffer, the output is the concatenation, in order, of the lines some part of which
  is in the language of the pattern (all of it from the start with \<^verbatim>\<open>^\<close>, up to the end with \<^verbatim>\<open>$\<close>). The matcher always
  ends.
\<close>

theorem grep_correct:
  assumes "\<And>i. 0 < rd i" and "0 \<notin> set input" and "list_all (\<lambda>l. length l < 1023) (butlast (splitc 10 input))"
  shows "grep pattern rd input = matching_lines pattern input"
  using grep_loop_spec [of rd "[]" input pattern 0] assms by (simp add: grep_def)

text \<open>In a file of the lines \<open>ab\<close> and \<open>ba\<close>, pattern \<open>^a*b$\<close> finds the first, also when \<^verbatim>\<open>read\<close> returns single bytes.\<close>

theorem grep_correct_witness: "grep [94, 97, 42, 98, 36] (\<lambda>_. 1) [97, 98, 10, 98, 97, 10] = [97, 98, 10]"
proof -
  have "matches [94, 97, 42, 98, 36] [97, 98]" "\<not> matches [94, 97, 42, 98, 36] [98, 97]"
    by (simp_all add: match_iff [symmetric] match_def matchhere.simps matchstar.simps)
  then show ?thesis
    using grep_correct [of "\<lambda>_. 1" "[97, 98, 10, 98, 97, 10]" "[94, 97, 42, 98, 36]"] by (simp add: matching_lines_def)
qed

end
