(* ===== verification/Spec2Isabelle.thy ===== *)
theory Spec2Isabelle
  imports Fs_Path Syscall_Errors Grep
begin

text \<open>
  Verification of the xv6-riscv kernel of this repository, with its \<^verbatim>\<open>mmap\<close> and \<^verbatim>\<open>munmap\<close> system calls.

  \<^bold>\<open>The program.\<close> A multiprocessor Unix kernel in C and RISC-V assembly. Spinlocks protect the shared structures;
  the page allocator hands out 4096-byte pages; the virtual memory code builds three-level page tables out of
  them; processes are scheduled by switching between their kernel threads and one scheduler thread per hart,
  and wait on channels or sleep locks; the console and UART drivers, the buffer cache with the virtio disk
  driver, the write-ahead log, the file system, pipes and the file table are stacked on top; traps enter from
  user code through the trampoline page and reach the system calls.

  \<^bold>\<open>Execution model.\<close> Every C function is a definition in the outcome monad of \<open>Prelude\<close>: it maps a state to \<open>Ok\<close>
  with its result and new state, \<open>Panic\<close> with a message, \<open>Spin\<close> when the hart is stuck, or \<open>Sched\<close> when the thread
  has switched to the scheduler, with the continuation for the state in which it is resumed. So an error path is a
  value, and whatever other threads and harts do while a thread sleeps is a change of the state between the two
  halves of a \<open>Sched\<close>. A spinlock that is taken is \<open>Spin\<close>: the theorems about single calls suppose that the locks the
  call needs are free (\<open>proc_ctx\<close>), and those about interleavings (\<open>Spinlock\<close>, \<open>Procsched\<close>) quantify over all orders
  of the calls of all harts. Machine integers are words of the width the C types have, read with \<open>unat\<close> or \<open>sint\<close>.
  Physical memory is a function from 64-bit addresses to bytes; page tables, free pages, trapframes and user memory
  live in it. The state is one record, extended by each source file with its own global variables: \<open>kstate\<close>
  (\<open>Machine\<close>), \<open>kmem_state\<close>, \<open>vm_state\<close>, \<open>con_state\<close>, \<open>blk_state\<close>, \<open>vio_state\<close>, \<open>log_state\<close>, \<open>fs_state\<close>, \<open>file_state\<close>,
  \<open>trap_state\<close>. Objects that C names by pointers are named by indices (\<open>proc[i]\<close>, buffers, inodes, files), with \<open>None\<close>
  for null.

  \<^bold>\<open>Theories and sources\<close> (under \<^verbatim>\<open>src/kernel/\<close>).
  \<^item> \<open>Prelude\<close>: word types, the monad, little-endian memory; \<open>Machine\<close>: \<^verbatim>\<open>param.h\<close>, \<^verbatim>\<open>riscv.h\<close>, \<^verbatim>\<open>memlayout.h\<close>, the
    structures of \<^verbatim>\<open>proc.h\<close>; \<open>Pages\<close>: arithmetic of page-aligned addresses; \<open>Ring\<close>: the locale of ring buffers with
    free-running indices, used by the UART, the console and pipes.
  \<^item> \<open>Spinlock\<close>: \<^verbatim>\<open>spinlock.c\<close>. Mutual exclusion for any number of harts; \<^verbatim>\<open>push_off\<close> and \<^verbatim>\<open>pop_off\<close> nest.
  \<^item> \<open>Kstring\<close>: \<^verbatim>\<open>string.c\<close>. \<open>Kalloc\<close>: \<^verbatim>\<open>kalloc.c\<close>; the free list in memory, conservation of pages.
  \<^item> \<open>Procsched\<close>: the scheduling half of \<^verbatim>\<open>proc.c\<close> and \<^verbatim>\<open>swtch.S\<close>; \<open>Sleeplock\<close>: \<^verbatim>\<open>sleeplock.c\<close>. A process runs on at
    most one hart, no wakeup is lost, a sleep lock has one owner.
  \<^item> \<open>Vm\<close>, \<open>Vm_Tree\<close>, \<open>Vm_Map\<close>, \<open>Vm_Copy\<close>: \<^verbatim>\<open>vm.c\<close>. Page tables in memory form a tree of distinct pages; \<^verbatim>\<open>mappages\<close>
    updates the map they stand for; \<^verbatim>\<open>copyin\<close>, \<^verbatim>\<open>copyout\<close> and \<^verbatim>\<open>copyinstr\<close> equal byte-by-byte accesses.
  \<^item> \<open>Uart\<close>, \<open>Printf\<close>, \<open>Console\<close>: \<^verbatim>\<open>uart.c\<close>, \<^verbatim>\<open>printf.c\<close>, \<^verbatim>\<open>console.c\<close>. Order of output, printed numbers, line editing.
  \<^item> \<open>Bio\<close>, \<open>Virtio\<close>: \<^verbatim>\<open>bio.c\<close>, \<^verbatim>\<open>virtio_disk.c\<close>. The cache list implements a store of blocks (\<open>bc\<close>), the contract of
    the locale \<open>block_cache\<close>.
  \<^item> \<open>Log\<close>, \<open>Log_Commit\<close>: \<^verbatim>\<open>log.c\<close>. The effect of each routine on the disk as a sequence of block writes, and that every
    prefix of this sequence recovers to the old or to the new contents.
  \<^item> \<open>Fs\<close>, \<open>Fs_Tx\<close>: \<^verbatim>\<open>fs.c\<close>, and the contract of logged block updates (\<open>logged_blocks\<close>) its routines rest on;
    \<open>Fs_Block\<close>: the block allocator; \<open>Fs_Inode\<close>: reading files; \<open>Fs_Itable\<close>: references to inodes and their locks;
    \<open>Fs_Dir\<close>, \<open>Fs_Path\<close>: directories as lists of entries, and path names resolved in the tree of directories.
  \<^item> \<open>Pipe\<close>, \<open>File\<close>: \<^verbatim>\<open>pipe.c\<close>, \<^verbatim>\<open>file.c\<close>. A pipe implements a byte queue.
  \<^item> \<open>Trapvec\<close>: \<^verbatim>\<open>trampoline.S\<close>, \<^verbatim>\<open>kernelvec.S\<close>; \<open>Proc\<close>: the rest of \<^verbatim>\<open>proc.c\<close>; \<open>Exec\<close>: \<^verbatim>\<open>exec.c\<close>; \<open>Sysfile\<close>:
    \<^verbatim>\<open>sysfile.c\<close>, \<^verbatim>\<open>sysproc.c\<close> and the argument fetching of \<^verbatim>\<open>syscall.c\<close>; \<open>Trap\<close>: \<^verbatim>\<open>syscall\<close>, \<^verbatim>\<open>trap.c\<close>, \<^verbatim>\<open>plic.c\<close>, \<^verbatim>\<open>main.c\<close>;
    \<open>Syscall_Errors\<close>: unknown system calls and two defects in the handling of mapped files.
  \<^item> \<open>Grep\<close>: \<^verbatim>\<open>user/grep.c\<close> (without \<^verbatim>\<open>main\<close>) and \<^verbatim>\<open>strchr\<close> of \<^verbatim>\<open>user/ulib.c\<close>. The matcher decides the language of the
    pattern, and exactly the matching lines are printed.

  Names that are keywords of the logic have a prefix: \<open>struct_context\<close> is \<^verbatim>\<open>struct context\<close>, \<open>struct_file\<close> \<^verbatim>\<open>struct file\<close>.

  \<^bold>\<open>Bounds and fuel.\<close> A loop that waits for another thread or a device (\<^verbatim>\<open>sleep\<close> in a \<^verbatim>\<open>while\<close>, polling a register)
  takes \<open>fuel s + 1\<close> rounds at most and is \<open>Spin\<close> after that; \<open>fuel\<close> is a field of the state that no routine changes,
  and a theorem that holds for every state holds for every number of rounds. Theorems that a call returns suppose
  the condition it waits for, so they hold whatever the fuel is. All other loops are recursive functions with a
  termination proof.

  \<^bold>\<open>Assumptions.\<close> One disk write of a block is atomic; \<open>disk_rw\<close> in \<open>Bio\<close> is the effect of \<^verbatim>\<open>virtio_disk_rw\<close> once the
  device has finished a request. Device registers are read from a stream of arbitrary values. Memory accesses of
  harts are sequentially consistent.

  \<^bold>\<open>Not modelled.\<close> Machine mode: \<^verbatim>\<open>entry.S\<close>, \<^verbatim>\<open>start.c\<close> and \<^verbatim>\<open>timervec\<close> run below the supervisor-mode state of the
  model and leave nothing in it but \<^verbatim>\<open>tp\<close>. \<^verbatim>\<open>ramdisk.c\<close> is not built and refers to fields \<^verbatim>\<open>struct buf\<close> no longer
  has. The other user programs, the rest of the user library and \<^verbatim>\<open>mkfs\<close> are clients of the system call interface and of the host.
\<close>

end
